(* ===== verification/Frisbee_Prelude.thy ===== *)
theory Frisbee_Prelude
  imports Main "HOL-Library.Word" "HOL-Library.Monad_Syntax"
begin

text \<open>
  Shared vocabulary of the development: the machine types of the Go code, Go slice
  expressions with their bounds checks, big-endian words, and the generic list lemmas and
  named collections that the component theories use.

  A Go slice expression or index that is out of range panics. Here such an operation
  returns an option, and \<^const>\<open>None\<close> is the panic: a theorem that says a result is
  \<^const>\<open>Some\<close> also says that the code does not panic.
\<close>

section \<open>Machine types\<close>

type_synonym byte = "8 word"
type_synonym uint16 = "16 word"
type_synonym uint32 = "32 word"

named_theorems wire_simps \<open>facts that compute encoded frames\<close>
named_theorems guard_simps \<open>facts that resolve the guards of an operation\<close>

section \<open>Slices\<close>

text \<open>The slice expression \<^verbatim>\<open>b[lo:hi]\<close> and a write into such a slice.\<close>

definition go_slice :: "'a list \<Rightarrow> nat \<Rightarrow> nat \<Rightarrow> 'a list option" where
  "go_slice b lo hi = (if lo \<le> hi \<and> hi \<le> length b then Some (take (hi - lo) (drop lo b)) else None)"

definition put_slice ::
    "'a list \<Rightarrow> nat \<Rightarrow> nat \<Rightarrow> ('a list \<Rightarrow> 'a list option) \<Rightarrow> 'a list option" where
  "put_slice b lo hi f =
     (go_slice b lo hi \<bind> f) \<bind> (\<lambda>s. Some (take lo b @ s @ drop (lo + length s) b))"

text \<open>The builtin \<^verbatim>\<open>copy(dst, src)\<close>: as many elements as both sides have.\<close>

definition go_copy :: "'a list \<Rightarrow> 'a list \<Rightarrow> 'a list" where
  "go_copy dst src = take (length dst) src @ drop (length src) dst"

lemma go_slice_Some [simp]:
  "lo \<le> hi \<Longrightarrow> hi \<le> length b \<Longrightarrow> go_slice b lo hi = Some (take (hi - lo) (drop lo b))"
  by (simp add: go_slice_def)

lemma go_slice_None_iff: "go_slice b lo hi = None \<longleftrightarrow> \<not> (lo \<le> hi \<and> hi \<le> length b)"
  by (simp add: go_slice_def)

lemma length_go_copy [simp]: "length (go_copy dst src) = length dst"
  by (simp add: go_copy_def)

lemma go_copy_prefix [simp]:
  "n \<le> length src \<Longrightarrow> n \<le> length dst \<Longrightarrow> take n (go_copy dst src) = take n src"
  by (simp add: go_copy_def min_def)

section \<open>Lists\<close>

lemma take_drop_split: "i \<le> j \<Longrightarrow> drop i (take j xs) @ drop j xs = drop i xs"
  by (metis append_take_drop_id drop_append drop_take length_take min_def take_all_iff
      diff_is_0_eq' drop0 drop_all nle_le)

lemma append_eq_take_drop:
  "xs = ys @ zs \<Longrightarrow> length ys = n \<Longrightarrow> take n xs = ys \<and> drop n xs = zs"
  by simp

lemma list_length_ge_2: "2 \<le> length xs \<Longrightarrow> \<exists>a b ys. xs = a # b # ys"
  by (cases xs; cases "tl xs") auto

lemma list_length_eq_2: "length xs = 2 \<Longrightarrow> \<exists>a b. xs = [a, b]"
  by (cases xs; cases "tl xs") auto

lemma list_length_eq_4: "length xs = 4 \<Longrightarrow> \<exists>a b c d. xs = [a, b, c, d]"
  by (auto simp: numeral_eq_Suc length_Suc_conv)

section \<open>Big-endian words\<close>

text \<open>
  \<^verbatim>\<open>binary.BigEndian.PutUint16\<close> and \<^verbatim>\<open>PutUint32\<close> write the leading bytes of a slice, most
  significant byte first; \<^verbatim>\<open>Uint16\<close> and \<^verbatim>\<open>Uint32\<close> read them. All four check the length first.
\<close>

unbundle bit_operations_syntax

fun PutUint16 :: "uint16 \<Rightarrow> byte list \<Rightarrow> byte list option" where
  "PutUint16 v (_ # _ # r) = Some (ucast (drop_bit 8 v) # ucast v # r)"
| "PutUint16 v _ = None"

fun PutUint32 :: "uint32 \<Rightarrow> byte list \<Rightarrow> byte list option" where
  "PutUint32 v (_ # _ # _ # _ # r) =
     Some (ucast (drop_bit 24 v) # ucast (drop_bit 16 v) # ucast (drop_bit 8 v) # ucast v # r)"
| "PutUint32 v _ = None"

fun Uint16 :: "byte list \<Rightarrow> uint16 option" where
  "Uint16 (b0 # b1 # _) = Some (ucast b1 OR push_bit 8 (ucast b0))"
| "Uint16 _ = None"

fun Uint32 :: "byte list \<Rightarrow> uint32 option" where
  "Uint32 (b0 # b1 # b2 # b3 # _) =
     Some (ucast b3 OR push_bit 8 (ucast b2) OR push_bit 16 (ucast b1) OR push_bit 24 (ucast b0))"
| "Uint32 _ = None"

lemma bit_byte [dest]: "bit (b :: byte) n \<Longrightarrow> n < 8"
  by (auto dest: bit_imp_le_length)

lemma uint16_bytes:
  "(ucast (ucast v :: byte) :: uint16) OR push_bit 8 (ucast (ucast (drop_bit 8 v) :: byte)) = v"
  by (rule bit_word_eqI) (auto simp: bit_simps)

lemma uint16_bytes_split:
  fixes b0 b1 :: byte
  shows "(ucast ((ucast b1 :: uint16) OR push_bit 8 (ucast b0)) :: byte) = b1"
    and "(ucast (drop_bit 8 ((ucast b1 :: uint16) OR push_bit 8 (ucast b0))) :: byte) = b0"
  by (rule bit_word_eqI; use bit_byte in \<open>fastforce simp: bit_simps\<close>)+

lemma uint32_bytes:
  "(ucast (ucast v :: byte) :: uint32) OR push_bit 8 (ucast (ucast (drop_bit 8 v) :: byte))
     OR push_bit 16 (ucast (ucast (drop_bit 16 v) :: byte))
     OR push_bit 24 (ucast (ucast (drop_bit 24 v) :: byte)) = v"
proof (rule bit_word_eqI)
  fix n assume "n < LENGTH(32)"
  then consider "n < 8" | "8 \<le> n" "n < 16" | "16 \<le> n" "n < 24" | "24 \<le> n" "n < 32"
    by fastforce
  then show "bit ((ucast (ucast v :: byte) :: uint32) OR push_bit 8 (ucast (ucast (drop_bit 8 v) :: byte))
     OR push_bit 16 (ucast (ucast (drop_bit 16 v) :: byte))
     OR push_bit 24 (ucast (ucast (drop_bit 24 v) :: byte))) n = bit v n"
    by cases (auto simp: bit_simps)
qed

lemma uint32_bytes_split:
  fixes b0 b1 b2 b3 :: byte
  defines "w \<equiv> (ucast b3 :: uint32) OR push_bit 8 (ucast b2) OR push_bit 16 (ucast b1)
                OR push_bit 24 (ucast b0)"
  shows "(ucast w :: byte) = b3" and "(ucast (drop_bit 8 w) :: byte) = b2"
    and "(ucast (drop_bit 16 w) :: byte) = b1" and "(ucast (drop_bit 24 w) :: byte) = b0"
  unfolding w_def
  by (rule bit_word_eqI; use bit_byte in \<open>fastforce simp: bit_simps\<close>)+

lemma Uint16_PutUint16: "PutUint16 v s = Some s' \<Longrightarrow> Uint16 s' = Some v"
  by (cases "(v, s)" rule: PutUint16.cases) (auto simp: uint16_bytes)

lemma Uint32_PutUint32: "PutUint32 v s = Some s' \<Longrightarrow> Uint32 s' = Some v"
  by (cases "(v, s)" rule: PutUint32.cases) (auto simp: uint32_bytes)

end
