(* ===== verification/Metadata.thy ===== *)
theory Metadata
  imports Frisbee_Prelude
begin

text \<open>
  The frame header of \<^verbatim>\<open>pkg/metadata\<close>: the layout constants, the \<open>metadata\<close> record, its
  encoder and decoder, and the recycled header buffer of \<^verbatim>\<open>pool.go\<close>. The locale
  \<open>header_codec\<close> states what the packet readers and writers rely on; it is interpreted on
  the encoder and decoder of this theory.
\<close>

section \<open>Layout\<close>

definition PacketMagicHeader :: uint16 where [wire_simps]: "PacketMagicHeader = 0x0F"

definition PacketPing :: uint16 where "PacketPing = 10"
definition PacketPong :: uint16 where "PacketPong = 11"
definition PacketProbe :: uint16 where "PacketProbe = 12"

definition MagicOffset :: nat where [simp]: "MagicOffset = 0"
definition MagicSize :: nat where [simp]: "MagicSize = 2"
definition IdOffset :: nat where [simp]: "IdOffset = MagicOffset + MagicSize"
definition IdSize :: nat where [simp]: "IdSize = 2"
definition OperationOffset :: nat where [simp]: "OperationOffset = IdOffset + IdSize"
definition OperationSize :: nat where [simp]: "OperationSize = 2"
definition ContentLengthOffset :: nat where
  [simp]: "ContentLengthOffset = OperationOffset + OperationSize"
definition ContentLengthSize :: nat where [simp]: "ContentLengthSize = 4"

definition Size :: nat where "Size = ContentLengthOffset + ContentLengthSize"

lemma Size_10 [wire_simps]: "Size = 10"
  by (simp add: Size_def)

record metadata =
  Magic :: uint16
  PacketId :: uint16
  Operation :: uint16
  ContentLength :: uint32

lemma metadata_eta [simp]:
  "\<lparr>Magic = Magic m, PacketId = PacketId m, Operation = Operation m,
    ContentLength = ContentLength m\<rparr> = m"
  by simp

text \<open>The zero value of the struct, which \<^verbatim>\<open>new(Metadata)\<close> returns.\<close>

definition zero_metadata :: metadata where
  "zero_metadata = \<lparr>Magic = 0, PacketId = 0, Operation = 0, ContentLength = 0\<rparr>"

datatype metadata_error = EncodingErr | DecodingErr | InvalidBufferLengthErr

section \<open>Header buffers\<close>

text \<open>
  A \<open>Buffer\<close> is an array of \<^const>\<open>Size\<close> bytes. A buffer from the pool holds whatever its
  last user wrote, because \<open>Reset\<close> does nothing: the writers take it as an argument.
\<close>

definition is_buffer :: "byte list \<Rightarrow> bool" where
  "is_buffer b \<longleftrightarrow> length b = Size"

definition NewBuffer :: "byte list" where
  "NewBuffer = replicate Size 0"

definition Buffer_Reset :: "byte list \<Rightarrow> byte list" where
  "Buffer_Reset b = b"

lemma is_buffer_NewBuffer [simp]: "is_buffer NewBuffer"
  by (simp add: is_buffer_def NewBuffer_def)

section \<open>Encoding and decoding\<close>

text \<open>
  The four stores into a header buffer and the four loads from it, in the order of the
  source; the packet writers and readers repeat them inline.
\<close>

definition put_fields ::
    "byte list \<Rightarrow> uint16 \<Rightarrow> uint16 \<Rightarrow> uint16 \<Rightarrow> uint32 \<Rightarrow> byte list option" where
  "put_fields b magic pid op len = do {
     b \<leftarrow> put_slice b MagicOffset (MagicOffset + MagicSize) (PutUint16 magic);
     b \<leftarrow> put_slice b IdOffset (IdOffset + IdSize) (PutUint16 pid);
     b \<leftarrow> put_slice b OperationOffset (OperationOffset + OperationSize) (PutUint16 op);
     put_slice b ContentLengthOffset (ContentLengthOffset + ContentLengthSize) (PutUint32 len)
   }"

definition get_fields :: "byte list \<Rightarrow> nat \<Rightarrow> metadata option" where
  "get_fields b i = do {
     magic \<leftarrow> go_slice b (i + MagicOffset) (i + MagicOffset + MagicSize) \<bind> Uint16;
     pid \<leftarrow> go_slice b (i + IdOffset) (i + IdOffset + IdSize) \<bind> Uint16;
     op \<leftarrow> go_slice b (i + OperationOffset) (i + OperationOffset + OperationSize) \<bind> Uint16;
     len \<leftarrow> go_slice b (i + ContentLengthOffset) (i + ContentLengthOffset + ContentLengthSize) \<bind> Uint32;
     Some \<lparr>Magic = magic, PacketId = pid, Operation = op, ContentLength = len\<rparr>
   }"

text \<open>\<^verbatim>\<open>(*Metadata).Encode\<close>: a panic is recovered and reported as an encoding error.\<close>

definition Metadata_Encode :: "metadata \<Rightarrow> metadata_error + byte list" where
  "Metadata_Encode fm =
     (case put_fields NewBuffer (Magic fm) (PacketId fm) (Operation fm) (ContentLength fm) of
        None \<Rightarrow> Inl EncodingErr
      | Some b \<Rightarrow> Inr b)"

text \<open>
  \<^verbatim>\<open>(*Metadata).Decode\<close>: overwrites the receiver. The argument is a pointer, and \<^const>\<open>None\<close> is
  the nil pointer, whose first access panics before any field is assigned.
\<close>

definition Metadata_Decode :: "metadata \<Rightarrow> byte list option \<Rightarrow> metadata \<times> metadata_error option" where
  "Metadata_Decode fm buf =
     (case buf \<bind> (\<lambda>b. get_fields b 0) of
        None \<Rightarrow> (fm, Some DecodingErr)
      | Some m \<Rightarrow> (m, None))"

text \<open>The package-level functions. \<open>Decode\<close> views the first \<^const>\<open>Size\<close> bytes as a buffer.\<close>

definition Encode :: "uint16 \<Rightarrow> uint16 \<Rightarrow> uint32 \<Rightarrow> metadata_error + byte list" where
  "Encode pid operation contentLength =
     Metadata_Encode \<lparr>Magic = PacketMagicHeader, PacketId = pid, Operation = operation,
       ContentLength = contentLength\<rparr>"

definition Decode :: "byte list \<Rightarrow> metadata option \<times> metadata_error option" where
  "Decode buf =
     (if length buf < Size then (None, Some InvalidBufferLengthErr)
      else (let (m, e) = Metadata_Decode zero_metadata (Some (take Size buf)) in (Some m, e)))"

section \<open>The header bytes\<close>

text \<open>The bytes of a header, as a closed form for the proofs.\<close>

definition header_bytes :: "metadata \<Rightarrow> byte list" where
  "header_bytes m =
     [ucast (drop_bit 8 (Magic m)), ucast (Magic m),
      ucast (drop_bit 8 (PacketId m)), ucast (PacketId m),
      ucast (drop_bit 8 (Operation m)), ucast (Operation m),
      ucast (drop_bit 24 (ContentLength m)), ucast (drop_bit 16 (ContentLength m)),
      ucast (drop_bit 8 (ContentLength m)), ucast (ContentLength m)]"

lemma length_header_bytes [simp]: "length (header_bytes m) = Size"
  by (simp add: header_bytes_def Size_def)

lemma list_length_eq_10:
  "length xs = 10 \<Longrightarrow> \<exists>a b c d e f g h i j. xs = [a, b, c, d, e, f, g, h, i, j]"
  by (auto simp: numeral_eq_Suc length_Suc_conv)

lemma put_fields_header:
  assumes "is_buffer b"
  shows "put_fields b magic pid op len =
    Some (header_bytes \<lparr>Magic = magic, PacketId = pid, Operation = op, ContentLength = len\<rparr>)"
proof -
  obtain b0 b1 b2 b3 b4 b5 b6 b7 b8 b9 where "b = [b0, b1, b2, b3, b4, b5, b6, b7, b8, b9]"
    using assms list_length_eq_10 [of b] by (auto simp: is_buffer_def Size_def)
  then show ?thesis
    by (simp add: put_fields_def put_slice_def header_bytes_def)
qed

lemma get_fields_header [simp]: "get_fields (header_bytes m @ r) 0 = Some m"
  by (simp add: get_fields_def header_bytes_def uint16_bytes uint32_bytes)

lemma get_fields_header_exact [simp]: "get_fields (header_bytes m) 0 = Some m"
  using get_fields_header [of m "[]"] by simp

lemma get_fields_shift:
  assumes "i + Size \<le> length b"
  shows "get_fields b i = get_fields (drop i b) 0"
  using assms by (simp add: get_fields_def Size_def ac_simps numeral_2_eq_2)

lemma get_fields_total:
  assumes "i + Size \<le> length b"
  obtains m where "get_fields b i = Some m" and "take Size (drop i b) = header_bytes m"
proof -
  have "length (take 10 (drop i b)) = 10"
    using assms by (simp add: Size_def)
  then obtain b0 b1 b2 b3 b4 b5 b6 b7 b8 b9
    where t: "take 10 (drop i b) = [b0, b1, b2, b3, b4, b5, b6, b7, b8, b9]"
    using list_length_eq_10 [of "take 10 (drop i b)"] by auto
  then have d: "drop i b = [b0, b1, b2, b3, b4, b5, b6, b7, b8, b9] @ drop 10 (drop i b)"
    by (metis append_take_drop_id)
  define m where "m = \<lparr>Magic = ucast b1 OR push_bit 8 (ucast b0),
    PacketId = ucast b3 OR push_bit 8 (ucast b2), Operation = ucast b5 OR push_bit 8 (ucast b4),
    ContentLength = ucast b9 OR push_bit 8 (ucast b8) OR push_bit 16 (ucast b7)
      OR push_bit 24 (ucast b6)\<rparr>"
  have m: "get_fields (drop i b) 0 = Some m"
    by (subst d) (simp add: get_fields_def m_def)
  have h: "header_bytes m = [b0, b1, b2, b3, b4, b5, b6, b7, b8, b9]"
    unfolding header_bytes_def m_def metadata.select_convs uint16_bytes_split uint32_bytes_split
    by (rule refl)
  show thesis
    using that [of m] m h t get_fields_shift [OF assms] by (simp add: Size_def)
qed

lemma get_fields_Some_iff:
  "i + Size \<le> length b \<Longrightarrow> get_fields b i = Some m \<longleftrightarrow> take Size (drop i b) = header_bytes m"
  by (metis append_take_drop_id get_fields_header get_fields_shift get_fields_total
      option.inject)

section \<open>The codec contract\<close>

text \<open>
  What a packet writer and a packet reader agree on: a header has a fixed width, decoding
  looks at that many bytes only and inverts encoding. The frame lemmas of the readers are
  proved from these laws.
\<close>

locale header_codec =
  fixes width :: nat
    and enc :: "'m \<Rightarrow> 'b list"
    and dec :: "'b list \<Rightarrow> 'm option"
  assumes enc_width [simp]: "length (enc m) = width"
    and dec_enc [simp]: "dec (enc m @ r) = Some m"
    and dec_total: "width \<le> length b \<Longrightarrow> \<exists>m. dec b = Some m \<and> take width b = enc m"
begin

lemma enc_inj: "enc m = enc m' \<longleftrightarrow> m = m'"
  by (metis dec_enc option.inject)

lemma enc_dec: "width \<le> length b \<Longrightarrow> dec b = Some m \<longleftrightarrow> take width b = enc m"
  using dec_total [of b] by (auto simp: enc_inj)

lemma enc_prefix_free: "enc m @ r = enc m' @ r' \<longleftrightarrow> m = m' \<and> r = r'"
  by (metis append_eq_append_conv enc_inj enc_width)

end

interpretation hdr: header_codec Size header_bytes "\<lambda>b. get_fields b 0"
proof unfold_locales
  fix b :: "byte list"
  assume "Size \<le> length b"
  then show "\<exists>m. get_fields b 0 = Some m \<and> take Size b = header_bytes m"
    using get_fields_total [of 0 b] by auto
qed simp_all

section \<open>Properties\<close>

text \<open>
  C30: encoding never fails, and decoding what it produced, even when more bytes follow, gives
  back every field with the magic number of the protocol and no error.
\<close>

theorem decode_encode:
  "\<exists>b. Encode pid op len = Inr b \<and> length b = Size \<and>
     Decode (b @ rest) =
       (Some \<lparr>Magic = PacketMagicHeader, PacketId = pid, Operation = op, ContentLength = len\<rparr>, None)"
  by (simp add: Encode_def Metadata_Encode_def put_fields_header Decode_def Metadata_Decode_def)

text \<open>
  C31: decoding is total. A buffer shorter than a header is refused with the length error and no
  metadata; any other buffer decodes without error, and re-encoding the decoded metadata gives
  back its first ten bytes.
\<close>

theorem decode_cases:
  "if length buf < 10 then Decode buf = (None, Some InvalidBufferLengthErr)
   else \<exists>m. Decode buf = (Some m, None) \<and> Metadata_Encode m = Inr (take 10 buf)"
proof (cases "length buf < Size")
  case False
  then obtain m where "get_fields (take Size buf) 0 = Some m" "take Size buf = header_bytes m"
    using hdr.dec_total [of "take Size buf"] by auto
  with False show ?thesis
    by (simp add: Decode_def Metadata_Decode_def Metadata_Encode_def put_fields_header Size_def)
qed (simp add: Decode_def Size_def)

end
