(* ===== verification/Packet.thy ===== *)
theory Packet
  imports Metadata
begin

text \<open>
  Packets (\<^verbatim>\<open>pkg/packet\<close>). The content buffer and the object pool are code of other modules
  (polyglot and loopholelabs/common): here they are the operation records \<open>polyglot\<close> and
  \<open>pool_ops\<close>, arguments of every definition that calls them. The predicates \<open>polyglot_ok\<close>
  and \<open>pool_ok\<close> state the documented behaviour that frisbee relies on. The list buffer and
  the list pool at the end show that those requirements can be met.
\<close>

section \<open>Content buffers\<close>

text \<open>
  The operations of \<^verbatim>\<open>polyglot.Buffer\<close> that frisbee calls. \<open>pg_store b bs\<close> is the effect of
  writing \<open>bs\<close> through the slice that \<open>Bytes\<close> returned, which aliases the buffer.
\<close>

record 'c polyglot =
  pg_new :: "'c"
  pg_write :: "'c \<Rightarrow> byte list \<Rightarrow> nat \<times> 'c"
  pg_bytes :: "'c \<Rightarrow> byte list"
  pg_len :: "'c \<Rightarrow> nat"
  pg_reset :: "'c \<Rightarrow> 'c"
  pg_grow :: "'c \<Rightarrow> nat \<Rightarrow> 'c"
  pg_move :: "'c \<Rightarrow> nat \<Rightarrow> 'c"
  pg_store :: "'c \<Rightarrow> byte list \<Rightarrow> 'c"

definition polyglot_ok :: "'c polyglot \<Rightarrow> bool" where
  "polyglot_ok P \<longleftrightarrow>
     pg_bytes P (pg_new P) = [] \<and>
     (\<forall>b. pg_len P b = length (pg_bytes P b)) \<and>
     (\<forall>b. pg_bytes P (pg_reset P b) = []) \<and>
     (\<forall>b bs. fst (pg_write P b bs) = length bs) \<and>
     (\<forall>b bs. pg_bytes P (snd (pg_write P b bs)) = pg_bytes P b @ bs) \<and>
     (\<forall>b n. length (pg_bytes P (pg_move P (pg_grow P b n) n)) = length (pg_bytes P b) + n) \<and>
     (\<forall>b bs. length bs \<le> length (pg_bytes P b) \<longrightarrow>
        pg_bytes P (pg_store P b bs) = bs @ drop (length bs) (pg_bytes P b))"

named_theorems polyglot_simps \<open>consequences of the content-buffer requirements\<close>

lemma polyglot_okD:
  assumes "polyglot_ok P"
  shows "pg_bytes P (pg_new P) = []" and "pg_len P b = length (pg_bytes P b)"
    and "pg_bytes P (pg_reset P b) = []" and "fst (pg_write P b bs) = length bs"
    and "pg_bytes P (snd (pg_write P b bs)) = pg_bytes P b @ bs"
    and "length (pg_bytes P (pg_move P (pg_grow P b n) n)) = length (pg_bytes P b) + n"
    and "length bs \<le> length (pg_bytes P b) \<Longrightarrow>
      pg_bytes P (pg_store P b bs) = bs @ drop (length bs) (pg_bytes P b)"
  using assms by (simp_all add: polyglot_ok_def)

lemmas polyglot_laws [polyglot_simps] = polyglot_okD

lemma pg_writeE:
  assumes "polyglot_ok P"
  obtains b' where "pg_write P b bs = (length bs, b')" and "pg_bytes P b' = pg_bytes P b @ bs"
  using assms polyglot_okD(4,5) by (metis prod.collapse)

section \<open>Packets\<close>

record 'c packet =
  Metadata :: metadata
  Content :: 'c

definition Packet_Reset :: "'c polyglot \<Rightarrow> 'c packet \<Rightarrow> 'c packet" where
  "Packet_Reset P p =
     p\<lparr>Metadata := \<lparr>Magic = 0, PacketId = 0, Operation = 0, ContentLength = 0\<rparr>,
       Content := pg_reset P (Content p)\<rparr>"

definition Packet_New :: "'c polyglot \<Rightarrow> 'c packet" where
  "Packet_New P = \<lparr>Metadata = zero_metadata, Content = pg_new P\<rparr>"

text \<open>A packet as a caller of \<open>Get\<close> expects it: zero metadata and no content.\<close>

definition clean_packet :: "'c polyglot \<Rightarrow> 'c packet \<Rightarrow> bool" where
  "clean_packet P p \<longleftrightarrow> Metadata p = zero_metadata \<and> pg_bytes P (Content p) = []"

lemma clean_packetD:
  "clean_packet P p \<Longrightarrow> Metadata p = zero_metadata"
  "clean_packet P p \<Longrightarrow> pg_bytes P (Content p) = []"
  by (simp_all add: clean_packet_def)

section \<open>The packet pool\<close>

text \<open>
  \<^verbatim>\<open>pool.NewPool(New)\<close> builds a pool from the constructor; \<open>Put\<close> resets the element with the
  element type's own \<open>Reset\<close> and stores it; \<open>Get\<close> returns a stored or a constructed element.
\<close>

record ('a, 'pl) pool_ops =
  po_new :: "'a \<Rightarrow> 'pl"
  po_get :: "'pl \<Rightarrow> 'a \<times> 'pl"
  po_put :: "('a \<Rightarrow> 'a) \<Rightarrow> 'a \<Rightarrow> 'pl \<Rightarrow> 'pl"

text \<open>\<open>pool_ok O good I\<close>: in pools that satisfy \<open>I\<close>, every element is \<open>good\<close>.\<close>

definition pool_ok :: "('a, 'pl) pool_ops \<Rightarrow> ('a \<Rightarrow> bool) \<Rightarrow> ('pl \<Rightarrow> bool) \<Rightarrow> bool" where
  "pool_ok PO good I \<longleftrightarrow>
     (\<forall>x. good x \<longrightarrow> I (po_new PO x)) \<and>
     (\<forall>pl. I pl \<longrightarrow> good (fst (po_get PO pl)) \<and> I (snd (po_get PO pl))) \<and>
     (\<forall>pl r x. I pl \<longrightarrow> good (r x) \<longrightarrow> I (po_put PO r x pl))"

definition NewPool :: "'c polyglot \<Rightarrow> ('c packet, 'pl) pool_ops \<Rightarrow> 'pl" where
  "NewPool P PO = po_new PO (Packet_New P)"

definition Get :: "('c packet, 'pl) pool_ops \<Rightarrow> 'pl \<Rightarrow> 'c packet \<times> 'pl" where
  "Get PO pl = po_get PO pl"

definition Put :: "'c polyglot \<Rightarrow> ('c packet, 'pl) pool_ops \<Rightarrow> 'c packet \<Rightarrow> 'pl \<Rightarrow> 'pl" where
  "Put P PO p pl = po_put PO (Packet_Reset P) p pl"

text \<open>The pool of header buffers in \<^verbatim>\<open>pkg/metadata/pool.go\<close> is an instance of the same type.\<close>

definition GetBuffer :: "(byte list, 'bl) pool_ops \<Rightarrow> 'bl \<Rightarrow> byte list \<times> 'bl" where
  "GetBuffer BO bl = po_get BO bl"

definition PutBuffer :: "(byte list, 'bl) pool_ops \<Rightarrow> byte list \<Rightarrow> 'bl \<Rightarrow> 'bl" where
  "PutBuffer BO b bl = po_put BO Buffer_Reset b bl"

lemma clean_New [simp]: "polyglot_ok P \<Longrightarrow> clean_packet P (Packet_New P)"
  by (simp add: clean_packet_def Packet_New_def polyglot_simps)

lemma clean_Reset [simp]: "polyglot_ok P \<Longrightarrow> clean_packet P (Packet_Reset P p)"
  by (simp add: clean_packet_def Packet_Reset_def zero_metadata_def polyglot_simps)

lemma Get_clean:
  "pool_ok PO (clean_packet P) I \<Longrightarrow> I pl \<Longrightarrow> Get PO pl = (p, pl') \<Longrightarrow> clean_packet P p \<and> I pl'"
  by (auto simp: pool_ok_def Get_def dest: spec [of _ pl])

lemma Put_keeps:
  "polyglot_ok P \<Longrightarrow> pool_ok PO (clean_packet P) I \<Longrightarrow> I pl \<Longrightarrow> I (Put P PO p pl)"
  by (simp add: pool_ok_def Put_def)

lemma GetBuffer_is_buffer:
  "pool_ok BO is_buffer J \<Longrightarrow> J bl \<Longrightarrow> GetBuffer BO bl = (b, bl') \<Longrightarrow> is_buffer b \<and> J bl'"
  by (auto simp: pool_ok_def GetBuffer_def dest: spec [of _ bl])

lemma PutBuffer_keeps:
  "pool_ok BO is_buffer J \<Longrightarrow> J bl \<Longrightarrow> is_buffer b \<Longrightarrow> J (PutBuffer BO b bl)"
  by (simp add: pool_ok_def PutBuffer_def Buffer_Reset_def)

lemma NewPool_keeps:
  "polyglot_ok P \<Longrightarrow> pool_ok PO (clean_packet P) I \<Longrightarrow> I (NewPool P PO)"
  by (simp add: pool_ok_def NewPool_def)

section \<open>Requirements that can be met\<close>

definition list_polyglot :: "byte list polyglot" where
  "list_polyglot =
     \<lparr>pg_new = [], pg_write = (\<lambda>b bs. (length bs, b @ bs)), pg_bytes = (\<lambda>b. b), pg_len = length,
      pg_reset = (\<lambda>_. []), pg_grow = (\<lambda>b _. b), pg_move = (\<lambda>b n. b @ replicate n 0),
      pg_store = (\<lambda>b bs. bs @ drop (length bs) b)\<rparr>"

definition list_pool :: "('a, 'a \<times> 'a list) pool_ops" where
  "list_pool =
     \<lparr>po_new = (\<lambda>x. (x, [])),
      po_get = (\<lambda>(d, xs). case xs of [] \<Rightarrow> (d, (d, [])) | x # ys \<Rightarrow> (x, (d, ys))),
      po_put = (\<lambda>r x (d, xs). (d, r x # xs))\<rparr>"

lemma list_polyglot_ok: "polyglot_ok list_polyglot"
  by (simp add: polyglot_ok_def list_polyglot_def)

lemma list_pool_ok: "pool_ok list_pool good (\<lambda>(d, xs). good d \<and> (\<forall>x\<in>set xs. good x))"
  by (auto simp: pool_ok_def list_pool_def split: list.splits)

section \<open>Properties\<close>

text \<open>
  C32: whatever sequence of packets is put back, dirty or not, every packet that the pool hands
  out afterwards has zero metadata and empty content.
\<close>

theorem pool_hands_out_clean:
  assumes "polyglot_ok P" and "pool_ok PO (clean_packet P) I"
  shows "clean_packet P (fst (Get PO (fold (Put P PO) ps (NewPool P PO))))"
proof -
  have "I (fold (Put P PO) ps pl)" if "I pl" for pl
    using that assms by (induction ps arbitrary: pl) (simp_all add: Put_keeps)
  then have "I (fold (Put P PO) ps (NewPool P PO))"
    using assms NewPool_keeps by blast
  then show ?thesis
    using assms(2) Get_clean by (metis prod.collapse)
qed

text \<open>Witness: the list pool after one dirty packet was put back.\<close>

theorem pool_hands_out_clean_witness:
  "clean_packet list_polyglot
     (fst (Get list_pool (fold (Put list_polyglot list_pool)
        [\<lparr>Metadata = zero_metadata\<lparr>Operation := 12\<rparr>, Content = [1, 2, 3]\<rparr>]
        (NewPool list_polyglot list_pool))))"
  by (rule pool_hands_out_clean [OF list_polyglot_ok list_pool_ok])

end
