(* ===== verification/Frisbee_Base.thy ===== *)
theory Frisbee_Base
  imports Packet
begin

text \<open>
  The declarations of \<^verbatim>\<open>frisbee.go\<close> and \<^verbatim>\<open>conn.go\<close>: errors, actions, handler tables, reserved
  operations, prepared packets and the configuration values. Durations are integers counting
  nanoseconds, as \<^verbatim>\<open>time.Duration\<close> is.
\<close>

section \<open>Errors\<close>

text \<open>
  The error values of the package and of the code it calls. \<open>NetError\<close> is an error of the
  network stack with an opaque identity; \<open>ExtError\<close> one of the third-party queue. A nil error
  is \<^const>\<open>None\<close>.
\<close>

datatype goerror =
    InvalidContentLength
  | ConnectionClosed
  | StreamClosed
  | InvalidStreamPacket
  | ConnectionNotInitialized
  | InvalidMagicHeader
  | InvalidBufferLength
  | InvalidHandlerTable
  | InvalidOperation
  | ContentLengthExceeded
  | NotTLSConnectionError
  | OnClosedNil
  | PreWriteNil
  | ListenerNil
  | IoEOF
  | IoUnexpectedEOF
  | IoShortBuffer
  | NetClosed
  | NetError nat
  | ExtError nat
  | Joined goerror goerror

text \<open>\<^verbatim>\<open>errors.Is(err, target)\<close> walks through joined errors.\<close>

fun errors_Is :: "goerror \<Rightarrow> goerror \<Rightarrow> bool" where
  "errors_Is (Joined a b) t \<longleftrightarrow> Joined a b = t \<or> errors_Is a t \<or> errors_Is b t"
| "errors_Is e t \<longleftrightarrow> e = t"

section \<open>Actions, handlers, reserved operations\<close>

text \<open>\<open>Action\<close> is an integer type with two named values; any other value does nothing.\<close>

datatype Action = NONE | CLOSE | UnnamedAction int

text \<open>
  A handler maps the context and the incoming packet to an outgoing packet, if any, and an
  action. Packets are passed by pointer: a handler returns either no packet, the incoming one
  (with its new contents) or another one. A table may hold a nil handler under a key.
\<close>

datatype 'c outgoing = NoPacket | Same "'c packet" | Other "'c packet"

type_synonym ('ctx, 'c) Handler = "'ctx \<Rightarrow> 'c packet \<Rightarrow> 'c outgoing \<times> Action"
type_synonym ('ctx, 'c) HandlerTable = "uint16 \<rightharpoonup> ('ctx, 'c) Handler option"

definition PING :: uint16 where [guard_simps]: "PING = 0"
definition PONG :: uint16 where [guard_simps]: "PONG = 1"
definition STREAM :: uint16 where [guard_simps]: "STREAM = 2"
definition RESERVED9 :: uint16 where [guard_simps]: "RESERVED9 = 9"

definition PINGPacket :: "'c polyglot \<Rightarrow> 'c packet" where
  "PINGPacket P = \<lparr>Metadata = zero_metadata\<lparr>Operation := PING\<rparr>, Content = pg_new P\<rparr>"

definition PONGPacket :: "'c polyglot \<Rightarrow> 'c packet" where
  "PONGPacket P = \<lparr>Metadata = zero_metadata\<lparr>Operation := PONG\<rparr>, Content = pg_new P\<rparr>"

section \<open>Configuration\<close>

definition millisecond :: int where "millisecond = 1000000"
definition second :: int where "second = 1000 * millisecond"
definition minute :: int where "minute = 60 * second"

definition maxBackoff :: int where "maxBackoff = second"
definition minBackoff :: int where "minBackoff = 5 * millisecond"

definition DefaultBufferSize :: nat where "DefaultBufferSize = 2 ^ 16"
definition DefaultDeadline :: int where "DefaultDeadline = 5 * second"
definition DefaultPingInterval :: int where "DefaultPingInterval = 500 * millisecond"

text \<open>
  \<^verbatim>\<open>DefaultMaxContentLength\<close> is a variable: the operations take its current value as the
  argument \<open>maxLen\<close>. Zero means that there is no limit; \<^verbatim>\<open>DisableMaxContentLength\<close> sets it
  and returns the value to restore.
\<close>

definition DefaultMaxContentLength :: uint32 where
  "DefaultMaxContentLength = 5 * 1024 * 1024"

definition DisableMaxContentLength :: "uint32 \<Rightarrow> uint32 \<times> uint32" where
  "DisableMaxContentLength current = (current, 0)"

definition exceeds_max :: "uint32 \<Rightarrow> uint32 \<Rightarrow> bool" where
  "exceeds_max maxLen len \<longleftrightarrow> 0 < maxLen \<and> maxLen < len"

lemma exceeds_max_disabled [simp]: "\<not> exceeds_max 0 len"
  by (simp add: exceeds_max_def)

lemma not_exceeds_zero [simp]: "\<not> exceeds_max maxLen 0"
  by (simp add: exceeds_max_def)

section \<open>Frames\<close>

text \<open>
  The bytes of a packet on the wire: the header with the protocol's magic number, then the
  content. A packet is \<open>sendable\<close> when the two length guards of the writers let it through.
\<close>

definition wire_metadata :: "metadata \<Rightarrow> metadata" where
  "wire_metadata m = m\<lparr>Magic := PacketMagicHeader\<rparr>"

definition frame :: "'c polyglot \<Rightarrow> 'c packet \<Rightarrow> byte list" where
  "frame P p = header_bytes (wire_metadata (Metadata p)) @ pg_bytes P (Content p)"

definition sendable :: "'c polyglot \<Rightarrow> uint32 \<Rightarrow> 'c packet \<Rightarrow> bool" where
  "sendable P maxLen p \<longleftrightarrow>
     unat (ContentLength (Metadata p)) = pg_len P (Content p) \<and>
     \<not> exceeds_max maxLen (ContentLength (Metadata p))"

text \<open>What the receiver of a frame gets to see: metadata with the magic number, and bytes.\<close>

definition received :: "'c polyglot \<Rightarrow> 'c packet \<Rightarrow> metadata \<times> byte list" where
  "received P p = (wire_metadata (Metadata p), pg_bytes P (Content p))"

definition view :: "'c polyglot \<Rightarrow> 'c packet \<Rightarrow> metadata \<times> byte list" where
  "view P p = (Metadata p, pg_bytes P (Content p))"

lemma wire_metadata_simps [simp]:
  "Magic (wire_metadata m) = PacketMagicHeader"
  "PacketId (wire_metadata m) = PacketId m"
  "Operation (wire_metadata m) = Operation m"
  "ContentLength (wire_metadata m) = ContentLength m"
  by (simp_all add: wire_metadata_def)

lemma put_fields_wire [simp]:
  "is_buffer b \<Longrightarrow>
   put_fields b PacketMagicHeader (PacketId m) (Operation m) (ContentLength m) =
     Some (header_bytes (wire_metadata m))"
  by (cases m) (simp add: put_fields_header wire_metadata_def)

lemma sendable_bytes:
  "polyglot_ok P \<Longrightarrow> sendable P maxLen p \<Longrightarrow>
     length (pg_bytes P (Content p)) = unat (ContentLength (Metadata p))"
  by (simp add: sendable_def polyglot_simps)

lemma length_frame: "length (frame P p) = Size + length (pg_bytes P (Content p))"
  by (simp add: frame_def)

lemma sendable_PING [simp]: "polyglot_ok P \<Longrightarrow> sendable P maxLen (PINGPacket P)"
  by (simp add: sendable_def PINGPacket_def zero_metadata_def polyglot_simps)

lemma sendable_PONG [simp]: "polyglot_ok P \<Longrightarrow> sendable P maxLen (PONGPacket P)"
  by (simp add: sendable_def PONGPacket_def zero_metadata_def polyglot_simps)

end
