(* ===== verification/Options.thy ===== *)
theory Options
  imports Frisbee_Base
begin

text \<open>
  Client and server options (\<^verbatim>\<open>options.go\<close>). Loggers and TLS configurations are opaque values
  of types \<open>'l\<close> and \<open>'t\<close>; nil is \<^const>\<open>None\<close>. The no-op logger comes from another module
  and is the argument \<open>noop\<close>.
\<close>

record ('l, 't) Options =
  KeepAlive :: int
  Logger :: "'l option"
  TLSConfig :: "'t option"

type_synonym ('l, 't) Option = "('l, 't) Options \<Rightarrow> ('l, 't) Options"

definition zero_Options :: "('l, 't) Options" where
  "zero_Options = \<lparr>KeepAlive = 0, Logger = None, TLSConfig = None\<rparr>"

fun apply_options :: "('l, 't) Option list \<Rightarrow> ('l, 't) Options \<Rightarrow> ('l, 't) Options" where
  "apply_options [] opts = opts"
| "apply_options (f # fs) opts = apply_options fs (f opts)"

definition loadOptions :: "'l \<Rightarrow> ('l, 't) Option list \<Rightarrow> ('l, 't) Options" where
  "loadOptions noop options =
     (let opts = apply_options options zero_Options;
          opts = (if Logger opts = None then opts\<lparr>Logger := Some noop\<rparr> else opts);
          opts = (if KeepAlive opts = 0 then opts\<lparr>KeepAlive := 3 * minute\<rparr> else opts)
      in opts)"

definition WithOptions :: "('l, 't) Options \<Rightarrow> ('l, 't) Option" where
  "WithOptions options opts = options"

definition WithKeepAlive :: "int \<Rightarrow> ('l, 't) Option" where
  "WithKeepAlive keepAlive opts = opts\<lparr>KeepAlive := keepAlive\<rparr>"

definition WithLogger :: "'l option \<Rightarrow> ('l, 't) Option" where
  "WithLogger logger opts = opts\<lparr>Logger := logger\<rparr>"

definition WithTLS :: "'t option \<Rightarrow> ('l, 't) Option" where
  "WithTLS tlsConfig opts = opts\<lparr>TLSConfig := tlsConfig\<rparr>"

lemmas option_defs = WithOptions_def WithKeepAlive_def WithLogger_def WithTLS_def

section \<open>Defaults\<close>

definition with_defaults :: "'l \<Rightarrow> ('l, 't) Options \<Rightarrow> ('l, 't) Options" where
  "with_defaults noop opts =
     \<lparr>KeepAlive = (if KeepAlive opts = 0 then 180000000000 else KeepAlive opts),
      Logger = Some (case Logger opts of None \<Rightarrow> noop | Some l \<Rightarrow> l),
      TLSConfig = TLSConfig opts\<rparr>"

lemma apply_options_append:
  "apply_options (fs @ gs) opts = apply_options gs (apply_options fs opts)"
  by (induction fs arbitrary: opts) simp_all

lemma loadOptions_defaults:
  "loadOptions noop fs = with_defaults noop (apply_options fs zero_Options)"
  by (simp add: loadOptions_def with_defaults_def Let_def minute_def second_def millisecond_def
      split: option.split)

section \<open>Properties\<close>


text \<open>
  \<open>WithOptions\<close> discards all options before it: the result is that structure with its nil
  logger and zero keep-alive replaced by the defaults.
\<close>

lemma loadOptions_WithOptions:
  "loadOptions noop (fs @ [WithOptions o']) = with_defaults noop o' \<and>
   loadOptions noop [WithKeepAlive (KeepAlive o'), WithLogger (Logger o'), WithTLS (TLSConfig o')]
     = with_defaults noop o'"
  by (cases o') (simp add: loadOptions_defaults apply_options_append option_defs with_defaults_def
      zero_Options_def)

end
