(* ===== verification/Dialer.thy ===== *)
theory Dialer
  imports Frisbee_Base
begin

text \<open>
  The retrying dialer (\<^verbatim>\<open>internal/dialer/dialer.go\<close>). One attempt of the underlying dialer
  returns a connection and an error, either possibly nil; the argument \<open>dial\<close> gives the
  outcome of attempt number \<open>i\<close>. Both dial methods run the same loop over their own dialer.
\<close>

type_synonym 'conn attempt = "'conn option \<times> goerror option"

record Retry =
  Timeout :: int
  DialKeepAlive :: int
  NumRetries :: int

definition NewRetry :: Retry where
  "NewRetry = \<lparr>Timeout = second, DialKeepAlive = 15 * second, NumRetries = 10\<rparr>"

text \<open>
  The loop \<^verbatim>\<open>for i := 0; i < r.NumRetries; i++\<close> with the named results as its state; the last
  component of the result counts the attempts that were made.
\<close>

function dial_loop ::
    "(nat \<Rightarrow> 'conn attempt) \<Rightarrow> int \<Rightarrow> nat \<Rightarrow> 'conn attempt \<Rightarrow> 'conn attempt \<times> nat" where
  "dial_loop dial retries i res =
     (if int i < retries
      then (let (c, err) = dial i in
            if err = None then ((c, err), Suc i) else dial_loop dial retries (Suc i) (c, err))
      else (res, i))"
  by pat_completeness auto
termination
  by (relation "measure (\<lambda>(dial, retries, i, res). nat (retries - int i))") auto

declare dial_loop.simps [simp del]

definition Dial :: "(nat \<Rightarrow> 'conn attempt) \<Rightarrow> Retry \<Rightarrow> 'conn attempt \<times> nat" where
  "Dial dial r = dial_loop dial (NumRetries r) 0 (None, None)"

text \<open>\<open>DialTLS\<close> builds a TLS dialer from the configuration and loops over it in the same way.\<close>

definition DialTLS ::
    "('cfg \<Rightarrow> nat \<Rightarrow> 'conn attempt) \<Rightarrow> Retry \<Rightarrow> 'cfg \<Rightarrow> 'conn attempt \<times> nat" where
  "DialTLS tlsDial r config = dial_loop (tlsDial config) (NumRetries r) 0 (None, None)"

section \<open>The retry contract\<close>

text \<open>
  A retrying call of bound \<open>k\<close>: it returns the first successful attempt and makes no further
  ones; when all of them fail it makes exactly \<open>k\<close> and returns the last outcome.
\<close>

locale retrying =
  fixes k :: nat
    and run :: "(nat \<Rightarrow> 'conn attempt) \<Rightarrow> 'conn attempt \<times> nat"
  assumes first_success:
      "j < k \<Longrightarrow> snd (dial j) = None \<Longrightarrow> (\<forall>i<j. snd (dial i) \<noteq> None) \<Longrightarrow> run dial = (dial j, Suc j)"
    and all_fail: "(\<forall>i<k. snd (dial i) \<noteq> None) \<Longrightarrow> 0 < k \<Longrightarrow> run dial = (dial (k - 1), k)"
begin

lemma success_or_exhausted:
  assumes "0 < k"
  shows "(snd (fst (run dial)) = None \<longleftrightarrow> (\<exists>j<k. snd (dial j) = None)) \<and> snd (run dial) \<le> k"
proof (cases "\<exists>j<k. snd (dial j) = None")
  case True
  then obtain j where j: "j < k" "snd (dial j) = None"
      and l: "\<forall>i<j. \<not> (i < k \<and> snd (dial i) = None)"
    using exists_least_iff [of "\<lambda>j. j < k \<and> snd (dial j) = None"] by blast
  from j(1) l have "\<forall>i<j. snd (dial i) \<noteq> None"
    by (meson order.strict_trans)
  with j have "run dial = (dial j, Suc j)"
    by (rule first_success)
  with True j show ?thesis
    by simp
next
  case False
  with assms have "run dial = (dial (k - 1), k)"
    by (intro all_fail) auto
  moreover have "snd (dial (k - 1)) \<noteq> None"
    using False assms by (metis diff_less zero_less_one)
  ultimately show ?thesis
    using False by auto
qed

end

lemma dial_loop_fails:
  assumes "i \<le> k" and "\<forall>j. i \<le> j \<and> j < k \<longrightarrow> snd (dial j) \<noteq> None"
  shows "dial_loop dial (int k) i res = (if i = k then res else dial (k - 1), k)"
  using assms
proof (induction "k - i" arbitrary: i res)
  case 0
  then show ?case by (simp add: dial_loop.simps)
next
  case (Suc n)
  then have "dial_loop dial (int k) i res = dial_loop dial (int k) (Suc i) (dial i)"
    by (subst dial_loop.simps) (auto simp: split_beta)
  moreover have "dial_loop dial (int k) (Suc i) (dial i) = (if Suc i = k then dial i else dial (k - 1), k)"
    using Suc by simp
  ultimately show ?case
    using Suc.hyps(2) by (auto split: if_splits)
qed

lemma dial_loop_first:
  assumes "i \<le> j" and "j < k" and "snd (dial j) = None" and "\<forall>l. i \<le> l \<and> l < j \<longrightarrow> snd (dial l) \<noteq> None"
  shows "dial_loop dial (int k) i res = (dial j, Suc j)"
  using assms
proof (induction "j - i" arbitrary: i res)
  case 0
  then show ?case by (cases "dial i") (simp add: dial_loop.simps)
next
  case (Suc n)
  then have "dial_loop dial (int k) i res = dial_loop dial (int k) (Suc i) (dial i)"
    by (subst dial_loop.simps) (auto simp: split_beta)
  then show ?case
    using Suc by simp
qed

interpretation plain: retrying 10 "\<lambda>dial. Dial dial NewRetry"
proof unfold_locales
  fix dial :: "nat \<Rightarrow> 'a attempt" and j
  assume "j < 10" and "snd (dial j) = None" and "\<forall>i<j. snd (dial i) \<noteq> None"
  then show "Dial dial NewRetry = (dial j, Suc j)"
    using dial_loop_first [of 0 j 10 dial] by (simp add: Dial_def NewRetry_def)
next
  fix dial :: "nat \<Rightarrow> 'a attempt"
  assume "\<forall>i<10. snd (dial i) \<noteq> None"
  then show "Dial dial NewRetry = (dial (10 - 1), 10)"
    using dial_loop_fails [of 0 10 dial] by (simp add: Dial_def NewRetry_def)
qed

interpretation tls: retrying 10 "\<lambda>dial. DialTLS (\<lambda>cfg. dial) NewRetry cfg" for cfg
  by unfold_locales
    (simp_all add: DialTLS_def plain.first_success [unfolded Dial_def] plain.all_fail [unfolded Dial_def, simplified])

section \<open>The default dialer\<close>

text \<open>
  Dialing with the default dialer makes at most ten attempts and reports success exactly
  when one of the first ten succeeds, for plain and TLS connections alike.
\<close>

lemma dial_ten_attempts:
  "(snd (fst (Dial dial NewRetry)) = None \<longleftrightarrow> (\<exists>j<10. snd (dial j) = None)) \<and>
   snd (Dial dial NewRetry) \<le> 10 \<and>
   DialTLS (\<lambda>cfg. dial) NewRetry cfg = Dial dial NewRetry"
  using plain.success_or_exhausted [of dial] by (simp add: DialTLS_def Dial_def)

text \<open>
  The first successful attempt ends the loop: its connection is returned and exactly that
  many attempts were made.
\<close>

lemma dial_first_success:
  assumes "j < 10" and "dial j = (Some c, None)" and "\<forall>i<j. snd (dial i) \<noteq> None"
  shows "Dial dial NewRetry = ((Some c, None), j + 1)"
  using plain.first_success [of j dial] assms by simp

end
