(* ===== verification/Go_Net.thy ===== *)
theory Go_Net
  imports Frisbee_Base "HOL-Library.Sublist"
begin

text \<open>
  What frisbee uses of the Go standard library: a network connection (\<^verbatim>\<open>net.Conn\<close>), the
  helper \<^verbatim>\<open>io.ReadAtLeast\<close> and the buffered writer \<^verbatim>\<open>bufio.Writer\<close>.

  A connection is driven by its environment: the field \<open>reads\<close> is what the successive reads
  will deliver, a chunk of bytes and possibly an error with it, in chunks of any size; when it
  is used up every read fails with \<open>read_end\<close> (the end of the stream, a timeout, a reset).
  \<open>writes\<close> and \<open>deadlines\<close> list the outcomes of the successive writes and deadline calls,
  and a call beyond the list succeeds. \<open>sent\<close> collects what was written to the network.
\<close>

section \<open>Connections\<close>

record netconn =
  reads :: "(byte list \<times> goerror option) list"
  read_end :: goerror
  writes :: "(nat \<times> goerror) option list"
  deadlines :: "goerror option list"
  sent :: "byte list"
  shut :: bool
  tls :: "(nat \<times> goerror option) option"

text \<open>\<^verbatim>\<open>Read(buf)\<close> with room for \<open>k\<close> bytes: at most \<open>k\<close> bytes of the next chunk.\<close>

definition conn_Read :: "netconn \<Rightarrow> nat \<Rightarrow> byte list \<times> goerror option \<times> netconn" where
  "conn_Read c k =
     (if shut c then ([], Some NetClosed, c)
      else case reads c of
        [] \<Rightarrow> ([], Some (read_end c), c)
      | (bs, e) # rs \<Rightarrow>
          if length bs \<le> k then (bs, e, c\<lparr>reads := rs\<rparr>)
          else (take k bs, None, c\<lparr>reads := (drop k bs, e) # rs\<rparr>))"

text \<open>\<^verbatim>\<open>Write(p)\<close>: all of \<open>p\<close>, or fewer bytes and an error.\<close>

definition conn_Write :: "byte list \<Rightarrow> netconn \<Rightarrow> nat \<times> goerror option \<times> netconn" where
  "conn_Write p c =
     (if shut c then (0, Some NetClosed, c)
      else case writes c of
        [] \<Rightarrow> (length p, None, c\<lparr>sent := sent c @ p\<rparr>)
      | None # ws \<Rightarrow> (length p, None, c\<lparr>sent := sent c @ p, writes := ws\<rparr>)
      | Some (n, e) # ws \<Rightarrow>
          (min n (length p), Some e, c\<lparr>sent := sent c @ take n p, writes := ws\<rparr>))"

definition conn_SetDeadline :: "netconn \<Rightarrow> goerror option \<times> netconn" where
  "conn_SetDeadline c =
     (if shut c then (Some NetClosed, c)
      else case deadlines c of [] \<Rightarrow> (None, c) | d # ds \<Rightarrow> (d, c\<lparr>deadlines := ds\<rparr>))"

definition conn_Close :: "netconn \<Rightarrow> netconn" where
  "conn_Close c = c\<lparr>shut := True\<rparr>"

definition unread :: "netconn \<Rightarrow> byte list" where
  "unread c = concat (map fst (reads c))"

text \<open>A connection whose reads fail only at the end of the stream.\<close>

definition reads_cleanly :: "netconn \<Rightarrow> bool" where
  "reads_cleanly c \<longleftrightarrow> \<not> shut c \<and> list_all (\<lambda>r. snd r = None) (reads c)"

text \<open>Bytes and chunks that the environment has still to deliver: what bounds the read loops.\<close>

definition read_budget :: "netconn \<Rightarrow> nat" where
  "read_budget c = length (reads c) + length (unread c)"

lemma conn_Read_bytes:
  "conn_Read c k = (bs, e, c') \<Longrightarrow> bs @ unread c' = unread c"
  "conn_Read c k = (bs, e, c') \<Longrightarrow> length bs \<le> k"
  by (auto simp: conn_Read_def unread_def split: if_splits list.splits)

lemma conn_Read_budget:
  "conn_Read c k = (bs, None, c') \<Longrightarrow> 0 < k \<Longrightarrow> read_budget c' < read_budget c"
  by (auto simp: conn_Read_def unread_def read_budget_def split: if_splits list.splits)

lemma conn_Read_frame:
  "conn_Read c k = (bs, e, c') \<Longrightarrow>
     sent c' = sent c \<and> shut c' = shut c \<and> writes c' = writes c \<and> deadlines c' = deadlines c \<and>
     read_end c' = read_end c \<and> tls c' = tls c"
  by (auto simp: conn_Read_def split: if_splits list.splits)

lemma conn_Read_clean:
  assumes "reads_cleanly c" and "conn_Read c k = (bs, e, c')"
  shows "reads_cleanly c'" and "e \<noteq> None \<longleftrightarrow> reads c = []"
    and "e \<noteq> None \<Longrightarrow> e = Some (read_end c) \<and> bs = [] \<and> c' = c"
  using assms by (auto simp: conn_Read_def reads_cleanly_def split: if_splits list.splits)

lemma conn_Write_result:
  "conn_Write p c = (n, None, c') \<Longrightarrow> n = length p \<and> sent c' = sent c @ p"
  "conn_Write p c = (n, Some e, c') \<Longrightarrow> n \<le> length p \<and> sent c' = sent c @ take n p"
  by (auto simp: conn_Write_def min_def split: if_splits list.splits option.splits)

lemma conn_Write_frame:
  "conn_Write p c = (n, e, c') \<Longrightarrow>
     reads c' = reads c \<and> shut c' = shut c \<and> deadlines c' = deadlines c \<and>
     read_end c' = read_end c \<and> tls c' = tls c"
  by (auto simp: conn_Write_def split: if_splits list.splits option.splits)

lemma conn_SetDeadline_frame:
  "conn_SetDeadline c = (e, c') \<Longrightarrow>
     reads c' = reads c \<and> shut c' = shut c \<and> writes c' = writes c \<and> sent c' = sent c \<and>
     read_end c' = read_end c \<and> tls c' = tls c"
  by (auto simp: conn_SetDeadline_def split: if_splits list.splits)

text \<open>Calls that do not concern the reading side of a connection.\<close>

definition same_reads :: "netconn \<Rightarrow> netconn \<Rightarrow> bool" where
  "same_reads c c' \<longleftrightarrow> reads c' = reads c \<and> read_end c' = read_end c \<and> shut c' = shut c"

lemma same_reads_refl [simp]: "same_reads c c"
  by (simp add: same_reads_def)

lemma same_reads_trans: "same_reads c c' \<Longrightarrow> same_reads c' c'' \<Longrightarrow> same_reads c c''"
  by (simp add: same_reads_def)

lemma conn_Write_reads: "conn_Write p c = (n, e, c') \<Longrightarrow> same_reads c c'"
  by (simp add: same_reads_def conn_Write_frame)

lemma read_budget_frame: "reads c' = reads c \<Longrightarrow> read_budget c' = read_budget c"
  by (simp add: read_budget_def unread_def)

section \<open>io.ReadAtLeast\<close>

text \<open>
  The loop of \<^verbatim>\<open>io.ReadAtLeast\<close> on a buffer of \<open>len\<close> bytes; the bytes stored so far are the
  accumulator.
\<close>

function read_at_least_loop ::
    "nat \<Rightarrow> nat \<Rightarrow> byte list \<Rightarrow> netconn \<Rightarrow> byte list \<times> goerror option \<times> netconn" where
  "read_at_least_loop mn len acc c =
     (if length acc < mn \<and> mn \<le> len
      then (case conn_Read c (len - length acc) of
              (bs, None, c') \<Rightarrow> read_at_least_loop mn len (acc @ bs) c'
            | (bs, Some e, c') \<Rightarrow> (acc @ bs, Some e, c'))
      else (acc, None, c))"
  by pat_completeness auto
termination
  by (relation "measure (\<lambda>(mn, len, acc, c). read_budget c)") (auto dest: conn_Read_budget [OF sym])

declare read_at_least_loop.simps [simp del]

definition ReadAtLeast ::
    "netconn \<Rightarrow> nat \<Rightarrow> nat \<Rightarrow> byte list \<times> goerror option \<times> netconn" where
  "ReadAtLeast c len mn =
     (if len < mn then ([], Some IoShortBuffer, c)
      else (let (bs, e, c') = read_at_least_loop mn len [] c in
            (bs, (if mn \<le> length bs then None
                  else if bs \<noteq> [] \<and> e = Some IoEOF then Some IoUnexpectedEOF else e), c')))"

lemma read_at_least_loop_stop:
  "\<not> (length acc < mn \<and> mn \<le> len) \<Longrightarrow> read_at_least_loop mn len acc c = (acc, None, c)"
  by (subst read_at_least_loop.simps) auto

lemma read_at_least_loop_spec:
  assumes "read_at_least_loop mn len acc c = (bs, e, c')" and "length acc \<le> len"
  shows "bs @ unread c' = acc @ unread c \<and> length bs \<le> len \<and> (e = None \<longrightarrow> mn \<le> len \<longrightarrow> mn \<le> length bs) \<and>
         sent c' = sent c \<and> shut c' = shut c \<and> writes c' = writes c \<and> deadlines c' = deadlines c \<and>
         read_end c' = read_end c \<and>
         (reads_cleanly c \<longrightarrow> reads_cleanly c' \<and>
            (e \<noteq> None \<longrightarrow> e = Some (read_end c) \<and> unread c' = [] \<and> length bs < mn))"
  using assms
proof (induction mn len acc c arbitrary: bs e c' rule: read_at_least_loop.induct)
  case (1 mn len acc c)
  show ?case
  proof (cases "length acc < mn \<and> mn \<le> len")
    case False
    then show ?thesis
      using "1.prems" by (auto simp: read_at_least_loop_stop)
  next
    case True
    obtain rd re c1 where r: "conn_Read c (len - length acc) = (rd, re, c1)"
      by (cases "conn_Read c (len - length acc)")
    note facts = conn_Read_bytes [OF r] conn_Read_frame [OF r]
    show ?thesis
    proof (cases re)
      case None
      then have "read_at_least_loop mn len (acc @ rd) c1 = (bs, e, c')"
        using "1.prems" True r by (simp add: read_at_least_loop.simps [of mn len acc c])
      moreover have "length (acc @ rd) \<le> len"
        using facts(2) True by auto
      ultimately show ?thesis
        using "1.IH" [OF True r [symmetric] refl None] facts conn_Read_clean(1) [OF _ r] by (auto simp: append_assoc)
    next
      case (Some re')
      then have eq: "bs = acc @ rd" "e = Some re'" "c' = c1"
        using "1.prems" True r by (simp_all add: read_at_least_loop.simps [of mn len acc c])
      have "reads_cleanly c \<Longrightarrow> reads c = [] \<and> re' = read_end c \<and> rd = [] \<and> c1 = c"
        using conn_Read_clean [OF _ r] Some by auto
      then show ?thesis
        using facts eq True conn_Read_clean(1) [OF _ r] by (auto simp: unread_def)
    qed
  qed
qed

text \<open>On a clean connection the outcome depends on the bytes alone, not on their chunks.\<close>

lemma ReadAtLeast_clean:
  assumes "reads_cleanly c" and "mn = len" and "ReadAtLeast c len mn = (bs, e, c')"
  shows "reads_cleanly c' \<and> sent c' = sent c \<and> read_end c' = read_end c \<and>
         (if mn \<le> length (unread c)
          then e = None \<and> bs = take mn (unread c) \<and> unread c' = drop mn (unread c)
          else e \<noteq> None \<and> bs = unread c \<and> unread c' = [])"
proof -
  obtain b1 e1 c1 where l: "read_at_least_loop mn len [] c = (b1, e1, c1)"
    by (cases "read_at_least_loop mn len [] c")
  have eq: "bs = b1" "c' = c1"
      "e = (if mn \<le> length b1 then None
            else if b1 \<noteq> [] \<and> e1 = Some IoEOF then Some IoUnexpectedEOF else e1)"
    using assms(2,3) l by (auto simp: ReadAtLeast_def)
  have spec: "b1 @ unread c1 = unread c" "length b1 \<le> mn" "e1 = None \<longrightarrow> mn \<le> length b1"
      "sent c1 = sent c" "read_end c1 = read_end c" "reads_cleanly c1"
      "e1 \<noteq> None \<longrightarrow> unread c1 = [] \<and> length b1 < mn"
    using read_at_least_loop_spec [OF l] assms(1,2) by auto
  show ?thesis
  proof (cases "e1 = None")
    case True
    then have "length b1 = mn" using spec(2,3) by simp
    then show ?thesis
      using spec eq by (auto simp flip: spec(1))
  next
    case False
    then show ?thesis
      using spec eq by (auto simp flip: spec(1))
  qed
qed

section \<open>Byte sinks\<close>

text \<open>
  The contract that the two packet writers rely on: a write that succeeds appends its bytes to
  the output of the sink, a write that fails appends only some leading bytes of them.
\<close>

locale byte_sink =
  fixes put :: "byte list \<Rightarrow> 's \<Rightarrow> goerror option \<times> 's"
    and out :: "'s \<Rightarrow> byte list"
  assumes put_ok: "put p s = (None, s') \<Longrightarrow> out s' = out s @ p"
    and put_err: "put p s = (Some e, s') \<Longrightarrow> prefix (out s) (out s') \<and> prefix (out s') (out s @ p)"
begin

text \<open>A frame is written as a header and a body; a failure leaves a prefix of the frame.\<close>

lemma put_frame_ok:
  "put h s = (None, s1) \<Longrightarrow> put b s1 = (None, s2) \<Longrightarrow> out s2 = out s @ h @ b"
  by (simp add: put_ok)

lemma put_header_err:
  "put h s = (Some e, s1) \<Longrightarrow> prefix (out s) (out s1) \<and> prefix (out s1) (out s @ h @ b)"
  using put_err by (metis append_assoc prefix_append)

lemma put_body_err:
  assumes "put h s = (None, s1)" and "put b s1 = (Some e, s2)"
  shows "prefix (out s @ h) (out s2) \<and> prefix (out s2) (out s @ h @ b)"
  using put_ok [OF assms(1)] put_err [OF assms(2)] by simp

end

definition conn_put :: "byte list \<Rightarrow> netconn \<Rightarrow> goerror option \<times> netconn" where
  "conn_put p c = (let (n, e, c') = conn_Write p c in (e, c'))"

interpretation conn_sink: byte_sink conn_put sent
proof unfold_locales
  fix p s s'
  assume "conn_put p s = (None, s')"
  then show "sent s' = sent s @ p"
    by (auto simp: conn_put_def split: prod.splits dest: conn_Write_result)
next
  fix p s e s'
  assume "conn_put p s = (Some e, s')"
  then obtain n where "conn_Write p s = (n, Some e, s')"
    by (auto simp: conn_put_def split: prod.splits)
  then show "prefix (sent s) (sent s') \<and> prefix (sent s') (sent s @ p)"
    by (auto dest: conn_Write_result simp: take_is_prefix)
qed

section \<open>bufio.Writer\<close>

text \<open>
  The buffered writer: the pending bytes, the sticky error and the capacity. \<open>Write\<close> fills
  the buffer and flushes it while the rest does not fit; a rest that does not fit into an
  empty buffer goes to the connection directly.
\<close>

record bufw =
  wbuf :: "byte list"
  werr :: "goerror option"
  wcap :: nat

definition NewWriterSize :: "nat \<Rightarrow> bufw" where
  "NewWriterSize n = \<lparr>wbuf = [], werr = None, wcap = n\<rparr>"

definition Buffered :: "bufw \<Rightarrow> nat" where
  "Buffered w = length (wbuf w)"

definition Available :: "bufw \<Rightarrow> nat" where
  "Available w = wcap w - length (wbuf w)"

definition bufw_Flush :: "bufw \<times> netconn \<Rightarrow> goerror option \<times> bufw \<times> netconn" where
  "bufw_Flush = (\<lambda>(w, c).
     if werr w \<noteq> None then (werr w, w, c)
     else if wbuf w = [] then (None, w, c)
     else case conn_Write (wbuf w) c of
       (n, None, c') \<Rightarrow> (None, w\<lparr>wbuf := []\<rparr>, c')
     | (n, Some e, c') \<Rightarrow> (Some e, w\<lparr>wbuf := drop n (wbuf w), werr := Some e\<rparr>, c'))"

lemma bufw_Flush_cases:
  assumes "bufw_Flush (w, c) = (e, w', c')"
  shows "sent c' @ wbuf w' = sent c @ wbuf w" and "e = None \<Longrightarrow> wbuf w' = [] \<and> werr w' = None"
    and "e \<noteq> None \<Longrightarrow> werr w' = e" and "wcap w' = wcap w"
  using assms
  by (auto simp: bufw_Flush_def split: if_splits prod.splits option.splits dest: conn_Write_result)

lemma bufw_Flush_reads: "bufw_Flush (w, c) = (e, w', c') \<Longrightarrow> same_reads c c'"
  by (auto simp: bufw_Flush_def split: if_splits prod.splits option.splits dest: conn_Write_reads)

function bufw_Write :: "byte list \<Rightarrow> bufw \<times> netconn \<Rightarrow> goerror option \<times> bufw \<times> netconn" where
  "bufw_Write p (w, c) =
     (if Available w < length p \<and> werr w = None
      then (if Buffered w = 0
            then (let (n, e, c') = conn_Write p c in bufw_Write (drop n p) (w\<lparr>werr := e\<rparr>, c'))
            else (let n = Available w;
                      (e, w', c') = bufw_Flush (w\<lparr>wbuf := wbuf w @ take n p\<rparr>, c)
                  in bufw_Write (drop n p) (w', c')))
      else case werr w of
        Some e \<Rightarrow> (Some e, w, c)
      | None \<Rightarrow> (None, w\<lparr>wbuf := wbuf w @ p\<rparr>, c))"
  by pat_completeness auto
termination
proof (relation "measures [\<lambda>(p, w, c). if werr w = None then 1 else 0, \<lambda>(p, w, c). length p,
    \<lambda>(p, w, c). Buffered w]", goal_cases)
  case (2 p w c x n y e c')
  then show ?case
    using conn_Write_result(1) [of p c n c'] by (cases e) auto
next
  case (3 p w c n x e y w' c')
  then show ?case
    using bufw_Flush_cases(2,3) [of "w\<lparr>wbuf := wbuf w @ take n p\<rparr>" c e w' c']
    by (cases e) (auto simp: Buffered_def)
qed simp

declare bufw_Write.simps [simp del]

definition bufw_out :: "bufw \<times> netconn \<Rightarrow> byte list" where
  "bufw_out = (\<lambda>(w, c). sent c @ wbuf w)"

text \<open>
  A write that succeeds leaves the writer without an error and appends exactly its bytes to
  what was sent or is pending; one that fails appends a prefix and the error sticks.
\<close>

lemma bufw_Write_spec:
  assumes "bufw_Write p (w, c) = (e, w', c')"
  shows "(e = None \<longrightarrow> werr w' = None \<and> bufw_out (w', c') = bufw_out (w, c) @ p) \<and>
         (e \<noteq> None \<longrightarrow> werr w' = e \<and> prefix (bufw_out (w, c)) (bufw_out (w', c')) \<and>
            prefix (bufw_out (w', c')) (bufw_out (w, c) @ p)) \<and> wcap w' = wcap w \<and> same_reads c c'"
  using assms
proof (induction p "(w, c)" arbitrary: w c e w' c' rule: bufw_Write.induct)
  case (1 p w c)
  consider (direct) "Available w < length p" "werr w = None" "Buffered w = 0"
    | (fill) "Available w < length p" "werr w = None" "Buffered w \<noteq> 0"
    | (fits) "\<not> (Available w < length p \<and> werr w = None)"
    by fastforce
  then show ?case
  proof cases
    case direct
    obtain n e1 c1 where wr: "conn_Write p c = (n, e1, c1)"
      by (cases "conn_Write p c")
    then have rest: "bufw_Write (drop n p) (w\<lparr>werr := e1\<rparr>, c1) = (e, w', c')"
      using "1.prems" direct by (simp add: bufw_Write.simps [of p w c])
    have out: "bufw_out (w\<lparr>werr := e1\<rparr>, c1) = bufw_out (w, c) @ take n p"
      using direct(3) conn_Write_result [of p c n] wr
      by (cases e1) (auto simp: bufw_out_def Buffered_def)
    note IH = "1.hyps"(1) [OF _ direct(3) wr [symmetric] refl refl rest]
    show ?thesis
      using IH direct same_reads_trans [OF conn_Write_reads [OF wr]] unfolding out
      by (auto dest: append_prefixD)
  next
    case fill
    define n where "n = Available w"
    obtain e1 w1 c1 where fl: "bufw_Flush (w\<lparr>wbuf := wbuf w @ take n p\<rparr>, c) = (e1, w1, c1)"
      by (cases "bufw_Flush (w\<lparr>wbuf := wbuf w @ take n p\<rparr>, c)")
    then have rest: "bufw_Write (drop n p) (w1, c1) = (e, w', c')"
      using "1.prems" fill by (simp add: bufw_Write.simps [of p w c] n_def)
    have out: "bufw_out (w1, c1) = bufw_out (w, c) @ take n p"
      using bufw_Flush_cases(1) [OF fl] by (simp add: bufw_out_def)
    note IH = "1.hyps"(2) [OF _ fill(3) n_def fl [symmetric] refl refl rest]
    show ?thesis
      using IH fill bufw_Flush_cases(4) [OF fl] same_reads_trans [OF bufw_Flush_reads [OF fl]]
      unfolding out by (auto dest: append_prefixD)
  next
    case fits
    then show ?thesis
      using "1.prems" by (auto simp: bufw_Write.simps [of p w c] bufw_out_def split: option.splits)
  qed
qed

interpretation buf_sink: byte_sink bufw_Write bufw_out
proof unfold_locales
  fix p s s'
  assume "bufw_Write p s = (None, s')"
  then show "bufw_out s' = bufw_out s @ p"
    using bufw_Write_spec by (cases s; cases s') blast
next
  fix p s e s'
  assume "bufw_Write p s = (Some e, s')"
  then show "prefix (bufw_out s) (bufw_out s') \<and> prefix (bufw_out s') (bufw_out s @ p)"
    using bufw_Write_spec by (cases s; cases s') blast
qed

section \<open>A network that accepts everything\<close>

text \<open>No write and no deadline call fails any more; reads are not concerned.\<close>

definition accepts_writes :: "netconn \<Rightarrow> bool" where
  "accepts_writes c \<longleftrightarrow> \<not> shut c \<and> writes c = [] \<and> deadlines c = []"

lemma conn_SetDeadline_accepts: "accepts_writes c \<Longrightarrow> conn_SetDeadline c = (None, c)"
  by (simp add: accepts_writes_def conn_SetDeadline_def)

lemma conn_Write_accepts:
  "accepts_writes c \<Longrightarrow> conn_Write p c = (length p, None, c\<lparr>sent := sent c @ p\<rparr>)"
  by (simp add: accepts_writes_def conn_Write_def)

lemma accepts_sent [simp]: "accepts_writes (c\<lparr>sent := s\<rparr>) = accepts_writes c"
  by (simp add: accepts_writes_def)

lemma bufw_Flush_accepts:
  assumes "accepts_writes c" and "werr w = None"
  obtains w' c' where "bufw_Flush (w, c) = (None, w', c')" and "accepts_writes c'" and "werr w' = None"
    and "wbuf w' = []" and "sent c' = sent c @ wbuf w" and "wcap w' = wcap w"
proof (cases "wbuf w = []")
  case True
  then show ?thesis using that [of w c] assms by (simp add: bufw_Flush_def)
next
  case False
  then show ?thesis
    using that [of "w\<lparr>wbuf := []\<rparr>" "c\<lparr>sent := sent c @ wbuf w\<rparr>"] assms
    by (simp add: bufw_Flush_def conn_Write_accepts)
qed

lemma bufw_Write_accepts:
  "accepts_writes c \<Longrightarrow> werr w = None \<Longrightarrow> bufw_Write p (w, c) = (e, w', c') \<Longrightarrow>
     e = None \<and> accepts_writes c'"
proof (induction p "(w, c)" arbitrary: w c e w' c' rule: bufw_Write.induct)
  case (1 p w c)
  show ?case
  proof (cases "Available w < length p")
    case False
    then show ?thesis
      using "1.prems" by (auto simp: bufw_Write.simps [of p w c])
  next
    case big: True
    show ?thesis
    proof (cases "Buffered w = 0")
      case True
      let ?c1 = "c\<lparr>sent := sent c @ p\<rparr>"
      have w: "conn_Write p c = (length p, None, ?c1)"
        using "1.prems"(1) by (rule conn_Write_accepts)
      have "bufw_Write [] (w\<lparr>werr := None\<rparr>, ?c1) = (e, w', c')"
        using "1.prems"(2,3) big True w by (simp add: bufw_Write.simps [of p w c])
      then show ?thesis
        using "1.prems"(1,2) by (auto simp: bufw_Write.simps)
    next
      case False
      define n where "n = Available w"
      obtain w1 c1 where f: "bufw_Flush (w\<lparr>wbuf := wbuf w @ take n p\<rparr>, c) = (None, w1, c1)"
          "accepts_writes c1" "werr w1 = None"
        by (rule bufw_Flush_accepts [OF "1.prems"(1), of "w\<lparr>wbuf := wbuf w @ take n p\<rparr>"])
          (simp_all add: "1.prems"(2))
      then have "bufw_Write (drop n p) (w1, c1) = (e, w', c')"
        using "1.prems"(2,3) big False by (simp add: bufw_Write.simps [of p w c] n_def)
      then show ?thesis
        using "1.hyps"(2) [OF _ False n_def f(1) [symmetric] refl refl f(2,3)] big "1.prems"(2) by simp
    qed
  qed
qed

end
