(* ===== verification/Conn_Contract.thy ===== *)
theory Conn_Contract
  imports Go_Net
begin

text \<open>
  The interface \<^verbatim>\<open>Conn\<close> of \<^verbatim>\<open>conn.go\<close> as a contract between a connection and its users. The
  synchronous and the asynchronous connection both promise it, and what follows from it alone
  is proved here once: after \<open>Close\<close>, nothing a user does reaches the network any more.
\<close>

text \<open>
  A sequence of writes by the user: the errors they returned and the final state. As elsewhere,
  \<^const>\<open>None\<close> is a panic.
\<close>

fun write_all ::
    "('p \<Rightarrow> 's \<Rightarrow> (goerror option \<times> 's) option) \<Rightarrow> 'p list \<Rightarrow> 's \<Rightarrow> (goerror option list \<times> 's) option"
  where
  "write_all wr [] s = Some ([], s)"
| "write_all wr (p # ps) s = do {
     (e, s') \<leftarrow> wr p s;
     (es, s'') \<leftarrow> write_all wr ps s';
     Some (e # es, s'')
   }"

locale closable_conn =
  fixes inv :: "'s \<Rightarrow> bool"
    and is_closed :: "'s \<Rightarrow> bool"
    and out :: "'s \<Rightarrow> byte list"
    and wr_packet :: "'p \<Rightarrow> 's \<Rightarrow> (goerror option \<times> 's) option"
    and close_conn :: "'s \<Rightarrow> (goerror option \<times> 's) option"
  assumes write_closed: "inv s \<Longrightarrow> is_closed s \<Longrightarrow>
      \<exists>e s'. wr_packet p s = Some (Some e, s') \<and> inv s' \<and> is_closed s' \<and> out s' = out s"
    and close_closes: "inv s \<Longrightarrow> \<exists>s'. close_conn s = Some (None, s') \<and> inv s' \<and> is_closed s'"
    and close_again: "inv s \<Longrightarrow> is_closed s \<Longrightarrow> close_conn s = Some (None, s)"
begin

lemma writes_closed:
  assumes "inv s" and "is_closed s"
  shows "\<exists>es s'. write_all wr_packet ps s = Some (es, s') \<and> length es = length ps \<and> None \<notin> set es \<and>
    is_closed s' \<and> out s' = out s"
  using assms
proof (induction ps arbitrary: s)
  case (Cons p ps)
  obtain e s1 where 1: "wr_packet p s = Some (Some e, s1)" "inv s1" "is_closed s1" "out s1 = out s"
    using write_closed [OF Cons.prems] by blast
  from Cons.IH [OF 1(2,3)] 1 show ?case
    by auto
qed simp

text \<open>
  After a close, which succeeds, closing again does nothing and every write is refused without
  a byte reaching the network.
\<close>

lemma writes_after_close:
  assumes "inv s"
  shows "\<exists>s'. close_conn s = Some (None, s') \<and> close_conn s' = Some (None, s') \<and>
    (\<forall>ps. \<exists>es s''. write_all wr_packet ps s' = Some (es, s'') \<and> length es = length ps \<and>
       None \<notin> set es \<and> out s'' = out s')"
  using close_closes [OF assms] writes_closed close_again by blast

end

end
