(* ===== verification/Sync_Conn.thy ===== *)
theory Sync_Conn
  imports Conn_Contract
begin

text \<open>
  The synchronous connection (\<^verbatim>\<open>sync.go\<close>). Reads and writes go to the network directly, under
  the connection's mutex, so each operation is one state transformer. The argument \<open>raced\<close>
  says whether another goroutine closed the connection while a failing network call was
  pending: the code looks at \<open>closed\<close> again after such a failure.
\<close>

section \<open>State and life cycle\<close>

record 'ctx sync_conn =
  s_conn :: netconn
  s_closed :: bool
  s_error :: "goerror option"
  s_ctx :: "'ctx option"

definition NewSync :: "netconn \<Rightarrow> 'ctx sync_conn" where
  "NewSync c = \<lparr>s_conn = c, s_closed = False, s_error = None, s_ctx = None\<rparr>"

definition Sync_SetDeadline :: "'ctx sync_conn \<Rightarrow> goerror option \<times> 'ctx sync_conn" where
  "Sync_SetDeadline c = (let (e, nc) = conn_SetDeadline (s_conn c) in (e, c\<lparr>s_conn := nc\<rparr>))"

definition Sync_SetContext :: "'ctx \<Rightarrow> 'ctx sync_conn \<Rightarrow> 'ctx sync_conn" where
  "Sync_SetContext ctx c = c\<lparr>s_ctx := Some ctx\<rparr>"

definition Sync_Context :: "'ctx sync_conn \<Rightarrow> 'ctx option" where
  "Sync_Context c = s_ctx c"

definition Sync_Error :: "'ctx sync_conn \<Rightarrow> goerror option" where
  "Sync_Error c = s_error c"

text \<open>TLS queries: the state of a TLS connection and the outcome of its handshake.\<close>

definition Sync_ConnectionState :: "'ctx sync_conn \<Rightarrow> nat option \<times> goerror option" where
  "Sync_ConnectionState c =
     (case tls (s_conn c) of
        Some (st, h) \<Rightarrow> (Some st, None)
      | None \<Rightarrow> (None, Some NotTLSConnectionError))"

definition Sync_Handshake :: "'ctx sync_conn \<Rightarrow> goerror option" where
  "Sync_Handshake c =
     (case tls (s_conn c) of Some (st, h) \<Rightarrow> h | None \<Rightarrow> Some NotTLSConnectionError)"

definition Sync_close :: "'ctx sync_conn \<Rightarrow> goerror option \<times> 'ctx sync_conn" where
  "Sync_close c =
     (if \<not> s_closed c then (None, c\<lparr>s_closed := True\<rparr>) else (Some ConnectionClosed, c))"

definition Sync_closeWithError ::
    "goerror \<Rightarrow> 'ctx sync_conn \<Rightarrow> goerror option \<times> 'ctx sync_conn" where
  "Sync_closeWithError err c =
     (case Sync_close c of
        (Some ce, c') \<Rightarrow>
          if errors_Is ce ConnectionClosed then (Some ConnectionClosed, c')
          else (Some err, c'\<lparr>s_error := Some err, s_conn := conn_Close (s_conn c')\<rparr>)
      | (None, c') \<Rightarrow>
          (Some err, c'\<lparr>s_error := Some err, s_conn := conn_Close (s_conn c')\<rparr>))"

definition Sync_Close :: "'ctx sync_conn \<Rightarrow> goerror option \<times> 'ctx sync_conn" where
  "Sync_Close c =
     (case Sync_close c of
        (Some ce, c') \<Rightarrow>
          if errors_Is ce ConnectionClosed then (None, c')
          else (Some ce, c'\<lparr>s_conn := conn_Close (s_conn c')\<rparr>)
      | (None, c') \<Rightarrow> (None, c'\<lparr>s_conn := conn_Close (s_conn c')\<rparr>))"

definition Sync_Raw :: "'ctx sync_conn \<Rightarrow> netconn \<times> 'ctx sync_conn" where
  "Sync_Raw c = (let (e, c') = Sync_close c in (s_conn c', c'))"

section \<open>Packets\<close>

text \<open>A network call failed: the code after the unlock, with a possible concurrent close.\<close>

definition Sync_failed ::
    "bool \<Rightarrow> goerror \<Rightarrow> 'ctx sync_conn \<Rightarrow> goerror option \<times> 'ctx sync_conn" where
  "Sync_failed raced err c =
     (let c = (if raced then snd (Sync_Close c) else c) in
      if s_closed c then (Some ConnectionClosed, c) else Sync_closeWithError err c)"

definition Sync_WritePacket ::
    "'c polyglot \<Rightarrow> uint32 \<Rightarrow> bool \<Rightarrow> 'c packet \<Rightarrow> 'ctx sync_conn
      \<Rightarrow> (goerror option \<times> 'ctx sync_conn) option" where
  "Sync_WritePacket P maxLen raced p c =
     (let m = Metadata p in
      if unat (ContentLength m) \<noteq> pg_len P (Content p) then Some (Some InvalidContentLength, c)
      else if exceeds_max maxLen (ContentLength m) then Some (Some ContentLengthExceeded, c)
      else do {
        encoded \<leftarrow> put_fields NewBuffer PacketMagicHeader (PacketId m) (Operation m) (ContentLength m);
        (if s_closed c then Some (Some ConnectionClosed, c)
         else case conn_put encoded (s_conn c) of
           (Some err, nc) \<Rightarrow> Some (Sync_failed raced err (c\<lparr>s_conn := nc\<rparr>))
         | (None, nc) \<Rightarrow>
             if ContentLength m \<noteq> 0
             then do {
               body \<leftarrow> go_slice (pg_bytes P (Content p)) 0 (unat (ContentLength m));
               Some (case conn_put body nc of
                       (Some err, nc') \<Rightarrow> Sync_failed raced err (c\<lparr>s_conn := nc'\<rparr>)
                     | (None, nc') \<Rightarrow> (None, c\<lparr>s_conn := nc'\<rparr>))
             }
             else Some (None, c\<lparr>s_conn := nc\<rparr>))
      })"

text \<open>
  \<open>Sync_failed\<close> returns an error; a failed read has no packet. The result carries the packet
  or the error, the pool and the connection.
\<close>

definition Sync_read_failed ::
    "bool \<Rightarrow> goerror \<Rightarrow> 'pl \<Rightarrow> 'ctx sync_conn
      \<Rightarrow> ((goerror option + 'c packet) \<times> 'pl \<times> 'ctx sync_conn) option" where
  "Sync_read_failed raced err pl c = (let (e, c') = Sync_failed raced err c in Some (Inl e, pl, c'))"

definition Sync_ReadPacket ::
    "'c polyglot \<Rightarrow> ('c packet, 'pl) pool_ops \<Rightarrow> uint32 \<Rightarrow> bool \<Rightarrow> 'pl \<Rightarrow> 'ctx sync_conn
      \<Rightarrow> ((goerror option + 'c packet) \<times> 'pl \<times> 'ctx sync_conn) option" where
  "Sync_ReadPacket P PO maxLen raced pl c =
     (if s_closed c then Some (Inl (Some ConnectionClosed), pl, c)
      else case ReadAtLeast (s_conn c) Size Size of
        (hs, Some err, nc) \<Rightarrow> Sync_read_failed raced err pl (c\<lparr>s_conn := nc\<rparr>)
      | (hs, None, nc) \<Rightarrow> do {
          let c = c\<lparr>s_conn := nc\<rparr>;
          let (p, pl) = Get PO pl;
          m \<leftarrow> get_fields hs 0;
          let p = p\<lparr>Metadata := m\<rparr>;
          (if Magic m \<noteq> PacketMagicHeader
           then (let (e, c') = Sync_closeWithError InvalidMagicHeader c in Some (Inl e, pl, c'))
           else if exceeds_max maxLen (ContentLength m)
           then (let (e, c') = Sync_closeWithError ContentLengthExceeded c in Some (Inl e, pl, c'))
           else if ContentLength m > 0
           then (let contentLength = unat (ContentLength m);
                     content = pg_move P (pg_grow P (Content p) contentLength) contentLength
                 in case ReadAtLeast (s_conn c) (length (pg_bytes P content)) contentLength of
                      (bs, Some err, nc) \<Rightarrow> Sync_read_failed raced err pl (c\<lparr>s_conn := nc\<rparr>)
                    | (bs, None, nc) \<Rightarrow>
                        Some (Inr (p\<lparr>Content := pg_store P content bs\<rparr>), pl, c\<lparr>s_conn := nc\<rparr>))
           else Some (Inr p, pl, c))
        })"

text \<open>Successive reads by the user, until the first error.\<close>

fun Sync_read_all ::
    "'c polyglot \<Rightarrow> ('c packet, 'pl) pool_ops \<Rightarrow> uint32 \<Rightarrow> nat \<Rightarrow> 'pl \<Rightarrow> 'ctx sync_conn
      \<Rightarrow> ('c packet list \<times> goerror option option \<times> 'ctx sync_conn) option" where
  "Sync_read_all P PO maxLen 0 pl c = Some ([], None, c)"
| "Sync_read_all P PO maxLen (Suc n) pl c =
     (case Sync_ReadPacket P PO maxLen False pl c of
        None \<Rightarrow> None
      | Some (Inl e, pl', c') \<Rightarrow> Some ([], Some e, c')
      | Some (Inr p, pl', c') \<Rightarrow>
          map_option (\<lambda>(ps, r). (p # ps, r)) (Sync_read_all P PO maxLen n pl' c'))"

section \<open>Closing\<close>

lemma Sync_closeWithError_cases:
  "Sync_closeWithError err c =
     (if s_closed c then (Some ConnectionClosed, c)
      else (Some err, c\<lparr>s_closed := True, s_error := Some err, s_conn := conn_Close (s_conn c)\<rparr>))"
  by (simp add: Sync_closeWithError_def Sync_close_def)

lemma Sync_Close_cases:
  "Sync_Close c =
     (None, if s_closed c then c else c\<lparr>s_closed := True, s_conn := conn_Close (s_conn c)\<rparr>)"
  by (simp add: Sync_Close_def Sync_close_def)

lemma Sync_failed_cases:
  assumes "\<not> s_closed c"
  shows "Sync_failed raced err c =
    (if raced then (Some ConnectionClosed, c\<lparr>s_closed := True, s_conn := conn_Close (s_conn c)\<rparr>)
     else (Some err, c\<lparr>s_closed := True, s_error := Some err, s_conn := conn_Close (s_conn c)\<rparr>))"
  using assms by (simp add: Sync_failed_def Sync_Close_cases Sync_closeWithError_cases)

lemma Sync_write_closed:
  assumes "s_closed c"
  shows "\<exists>e. Sync_WritePacket P maxLen raced p c = Some (Some e, c)"
  using assms by (simp add: Sync_WritePacket_def Let_def)

interpretation sync_contract: closable_conn "\<lambda>_. True" s_closed "\<lambda>c. sent (s_conn c)"
  "Sync_WritePacket P maxLen raced" "\<lambda>c. Some (Sync_Close c)" for P maxLen raced
proof unfold_locales
  fix s :: "'a sync_conn" and p :: "'b packet"
  assume "s_closed s"
  then show "\<exists>e s'. Sync_WritePacket P maxLen raced p s = Some (Some e, s') \<and> True \<and> s_closed s' \<and>
      sent (s_conn s') = sent (s_conn s)"
    using Sync_write_closed by fastforce
qed (simp_all add: Sync_Close_cases)

section \<open>Writing a frame\<close>

lemma frame_no_content:
  "polyglot_ok P \<Longrightarrow> sendable P maxLen p \<Longrightarrow> ContentLength (Metadata p) = 0 \<Longrightarrow>
     frame P p = header_bytes (wire_metadata (Metadata p))"
  using sendable_bytes [of P maxLen p] by (simp add: frame_def)

text \<open>The guards in closed form: what is left of a write that passes them.\<close>

lemma Sync_WritePacket_sendable:
  assumes "polyglot_ok P" and "sendable P maxLen p" and "\<not> s_closed c"
  shows "Sync_WritePacket P maxLen raced p c =
    Some (case conn_put (header_bytes (wire_metadata (Metadata p))) (s_conn c) of
            (Some err, nc) \<Rightarrow> Sync_failed raced err (c\<lparr>s_conn := nc\<rparr>)
          | (None, nc) \<Rightarrow>
              if ContentLength (Metadata p) = 0 then (None, c\<lparr>s_conn := nc\<rparr>)
              else case conn_put (pg_bytes P (Content p)) nc of
                (Some err, nc') \<Rightarrow> Sync_failed raced err (c\<lparr>s_conn := nc'\<rparr>)
              | (None, nc') \<Rightarrow> (None, c\<lparr>s_conn := nc'\<rparr>))"
  using assms sendable_bytes [OF assms(1,2)]
  by (auto simp: Sync_WritePacket_def Let_def sendable_def polyglot_simps split: prod.splits option.splits)

lemma Sync_WritePacket_refused:
  "\<not> sendable P maxLen p \<Longrightarrow>
     Sync_WritePacket P maxLen raced p c =
       Some (Some (if unat (ContentLength (Metadata p)) \<noteq> pg_len P (Content p)
                   then InvalidContentLength else ContentLengthExceeded), c)"
  by (auto simp: Sync_WritePacket_def Let_def sendable_def)

section \<open>Reading a frame\<close>

lemma Sync_ReadPacket_frame:
  assumes ok: "polyglot_ok P" "pool_ok PO (clean_packet P) I" "I pl"
    and c: "\<not> s_closed c" "reads_cleanly (s_conn c)"
    and bytes: "sendable P maxLen p" "unread (s_conn c) = frame P p @ rest"
  obtains q pl' c' where "Sync_ReadPacket P PO maxLen raced pl c = Some (Inr q, pl', c')"
    and "view P q = received P p" and "I pl'" and "\<not> s_closed c'" and "reads_cleanly (s_conn c')"
    and "unread (s_conn c') = rest"
proof -
  let ?m = "wire_metadata (Metadata p)" and ?body = "pg_bytes P (Content p)"
  let ?n = "unat (ContentLength (Metadata p))"
  obtain hs e nc where h: "ReadAtLeast (s_conn c) Size Size = (hs, e, nc)"
    by (cases "ReadAtLeast (s_conn c) Size Size")
  have hdr: "e = None" "hs = header_bytes ?m" "unread nc = ?body @ rest" "reads_cleanly nc"
    using ReadAtLeast_clean [OF c(2) refl h] bytes(2) by (auto simp: frame_def)
  obtain q0 pl0 where g: "Get PO pl = (q0, pl0)"
    by (cases "Get PO pl")
  have clean: "pg_bytes P (Content q0) = []" "I pl0"
    using Get_clean [OF ok(2,3) g] by (auto simp: clean_packet_def)
  have len: "length ?body = ?n" "\<not> exceeds_max maxLen (ContentLength (Metadata p))"
    using bytes(1) sendable_bytes [OF ok(1)] by (auto simp: sendable_def)
  show thesis
  proof (cases "ContentLength (Metadata p) = 0")
    case True
    then show ?thesis
      using that [of "q0\<lparr>Metadata := ?m\<rparr>" pl0 "c\<lparr>s_conn := nc\<rparr>"] c h hdr g clean len
      by (simp add: Sync_ReadPacket_def view_def received_def)
  next
    case False
    let ?content = "pg_move P (pg_grow P (Content q0) ?n) ?n"
    have room: "length (pg_bytes P ?content) = ?n"
      using polyglot_okD(6) [OF ok(1)] clean by simp
    obtain bs e' nc' where b: "ReadAtLeast nc ?n ?n = (bs, e', nc')"
      by (cases "ReadAtLeast nc ?n ?n")
    have body: "e' = None" "bs = ?body" "unread nc' = rest" "reads_cleanly nc'"
      using ReadAtLeast_clean [OF hdr(4) refl b] hdr(3) len by auto
    have "pg_bytes P (pg_store P ?content bs) = ?body"
      using polyglot_okD(7) [OF ok(1)] room body len by simp
    with False show ?thesis
      using that [of "q0\<lparr>Metadata := ?m, Content := pg_store P ?content bs\<rparr>" pl0 "c\<lparr>s_conn := nc'\<rparr>"]
        c h hdr g clean len room b body
      by (simp add: Sync_ReadPacket_def view_def received_def word_gt_0 Let_def)
  qed
qed

lemma Sync_read_all_frames:
  assumes ok: "polyglot_ok P" "pool_ok PO (clean_packet P) I" "I pl"
    and c: "\<not> s_closed c" "reads_cleanly (s_conn c)"
    and bytes: "\<forall>p\<in>set ps. sendable P maxLen p" "unread (s_conn c) = concat (map (frame P) ps) @ rest"
  shows "\<exists>qs c'. Sync_read_all P PO maxLen (length ps) pl c = Some (qs, None, c') \<and>
     map (view P) qs = map (received P) ps \<and> unread (s_conn c') = rest \<and> \<not> s_closed c'"
  using ok(3) c bytes
proof (induction ps arbitrary: pl c)
  case (Cons p ps)
  obtain q pl1 c1 where r: "Sync_ReadPacket P PO maxLen False pl c = Some (Inr q, pl1, c1)"
      "view P q = received P p" "I pl1" "\<not> s_closed c1" "reads_cleanly (s_conn c1)"
      "unread (s_conn c1) = concat (map (frame P) ps) @ rest"
    by (rule Sync_ReadPacket_frame [OF ok(1,2) Cons.prems(1-3), where p = p and maxLen = maxLen
        and rest = "concat (map (frame P) ps) @ rest" and raced = False])
      (use Cons.prems(4,5) in auto)
  then show ?case
    using Cons.IH [OF r(3-5) _ r(6)] Cons.prems(4) by fastforce
qed simp

section \<open>Outcomes of a write\<close>

lemma Sync_write_outcomes:
  assumes "polyglot_ok P"
  shows "\<exists>e c'. Sync_WritePacket P maxLen raced p c = Some (e, c') \<and>
    (e = None \<longrightarrow> sendable P maxLen p \<and> \<not> s_closed c \<and> \<not> s_closed c' \<and>
        sent (s_conn c') = sent (s_conn c) @ frame P p) \<and>
    (e \<noteq> None \<longrightarrow> (c' = c \<and> (s_closed c \<or> \<not> sendable P maxLen p)) \<or>
        (s_closed c' \<and> prefix (sent (s_conn c')) (sent (s_conn c) @ frame P p)))"
proof (cases "s_closed c \<or> \<not> sendable P maxLen p")
  case True
  then show ?thesis
    using Sync_write_closed [of c P maxLen raced p] Sync_WritePacket_refused [of P maxLen p raced c]
    by fastforce
next
  case False
  let ?h = "header_bytes (wire_metadata (Metadata p))" and ?b = "pg_bytes P (Content p)"
  note eq = Sync_WritePacket_sendable [of P maxLen p c raced, OF assms]
  obtain e1 c1 where h: "conn_put ?h (s_conn c) = (e1, c1)" by (cases "conn_put ?h (s_conn c)")
  obtain e2 c2 where b: "conn_put ?b c1 = (e2, c2)" by (cases "conn_put ?b c1")
  have out: "e1 = None \<Longrightarrow> e2 = None \<Longrightarrow> sent c2 = sent (s_conn c) @ frame P p"
      "e1 = None \<Longrightarrow> e2 \<noteq> None \<Longrightarrow> prefix (sent c2) (sent (s_conn c) @ frame P p)"
      "e1 \<noteq> None \<Longrightarrow> prefix (sent c1) (sent (s_conn c) @ frame P p)"
      "e1 = None \<Longrightarrow> sent c1 = sent (s_conn c) @ ?h"
    using h b conn_sink.put_frame_ok conn_sink.put_body_err conn_sink.put_header_err conn_sink.put_ok
    by (auto simp: frame_def)
  show ?thesis
    using False eq h b out frame_no_content [OF assms, of maxLen p]
    by (auto simp: Sync_failed_cases conn_Close_def split: option.splits)
qed

lemma Sync_write_sends:
  assumes "polyglot_ok P" and "Sync_WritePacket P maxLen raced p c = Some (None, c')"
  shows "sent (s_conn c') = sent (s_conn c) @ frame P p \<and> sendable P maxLen p"
  using Sync_write_outcomes [OF assms(1), of maxLen raced p c] assms(2) by auto

section \<open>Writing several packets\<close>

lemma Sync_write_all_frames:
  assumes "polyglot_ok P" and "write_all (Sync_WritePacket P maxLen False) ps w = Some (es, w')"
    and "set es \<subseteq> {None}"
  shows "sent (s_conn w') = sent (s_conn w) @ concat (map (frame P) ps) \<and>
    (\<forall>p\<in>set ps. sendable P maxLen p)"
  using assms(2,3)
proof (induction ps arbitrary: w es)
  case (Cons p ps)
  then obtain e1 w1 es1 where w: "Sync_WritePacket P maxLen False p w = Some (e1, w1)"
      "write_all (Sync_WritePacket P maxLen False) ps w1 = Some (es1, w')" "es = e1 # es1"
    by (auto simp: bind_eq_Some_conv)
  have "sent (s_conn w1) = sent (s_conn w) @ frame P p" "sendable P maxLen p"
    using Sync_write_sends [OF assms(1), of maxLen False p w w1] w Cons.prems(2) by auto
  then show ?case
    using Cons.IH [OF w(2)] w(3) Cons.prems(2) by simp
qed simp

section \<open>Properties\<close>

text \<open>
  C24: \<open>WritePacket\<close> on a synchronous connection never panics. It succeeds only on an open
  connection and a packet whose declared length is right and allowed, and then exactly the
  packet's frame has been sent. When it fails, either the packet was refused and nothing
  changed, or the connection is closed afterwards and a prefix of the frame was sent.
\<close>

theorem sync_write_outcome:
  assumes "polyglot_ok P"
  shows "\<exists>e c'. Sync_WritePacket P maxLen raced p c = Some (e, c') \<and>
    (e = None \<longrightarrow> sendable P maxLen p \<and> \<not> s_closed c \<and> \<not> s_closed c' \<and>
        sent (s_conn c') = sent (s_conn c) @ frame P p) \<and>
    (e \<noteq> None \<longrightarrow> (c' = c \<and> (s_closed c \<or> \<not> sendable P maxLen p)) \<or>
        (s_closed c' \<and> prefix (sent (s_conn c')) (sent (s_conn c) @ frame P p)))"
  using assms by (rule Sync_write_outcomes)

text \<open>Witness: a two-byte packet on a fresh connection.\<close>

theorem sync_write_outcome_witness:
  "\<exists>e c'. Sync_WritePacket list_polyglot 100 False
       \<lparr>Metadata = \<lparr>Magic = 0, PacketId = 1, Operation = 12, ContentLength = 2\<rparr>, Content = [7, 8]\<rparr>
       (NewSync \<lparr>reads = [], read_end = IoEOF, writes = [], deadlines = [], sent = [], shut = False,
          tls = None\<rparr> :: unit sync_conn) = Some (e, c') \<and> e = None \<and>
     sent (s_conn c') = [0, 15, 0, 1, 0, 12, 0, 0, 0, 2, 7, 8]"
  using sync_write_outcome [OF list_polyglot_ok, of 100 False
      "\<lparr>Metadata = \<lparr>Magic = 0, PacketId = 1, Operation = 12, ContentLength = 2\<rparr>, Content = [7, 8]\<rparr>"
      "NewSync \<lparr>reads = [], read_end = IoEOF, writes = [], deadlines = [], sent = [], shut = False,
          tls = None\<rparr> :: unit sync_conn"]
  by (auto simp: NewSync_def frame_def header_bytes_def wire_metadata_def PacketMagicHeader_def
      list_polyglot_def Sync_WritePacket_def put_fields_header exceeds_max_def conn_put_def conn_Write_def)

text \<open>
  C23: packets written to one synchronous connection are read back by the peer in order with
  their identifiers, operations, lengths and contents, however the network cuts the byte
  stream into chunks.
\<close>

theorem sync_roundtrip:
  assumes "polyglot_ok P" and "pool_ok PO (clean_packet P) I" and "I pl"
    and "write_all (Sync_WritePacket P maxLen False) ps w = Some (es, w')" and "set es \<subseteq> {None}"
    and "sent (s_conn w) = []"
    and "\<not> s_closed r" and "reads_cleanly (s_conn r)" and "unread (s_conn r) = sent (s_conn w')"
  shows "\<exists>qs r'. Sync_read_all P PO maxLen (length ps) pl r = Some (qs, None, r') \<and>
    map (view P) qs = map (received P) ps \<and> unread (s_conn r') = []"
proof -
  have "unread (s_conn r) = concat (map (frame P) ps) @ []" and "\<forall>p\<in>set ps. sendable P maxLen p"
    using Sync_write_all_frames [OF assms(1,4,5)] assms(6,9) by auto
  then show ?thesis
    using Sync_read_all_frames [OF assms(1,2,3,7,8)] by blast
qed

text \<open>Witness: one packet, delivered in three chunks that cut through the header.\<close>

theorem sync_roundtrip_witness:
  fixes w r :: "unit sync_conn" and p :: "byte list packet"
  defines "w \<equiv> NewSync \<lparr>reads = [], read_end = IoEOF, writes = [], deadlines = [], sent = [],
      shut = False, tls = None\<rparr>"
    and "r \<equiv> NewSync \<lparr>reads = [([0, 15, 0], None), ([1, 0, 12, 0, 0, 0, 2, 7], None), ([8], None)],
      read_end = IoEOF, writes = [], deadlines = [], sent = [], shut = False, tls = None\<rparr>"
    and "p \<equiv> \<lparr>Metadata = \<lparr>Magic = 0, PacketId = 1, Operation = 12, ContentLength = 2\<rparr>,
      Content = [7, 8]\<rparr>"
  shows "\<exists>qs r'. Sync_read_all list_polyglot list_pool 0 1 (Packet_New list_polyglot, []) r =
      Some (qs, None, r') \<and>
    map (view list_polyglot) qs = map (received list_polyglot) [p] \<and> unread (s_conn r') = []"
proof -
  have "\<exists>w'. write_all (Sync_WritePacket list_polyglot 0 False) [p] w = Some ([None], w') \<and>
      sent (s_conn w') = [0, 15, 0, 1, 0, 12, 0, 0, 0, 2, 7, 8]"
    by (simp add: p_def w_def NewSync_def frame_def header_bytes_def wire_metadata_def
        PacketMagicHeader_def list_polyglot_def Sync_WritePacket_def put_fields_header
        exceeds_max_def conn_put_def conn_Write_def)
  then obtain w' where w': "write_all (Sync_WritePacket list_polyglot 0 False) [p] w = Some ([None], w')"
      "sent (s_conn w') = [0, 15, 0, 1, 0, 12, 0, 0, 0, 2, 7, 8]"
    by blast
  show ?thesis
    using sync_roundtrip [OF list_polyglot_ok list_pool_ok [of "clean_packet list_polyglot"] _ w'(1),
        of "(Packet_New list_polyglot, [])" r] w'(2)
    by (simp add: r_def w_def NewSync_def reads_cleanly_def unread_def list_polyglot_ok)
qed

text \<open>
  C25: a read that fails on an open synchronous connection closes it: the network connection is
  shut, the error is the one \<open>Error\<close> reports, and neither a later error nor a later read or
  write changes anything any more; they all report that the connection is closed.
\<close>

theorem sync_first_error_sticks:
  assumes "Sync_ReadPacket P PO maxLen False pl c = Some (Inl e, pl', c')" and "\<not> s_closed c"
  shows "e \<noteq> None \<and> Sync_Error c' = e \<and> shut (s_conn c') \<and>
    Sync_closeWithError e' c' = (Some ConnectionClosed, c') \<and>
    Sync_ReadPacket P PO maxLen raced pl2 c' = Some (Inl (Some ConnectionClosed), pl2, c') \<and>
    (sendable P maxLen p \<longrightarrow> Sync_WritePacket P maxLen raced p c' = Some (Some ConnectionClosed, c'))"
proof -
  have "\<exists>err. e = Some err \<and> s_closed c' \<and> s_error c' = Some err \<and> shut (s_conn c')"
    using assms
    by (auto simp: Sync_ReadPacket_def Sync_read_failed_def Sync_failed_cases Sync_closeWithError_cases
        conn_Close_def bind_eq_Some_conv Let_def split: prod.splits option.splits if_splits)
  then show ?thesis
    by (auto simp: Sync_Error_def Sync_closeWithError_cases Sync_ReadPacket_def Sync_WritePacket_def
        Let_def sendable_def put_fields_header)
qed

text \<open>Witness: the peer closes the stream in the middle of a header.\<close>

theorem sync_first_error_sticks_witness:
  fixes c c' :: "unit sync_conn"
  defines "c \<equiv> NewSync \<lparr>reads = [([0, 15, 0], None)], read_end = IoEOF, writes = [], deadlines = [],
      sent = [], shut = False, tls = None\<rparr>"
    and "c' \<equiv> c\<lparr>s_conn := (s_conn c)\<lparr>reads := [], shut := True\<rparr>, s_closed := True,
      s_error := Some IoUnexpectedEOF\<rparr>"
  shows "Sync_ReadPacket list_polyglot list_pool 0 False (Packet_New list_polyglot, []) c =
      Some (Inl (Some IoUnexpectedEOF), (Packet_New list_polyglot, []), c') \<and>
    Sync_Error c' = Some IoUnexpectedEOF \<and>
    Sync_closeWithError (NetError 3) c' = (Some ConnectionClosed, c')"
proof -
  have "Sync_ReadPacket list_polyglot list_pool 0 False (Packet_New list_polyglot, []) c =
      Some (Inl (Some IoUnexpectedEOF), (Packet_New list_polyglot, []), c')"
    by (simp add: c_def c'_def NewSync_def Sync_ReadPacket_def ReadAtLeast_def Size_def conn_Read_def
        read_at_least_loop.simps Sync_read_failed_def Sync_failed_cases conn_Close_def)
  moreover have "\<not> s_closed c"
    by (simp add: c_def NewSync_def)
  ultimately show ?thesis
    using sync_first_error_sticks [of list_polyglot list_pool 0 "(Packet_New list_polyglot, [])" c
        "Some IoUnexpectedEOF" "(Packet_New list_polyglot, [])" c' "NetError 3"]
    by simp
qed

end
