(* ===== verification/Queue.thy ===== *)
theory Queue
  imports Frisbee_Base
begin

text \<open>
  The bounded packet queue \<^verbatim>\<open>queue.Circular\<close> of loopholelabs/common, used for the incoming
  packets of a connection and of each stream. It is code of another module: the operation
  record \<open>circular\<close> is an argument of what uses it, and \<open>circular_ok\<close> states its documented
  behaviour through three observations (contents, closed, free room). An operation that has to
  wait for another goroutine \<open>Blocks\<close>.
\<close>

datatype 'a blocking = Blocks | Returns 'a

record ('q, 'p) circular =
  q_new :: "nat \<Rightarrow> 'q"
  q_push :: "'p \<Rightarrow> 'q \<Rightarrow> (goerror option \<times> 'q) blocking"
  q_pop :: "'q \<Rightarrow> ((goerror + 'p) \<times> 'q) blocking"
  q_close :: "'q \<Rightarrow> 'q"
  q_drain :: "'q \<Rightarrow> 'p list \<times> 'q"

record ('q, 'p) queue_view =
  items :: "'q \<Rightarrow> 'p list"
  q_closed :: "'q \<Rightarrow> bool"
  room :: "'q \<Rightarrow> nat"

definition circular_ok :: "('q, 'p) circular \<Rightarrow> ('q, 'p) queue_view \<Rightarrow> bool" where
  "circular_ok Q V \<longleftrightarrow>
     (\<forall>n. items V (q_new Q n) = [] \<and> \<not> q_closed V (q_new Q n) \<and> (0 < n \<longrightarrow> 0 < room V (q_new Q n))) \<and>
     (\<forall>q p. q_closed V q \<longrightarrow> (\<exists>e. q_push Q p q = Returns (Some e, q))) \<and>
     (\<forall>q p. \<not> q_closed V q \<longrightarrow> room V q = 0 \<longrightarrow> q_push Q p q = Blocks) \<and>
     (\<forall>q p. \<not> q_closed V q \<longrightarrow> 0 < room V q \<longrightarrow>
        (\<exists>q'. q_push Q p q = Returns (None, q') \<and> items V q' = items V q @ [p] \<and>
              \<not> q_closed V q' \<and> room V q' = room V q - 1)) \<and>
     (\<forall>q. q_closed V q \<longrightarrow> (\<exists>e. q_pop Q q = Returns (Inl e, q))) \<and>
     (\<forall>q. \<not> q_closed V q \<longrightarrow> items V q = [] \<longrightarrow> q_pop Q q = Blocks) \<and>
     (\<forall>q p ps. \<not> q_closed V q \<longrightarrow> items V q = p # ps \<longrightarrow>
        (\<exists>q'. q_pop Q q = Returns (Inr p, q') \<and> items V q' = ps \<and>
              \<not> q_closed V q' \<and> room V q' = room V q + 1)) \<and>
     (\<forall>q. q_closed V (q_close Q q) \<and> items V (q_close Q q) = items V q) \<and>
     (\<forall>q. fst (q_drain Q q) = items V q \<and> items V (snd (q_drain Q q)) = [] \<and>
          q_closed V (snd (q_drain Q q)) = q_closed V q)"

lemma circular_new:
  "circular_ok Q V \<Longrightarrow> items V (q_new Q n) = []"
  "circular_ok Q V \<Longrightarrow> \<not> q_closed V (q_new Q n)"
  "circular_ok Q V \<Longrightarrow> 0 < n \<Longrightarrow> 0 < room V (q_new Q n)"
  by (simp_all add: circular_ok_def)

lemma circular_push_closed:
  "circular_ok Q V \<Longrightarrow> q_closed V q \<Longrightarrow> \<exists>e. q_push Q p q = Returns (Some e, q)"
  by (simp add: circular_ok_def)

lemma circular_push_full:
  "circular_ok Q V \<Longrightarrow> \<not> q_closed V q \<Longrightarrow> room V q = 0 \<Longrightarrow> q_push Q p q = Blocks"
  by (simp add: circular_ok_def)

lemma circular_push_room:
  assumes "circular_ok Q V" and "\<not> q_closed V q" and "0 < room V q"
  obtains q' where "q_push Q p q = Returns (None, q')" and "items V q' = items V q @ [p]"
    and "\<not> q_closed V q'" and "room V q' = room V q - 1"
proof -
  have "\<exists>q'. q_push Q p q = Returns (None, q') \<and> items V q' = items V q @ [p] \<and>
      \<not> q_closed V q' \<and> room V q' = room V q - 1"
    using assms by (simp add: circular_ok_def)
  with that show thesis by blast
qed

lemma circular_push_cases:
  assumes "circular_ok Q V"
  obtains (refused) e where "q_push Q p q = Returns (Some e, q)" and "q_closed V q"
  | (full) "q_push Q p q = Blocks" and "\<not> q_closed V q" and "room V q = 0"
  | (queued) q' where "q_push Q p q = Returns (None, q')" and "items V q' = items V q @ [p]"
      and "\<not> q_closed V q" and "\<not> q_closed V q'"
  using circular_push_closed [OF assms] circular_push_full [OF assms] circular_push_room [OF assms]
  by (metis gr_zeroI)

lemma circular_pop_closed:
  "circular_ok Q V \<Longrightarrow> q_closed V q \<Longrightarrow> \<exists>e. q_pop Q q = Returns (Inl e, q)"
  by (simp add: circular_ok_def)

lemma circular_pop_empty:
  "circular_ok Q V \<Longrightarrow> \<not> q_closed V q \<Longrightarrow> items V q = [] \<Longrightarrow> q_pop Q q = Blocks"
  by (simp add: circular_ok_def)

lemma circular_pop_cons:
  assumes "circular_ok Q V" and "\<not> q_closed V q" and "items V q = p # ps"
  obtains q' where "q_pop Q q = Returns (Inr p, q')" and "items V q' = ps"
    and "\<not> q_closed V q'" and "room V q' = room V q + 1"
proof -
  have "\<exists>q'. q_pop Q q = Returns (Inr p, q') \<and> items V q' = ps \<and>
      \<not> q_closed V q' \<and> room V q' = room V q + 1"
    using assms by (simp add: circular_ok_def)
  with that show thesis by blast
qed

lemma circular_close_drain:
  assumes "circular_ok Q V"
  shows "q_closed V (q_close Q q)" and "items V (q_close Q q) = items V q"
    and "fst (q_drain Q q) = items V q" and "items V (snd (q_drain Q q)) = []"
    and "q_closed V (snd (q_drain Q q)) = q_closed V q"
  using assms by (simp_all add: circular_ok_def)

lemmas circular_simps = circular_new circular_close_drain

section \<open>A queue that meets the requirements\<close>

text \<open>Capacity, closed flag and contents in a triple.\<close>

definition list_circular :: "(nat \<times> bool \<times> 'p list, 'p) circular" where
  "list_circular =
     \<lparr>q_new = (\<lambda>n. (n, False, [])),
      q_push = (\<lambda>p (n, cl, xs). if cl then Returns (Some (ExtError 1), (n, cl, xs))
                  else if n \<le> length xs then Blocks else Returns (None, (n, cl, xs @ [p]))),
      q_pop = (\<lambda>(n, cl, xs). if cl then Returns (Inl (ExtError 1), (n, cl, xs))
                  else case xs of [] \<Rightarrow> Blocks | x # ys \<Rightarrow> Returns (Inr x, (max n (length xs), cl, ys))),
      q_close = (\<lambda>(n, cl, xs). (n, True, xs)),
      q_drain = (\<lambda>(n, cl, xs). (xs, (n, cl, [])))\<rparr>"

definition list_view :: "(nat \<times> bool \<times> 'p list, 'p) queue_view" where
  "list_view = \<lparr>items = (\<lambda>(n, cl, xs). xs), q_closed = (\<lambda>(n, cl, xs). cl),
     room = (\<lambda>(n, cl, xs). n - length xs)\<rparr>"

lemma list_circular_ok: "circular_ok list_circular list_view"
  by (auto simp: circular_ok_def list_circular_def list_view_def max_def)

end
