(* ===== verification/Async_Conn.thy ===== *)
theory Async_Conn
  imports Conn_Contract Queue "HOL-Library.AList"
begin

text \<open>
  The asynchronous connection (\<^verbatim>\<open>async.go\<close>, all but its read loop) and its streams
  (\<^verbatim>\<open>stream.go\<close>). The connection and its streams refer to each other, so one record holds the
  connection and the store of its stream objects; a stream pointer is an index into the store.

  Every operation is a state transformer; \<^const>\<open>None\<close> is a panic (a send on or a second close of
  a closed channel, a slice out of range, a negative wait group). The argument \<open>race\<close> of some
  operations is what other goroutines do to the connection between a network call that failed
  (or a load of \<open>closed\<close>) and the moment the code looks at \<open>closed\<close> again.
\<close>

section \<open>State\<close>

text \<open>The modules that the connection calls, and the current content limit.\<close>

record ('c, 'q, 'pl, 'bl) deps =
  poly :: "'c polyglot"
  pkt_pool :: "('c packet, 'pl) pool_ops"
  buf_pool :: "(byte list, 'bl) pool_ops"
  circ :: "('q, 'c packet) circular"
  maxLen :: uint32

record ('c, 'q) stream =
  st_id :: uint16
  st_closed :: bool
  st_queue :: 'q
  st_stale :: "'c packet list"

record ('c, 'q, 'pl, 'bl, 'h) async =
  a_conn :: netconn
  a_closed :: bool
  a_writer :: bufw
  flushCh :: nat
  flushCh_closed :: bool
  closeCh_closed :: bool
  incoming :: 'q
  a_stale :: "'c packet list"
  a_wg :: nat
  a_error :: "goerror option"
  streams :: "(uint16 \<times> nat) list"
  stream_objs :: "('c, 'q) stream list"
  newStreamHandler :: "'h option"
  spawned :: "('h \<times> nat) list"
  packets :: 'pl
  buffers :: 'bl

definition DefaultStreamBufferSize :: nat where "DefaultStreamBufferSize = 2 ^ 12"

text \<open>
  \<open>NewAsync\<close> starts the flush, read and ping goroutines; \<open>pl\<close> and \<open>bl\<close> are the package-wide
  pools as they are at that moment.
\<close>

definition NewAsync ::
    "('c, 'q, 'pl, 'bl) deps \<Rightarrow> netconn \<Rightarrow> 'h option list \<Rightarrow> 'pl \<Rightarrow> 'bl \<Rightarrow> ('c, 'q, 'pl, 'bl, 'h) async" where
  "NewAsync D c streamHandler pl bl =
     \<lparr>a_conn = c, a_closed = False, a_writer = NewWriterSize DefaultBufferSize, flushCh = 0,
      flushCh_closed = False, closeCh_closed = False, incoming = q_new (circ D) DefaultBufferSize,
      a_stale = [], a_wg = 3, a_error = None, streams = [], stream_objs = [],
      newStreamHandler = (case streamHandler of [] \<Rightarrow> None | h # _ \<Rightarrow> h),
      spawned = [], packets = pl, buffers = bl\<rparr>"

section \<open>Small operations\<close>

definition Async_SetDeadline ::
    "('c, 'q, 'pl, 'bl, 'h) async \<Rightarrow> goerror option \<times> ('c, 'q, 'pl, 'bl, 'h) async" where
  "Async_SetDeadline a =
     (if a_closed a then (Some ConnectionClosed, a)
      else (let (e, nc) = conn_SetDeadline (a_conn a) in (e, a\<lparr>a_conn := nc\<rparr>)))"

definition Async_ConnectionState ::
    "('c, 'q, 'pl, 'bl, 'h) async \<Rightarrow> nat option \<times> goerror option" where
  "Async_ConnectionState a =
     (case tls (a_conn a) of
        Some (st, h) \<Rightarrow> (Some st, None)
      | None \<Rightarrow> (None, Some NotTLSConnectionError))"

definition Async_Handshake :: "('c, 'q, 'pl, 'bl, 'h) async \<Rightarrow> goerror option" where
  "Async_Handshake a =
     (case tls (a_conn a) of Some (st, h) \<Rightarrow> h | None \<Rightarrow> Some NotTLSConnectionError)"

definition Async_Error :: "('c, 'q, 'pl, 'bl, 'h) async \<Rightarrow> goerror option" where
  "Async_Error a = a_error a"

definition Async_Closed :: "('c, 'q, 'pl, 'bl, 'h) async \<Rightarrow> bool" where
  "Async_Closed a = a_closed a"

definition WriteBufferSize :: "('c, 'q, 'pl, 'bl, 'h) async \<Rightarrow> nat" where
  "WriteBufferSize a = (if a_closed a then 0 else Buffered (a_writer a))"

definition SetNewStreamHandler ::
    "'h option \<Rightarrow> ('c, 'q, 'pl, 'bl, 'h) async \<Rightarrow> ('c, 'q, 'pl, 'bl, 'h) async" where
  "SetNewStreamHandler handler a = a\<lparr>newStreamHandler := handler\<rparr>"

text \<open>\<^verbatim>\<open>wg.Done()\<close> of a goroutine; a negative counter panics.\<close>

definition wg_Done ::
    "('c, 'q, 'pl, 'bl, 'h) async \<Rightarrow> ('c, 'q, 'pl, 'bl, 'h) async option" where
  "wg_Done a = (if a_wg a = 0 then None else Some (a\<lparr>a_wg := a_wg a - 1\<rparr>))"

section \<open>Writing\<close>

text \<open>
  The signal to the flush goroutine: when the channel is empty, a non-blocking send. The
  channel has room for three, so a send on the empty channel succeeds, unless it is closed.
\<close>

definition signal_flush ::
    "('c, 'q, 'pl, 'bl, 'h) async \<Rightarrow> ('c, 'q, 'pl, 'bl, 'h) async option" where
  "signal_flush a =
     (if flushCh a = 0
      then (if flushCh_closed a then None else Some (a\<lparr>flushCh := 1\<rparr>))
      else Some a)"

text \<open>
  The common end of the failure branches of \<open>writePacket\<close>, after the unlock; \<open>cwe\<close> is
  \<open>closeWithError\<close>, which is defined further below in terms of a write on a closed connection.
\<close>

definition write_failed ::
    "(goerror \<Rightarrow> 's \<Rightarrow> (goerror option \<times> 's) option) \<Rightarrow> ('s \<Rightarrow> 's) \<Rightarrow> ('s \<Rightarrow> bool) \<Rightarrow> bool
      \<Rightarrow> goerror \<Rightarrow> 's \<Rightarrow> (goerror option \<times> 's) option" where
  "write_failed cwe race is_closed closeOnErr err a =
     (let a = race a in
      if is_closed a then Some (Some ConnectionClosed, a)
      else if closeOnErr then cwe err a
      else Some (Some err, a))"

definition writePacket_with ::
    "(goerror \<Rightarrow> ('c, 'q, 'pl, 'bl, 'h) async \<Rightarrow> (goerror option \<times> ('c, 'q, 'pl, 'bl, 'h) async) option)
      \<Rightarrow> ('c, 'q, 'pl, 'bl) deps
      \<Rightarrow> (('c, 'q, 'pl, 'bl, 'h) async \<Rightarrow> ('c, 'q, 'pl, 'bl, 'h) async) \<Rightarrow> bool \<Rightarrow> 'c packet
      \<Rightarrow> ('c, 'q, 'pl, 'bl, 'h) async \<Rightarrow> (goerror option \<times> ('c, 'q, 'pl, 'bl, 'h) async) option" where
  "writePacket_with cwe D race closeOnErr p a =
     (let m = Metadata p; failed = write_failed cwe race a_closed closeOnErr in
      if unat (ContentLength m) \<noteq> pg_len (poly D) (Content p) then Some (Some InvalidContentLength, a)
      else if exceeds_max (maxLen D) (ContentLength m) then Some (Some ContentLengthExceeded, a)
      else do {
        let (buf, bl) = GetBuffer (buf_pool D) (buffers a);
        let a = a\<lparr>buffers := bl\<rparr>;
        encoded \<leftarrow> put_fields buf PacketMagicHeader (PacketId m) (Operation m) (ContentLength m);
        (if a_closed a then Some (Some ConnectionClosed, a)
         else case conn_SetDeadline (a_conn a) of
           (Some err, nc) \<Rightarrow> failed err (a\<lparr>a_conn := nc\<rparr>)
         | (None, nc) \<Rightarrow> (case bufw_Write encoded (a_writer a, nc) of (e, w, nc) \<Rightarrow>
             (let a = a\<lparr>buffers := PutBuffer (buf_pool D) encoded bl, a_writer := w, a_conn := nc\<rparr> in
              case e of
                Some err \<Rightarrow> failed err a
              | None \<Rightarrow>
                  if ContentLength m \<noteq> 0
                  then do {
                    body \<leftarrow> go_slice (pg_bytes (poly D) (Content p)) 0 (unat (ContentLength m));
                    (case bufw_Write body (a_writer a, a_conn a) of
                       (Some err, w, nc) \<Rightarrow> failed err (a\<lparr>a_writer := w, a_conn := nc\<rparr>)
                     | (None, w, nc) \<Rightarrow> do {
                         a \<leftarrow> signal_flush (a\<lparr>a_writer := w, a_conn := nc\<rparr>);
                         Some (None, a)
                       })
                  }
                  else do { a \<leftarrow> signal_flush a; Some (None, a) })))
      })"

definition flush ::
    "('c, 'q, 'pl, 'bl, 'h) async \<Rightarrow> goerror option \<times> ('c, 'q, 'pl, 'bl, 'h) async" where
  "flush a =
     (if a_closed a then (Some ConnectionClosed, a)
      else if 0 < Buffered (a_writer a)
      then (case conn_SetDeadline (a_conn a) of
              (Some err, nc) \<Rightarrow> (Some err, a\<lparr>a_conn := nc\<rparr>)
            | (None, nc) \<Rightarrow>
                (case bufw_Flush (a_writer a, nc) of (e, w, nc) \<Rightarrow> (e, a\<lparr>a_writer := w, a_conn := nc\<rparr>)))
      else (None, a))"

section \<open>Streams\<close>

definition newStream ::
    "('c, 'q, 'pl, 'bl) deps \<Rightarrow> uint16 \<Rightarrow> ('c, 'q, 'pl, 'bl, 'h) async \<Rightarrow> nat \<times> ('c, 'q, 'pl, 'bl, 'h) async" where
  "newStream D sid a =
     (length (stream_objs a),
      a\<lparr>stream_objs := stream_objs a @
          [\<lparr>st_id = sid, st_closed = False, st_queue = q_new (circ D) DefaultStreamBufferSize,
            st_stale = []\<rparr>]\<rparr>)"

definition NewStream ::
    "('c, 'q, 'pl, 'bl) deps \<Rightarrow> uint16 \<Rightarrow> ('c, 'q, 'pl, 'bl, 'h) async \<Rightarrow> nat \<times> ('c, 'q, 'pl, 'bl, 'h) async" where
  "NewStream D sid a =
     (case map_of (streams a) sid of
        Some s \<Rightarrow> (s, a)
      | None \<Rightarrow> (let (s, a) = newStream D sid a in (s, a\<lparr>streams := AList.update sid s (streams a)\<rparr>)))"

text \<open>Dereferencing a stream pointer; a pointer outside the store would be nil.\<close>

definition stream_at :: "('c, 'q, 'pl, 'bl, 'h) async \<Rightarrow> nat \<Rightarrow> ('c, 'q) stream option" where
  "stream_at a s = (if s < length (stream_objs a) then Some (stream_objs a ! s) else None)"

definition set_stream ::
    "nat \<Rightarrow> ('c, 'q) stream \<Rightarrow> ('c, 'q, 'pl, 'bl, 'h) async \<Rightarrow> ('c, 'q, 'pl, 'bl, 'h) async" where
  "set_stream s st a = a\<lparr>stream_objs := (stream_objs a)[s := st]\<rparr>"

text \<open>\<^verbatim>\<open>queue.Close()\<close> and \<^verbatim>\<open>stale = queue.Drain()\<close>, guarded by the swap of \<open>closed\<close>.\<close>

definition shut_stream :: "('c, 'q, 'pl, 'bl) deps \<Rightarrow> ('c, 'q) stream \<Rightarrow> ('c, 'q) stream" where
  "shut_stream D st =
     (let (ps, q) = q_drain (circ D) (q_close (circ D) (st_queue st))
      in st\<lparr>st_closed := True, st_queue := q, st_stale := ps\<rparr>)"

definition Stream_close ::
    "('c, 'q, 'pl, 'bl) deps \<Rightarrow> nat \<Rightarrow> ('c, 'q, 'pl, 'bl, 'h) async \<Rightarrow> ('c, 'q, 'pl, 'bl, 'h) async option" where
  "Stream_close D s a = do {
     st \<leftarrow> stream_at a s;
     Some (if \<not> st_closed st then set_stream s (shut_stream D st) a else a)
   }"

text \<open>
  \<open>closeSend\<close> with the packet writer as an argument. The close packet comes from the pool with
  no content and a zero content length.
\<close>

definition closeSend_with ::
    "('c packet \<Rightarrow> ('c, 'q, 'pl, 'bl, 'h) async \<Rightarrow> (goerror option \<times> ('c, 'q, 'pl, 'bl, 'h) async) option)
      \<Rightarrow> ('c, 'q, 'pl, 'bl) deps \<Rightarrow> bool \<Rightarrow> nat
      \<Rightarrow> ('c, 'q, 'pl, 'bl, 'h) async \<Rightarrow> (goerror option \<times> ('c, 'q, 'pl, 'bl, 'h) async) option" where
  "closeSend_with wp D lock s a = do {
     st \<leftarrow> stream_at a s;
     (if st_closed st then Some (Some StreamClosed, a)
      else do {
        let a = set_stream s (shut_stream D st) a;
        let (p, pl) = Get (pkt_pool D) (packets a);
        let p = p\<lparr>Metadata := (Metadata p)\<lparr>PacketId := st_id st, Operation := STREAM\<rparr>\<rparr>;
        (err, a) \<leftarrow> wp p (a\<lparr>packets := pl\<rparr>);
        let a = a\<lparr>packets := Put (poly D) (pkt_pool D) p (packets a)\<rparr>;
        Some (err, if lock then a\<lparr>streams := AList.delete (st_id st) (streams a)\<rparr> else a)
      })
   }"

section \<open>Closing\<close>

text \<open>
  While a connection closes, its streams are told to close as well; \<open>closed\<close> is already set, so
  their close packets stop at the closed check of \<open>writePacket\<close>. The writer used there
  therefore needs no way to close the connection, and \<open>no_close\<close> stands in for it.
\<close>

definition no_close :: "goerror \<Rightarrow> 's \<Rightarrow> (goerror option \<times> 's) option" where
  "no_close err a = Some (Some err, a)"

fun close_streams ::
    "('c, 'q, 'pl, 'bl) deps \<Rightarrow> nat list \<Rightarrow> ('c, 'q, 'pl, 'bl, 'h) async \<Rightarrow> ('c, 'q, 'pl, 'bl, 'h) async option" where
  "close_streams D [] a = Some a"
| "close_streams D (s # ss) a = do {
     (_, a) \<leftarrow> closeSend_with (writePacket_with no_close D id True) D False s a;
     close_streams D ss a
   }"

text \<open>
  \<open>close\<close>: closing a channel twice panics. After the channels and the queue are closed and the
  deadline has passed the three goroutines leave their loops, which is when \<^verbatim>\<open>wg.Wait()\<close>
  returns; here that is one step, and the interleavings are the subject of another theory.
\<close>

definition close_begin ::
    "('c, 'q, 'pl, 'bl) deps \<Rightarrow> ('c, 'q, 'pl, 'bl, 'h) async \<Rightarrow> ('c, 'q, 'pl, 'bl, 'h) async option" where
  "close_begin D a =
     (if closeCh_closed a \<or> flushCh_closed a then None
      else Some (a\<lparr>a_closed := True, incoming := q_close (circ D) (incoming a), closeCh_closed := True,
                  flushCh_closed := True, a_conn := snd (conn_SetDeadline (a_conn a))\<rparr>))"

definition final_flush ::
    "('c, 'q, 'pl, 'bl, 'h) async \<Rightarrow> ('c, 'q, 'pl, 'bl, 'h) async" where
  "final_flush a =
     (if 0 < Buffered (a_writer a)
      then (let nc = snd (conn_SetDeadline (a_conn a));
                (e, w, nc) = bufw_Flush (a_writer a, nc);
                nc = snd (conn_SetDeadline nc)
            in a\<lparr>a_writer := w, a_conn := nc\<rparr>)
      else a)"

definition close ::
    "('c, 'q, 'pl, 'bl) deps \<Rightarrow> ('c, 'q, 'pl, 'bl, 'h) async
      \<Rightarrow> (goerror option \<times> ('c, 'q, 'pl, 'bl, 'h) async) option" where
  "close D a =
     (if \<not> a_closed a
      then do {
        a \<leftarrow> close_begin D a;
        let a = a\<lparr>a_wg := 0\<rparr>;
        let a = a\<lparr>a_conn := snd (conn_SetDeadline (a_conn a))\<rparr>;
        let (ps, q) = q_drain (circ D) (incoming a);
        let a = a\<lparr>a_stale := ps, incoming := q\<rparr>;
        a \<leftarrow> close_streams D (map snd (streams a)) a;
        Some (None, final_flush a)
      }
      else Some (Some ConnectionClosed, a))"

definition closeWithError ::
    "('c, 'q, 'pl, 'bl) deps \<Rightarrow> goerror \<Rightarrow> ('c, 'q, 'pl, 'bl, 'h) async
      \<Rightarrow> (goerror option \<times> ('c, 'q, 'pl, 'bl, 'h) async) option" where
  "closeWithError D err a = do {
     (closeError, a) \<leftarrow> close D (a\<lparr>a_error := Some err\<rparr>);
     (case closeError of
        Some ce \<Rightarrow> Some (Some (Joined ce err), a\<lparr>a_error := Some (Joined ce err)\<rparr>)
      | None \<Rightarrow> Some (Some err, a\<lparr>a_conn := conn_Close (a_conn a)\<rparr>))
   }"

definition Async_Close ::
    "('c, 'q, 'pl, 'bl) deps \<Rightarrow> ('c, 'q, 'pl, 'bl, 'h) async
      \<Rightarrow> (goerror option \<times> ('c, 'q, 'pl, 'bl, 'h) async) option" where
  "Async_Close D a = do {
     (err, a) \<leftarrow> close D a;
     (case err of
        Some e \<Rightarrow> if errors_Is e ConnectionClosed then Some (None, a)
                  else Some (Some e, a\<lparr>a_conn := conn_Close (a_conn a)\<rparr>)
      | None \<Rightarrow> Some (None, a\<lparr>a_conn := conn_Close (a_conn a)\<rparr>))
   }"

definition Async_Raw ::
    "('c, 'q, 'pl, 'bl) deps \<Rightarrow> ('c, 'q, 'pl, 'bl, 'h) async
      \<Rightarrow> (netconn \<times> ('c, 'q, 'pl, 'bl, 'h) async) option" where
  "Async_Raw D a = do { (_, a) \<leftarrow> close D a; Some (a_conn a, a) }"

section \<open>The operations that may close the connection\<close>

definition writePacket ::
    "('c, 'q, 'pl, 'bl) deps \<Rightarrow> (('c, 'q, 'pl, 'bl, 'h) async \<Rightarrow> ('c, 'q, 'pl, 'bl, 'h) async) \<Rightarrow> bool
      \<Rightarrow> 'c packet \<Rightarrow> ('c, 'q, 'pl, 'bl, 'h) async \<Rightarrow> (goerror option \<times> ('c, 'q, 'pl, 'bl, 'h) async) option" where
  "writePacket D race closeOnErr p a = writePacket_with (closeWithError D) D race closeOnErr p a"

definition Async_WritePacket ::
    "('c, 'q, 'pl, 'bl) deps \<Rightarrow> (('c, 'q, 'pl, 'bl, 'h) async \<Rightarrow> ('c, 'q, 'pl, 'bl, 'h) async)
      \<Rightarrow> 'c packet \<Rightarrow> ('c, 'q, 'pl, 'bl, 'h) async \<Rightarrow> (goerror option \<times> ('c, 'q, 'pl, 'bl, 'h) async) option" where
  "Async_WritePacket D race p a =
     (if Operation (Metadata p) \<le> RESERVED9 then Some (Some InvalidOperation, a)
      else writePacket D race True p a)"

definition Async_Flush ::
    "('c, 'q, 'pl, 'bl) deps \<Rightarrow> ('c, 'q, 'pl, 'bl, 'h) async
      \<Rightarrow> (goerror option \<times> ('c, 'q, 'pl, 'bl, 'h) async) option" where
  "Async_Flush D a =
     (case flush a of
        (Some err, a) \<Rightarrow> closeWithError D err a
      | (None, a) \<Rightarrow> Some (None, a))"

definition closeSend ::
    "('c, 'q, 'pl, 'bl) deps \<Rightarrow> bool \<Rightarrow> nat \<Rightarrow> ('c, 'q, 'pl, 'bl, 'h) async
      \<Rightarrow> (goerror option \<times> ('c, 'q, 'pl, 'bl, 'h) async) option" where
  "closeSend D lock s a = closeSend_with (writePacket D id True) D lock s a"

definition Stream_Close ::
    "('c, 'q, 'pl, 'bl) deps \<Rightarrow> nat \<Rightarrow> ('c, 'q, 'pl, 'bl, 'h) async
      \<Rightarrow> (goerror option \<times> ('c, 'q, 'pl, 'bl, 'h) async) option" where
  "Stream_Close D s a = closeSend D True s a"

text \<open>The packet is the caller's: it is updated in place and returned.\<close>

definition Stream_WritePacket ::
    "('c, 'q, 'pl, 'bl) deps \<Rightarrow> (('c, 'q, 'pl, 'bl, 'h) async \<Rightarrow> ('c, 'q, 'pl, 'bl, 'h) async) \<Rightarrow> nat
      \<Rightarrow> 'c packet \<Rightarrow> ('c, 'q, 'pl, 'bl, 'h) async
      \<Rightarrow> (goerror option \<times> 'c packet \<times> ('c, 'q, 'pl, 'bl, 'h) async) option" where
  "Stream_WritePacket D race s p a = do {
     st \<leftarrow> stream_at a s;
     (if st_closed st then Some (Some StreamClosed, p, a)
      else if ContentLength (Metadata p) = 0 then Some (Some InvalidStreamPacket, p, a)
      else do {
        let p = p\<lparr>Metadata := (Metadata p)\<lparr>PacketId := st_id st, Operation := STREAM\<rparr>\<rparr>;
        (err, a) \<leftarrow> writePacket D race True p a;
        Some (err, p, a)
      })
   }"

section \<open>Reading from the queues\<close>

text \<open>
  \<open>ReadPacket\<close> of the connection and of a stream: packets left over from before the close first,
  then the error. The result \<open>Blocks\<close> when the queue is open and empty.
\<close>

definition Async_ReadPacket ::
    "('c, 'q, 'pl, 'bl) deps \<Rightarrow> (('c, 'q, 'pl, 'bl, 'h) async \<Rightarrow> ('c, 'q, 'pl, 'bl, 'h) async)
      \<Rightarrow> ('c, 'q, 'pl, 'bl, 'h) async \<Rightarrow> ((goerror + 'c packet) \<times> ('c, 'q, 'pl, 'bl, 'h) async) blocking" where
  "Async_ReadPacket D race a =
     (if a_closed a
      then (case a_stale a of
              p # ps \<Rightarrow> Returns (Inr p, a\<lparr>a_stale := ps\<rparr>)
            | [] \<Rightarrow> Returns (Inl ConnectionClosed, a))
      else (let a = race a in
            case q_pop (circ D) (incoming a) of
              Blocks \<Rightarrow> Blocks
            | Returns (Inl err, q) \<Rightarrow>
                (let a = a\<lparr>incoming := q\<rparr> in
                 if a_closed a
                 then (case a_stale a of
                         p # ps \<Rightarrow> Returns (Inr p, a\<lparr>a_stale := ps\<rparr>)
                       | [] \<Rightarrow> Returns (Inl ConnectionClosed, a))
                 else Returns (Inl err, a))
            | Returns (Inr p, q) \<Rightarrow> Returns (Inr p, a\<lparr>incoming := q\<rparr>)))"

definition Stream_ReadPacket ::
    "('c, 'q, 'pl, 'bl) deps \<Rightarrow> (('c, 'q) stream \<Rightarrow> ('c, 'q) stream) \<Rightarrow> ('c, 'q) stream
      \<Rightarrow> ((goerror + 'c packet) \<times> ('c, 'q) stream) blocking" where
  "Stream_ReadPacket D race st =
     (if st_closed st
      then (case st_stale st of
              p # ps \<Rightarrow> Returns (Inr p, st\<lparr>st_stale := ps\<rparr>)
            | [] \<Rightarrow> Returns (Inl StreamClosed, st))
      else (let st = race st in
            case q_pop (circ D) (st_queue st) of
              Blocks \<Rightarrow> Blocks
            | Returns (Inl err, q) \<Rightarrow>
                (let st = st\<lparr>st_queue := q\<rparr> in
                 if st_closed st
                 then (case st_stale st of
                         p # ps \<Rightarrow> Returns (Inr p, st\<lparr>st_stale := ps\<rparr>)
                       | [] \<Rightarrow> Returns (Inl StreamClosed, st))
                 else Returns (Inl err, st))
            | Returns (Inr p, q) \<Rightarrow> Returns (Inr p, st\<lparr>st_queue := q\<rparr>)))"

section \<open>The flush and ping goroutines\<close>

text \<open>
  One iteration of a goroutine's loop. \<open>Waiting\<close>: it is blocked on its channel; \<open>Goes_on\<close>: it
  loops; \<open>Left\<close>: it returned, after \<^verbatim>\<open>wg.Done()\<close> and, on an error, \<open>closeWithError\<close>.
\<close>

datatype progress = Waiting | Goes_on | Left

definition leave_with ::
    "('c, 'q, 'pl, 'bl) deps \<Rightarrow> goerror \<Rightarrow> ('c, 'q, 'pl, 'bl, 'h) async
      \<Rightarrow> (progress \<times> ('c, 'q, 'pl, 'bl, 'h) async) option" where
  "leave_with D err a = do { a \<leftarrow> wg_Done a; (_, a) \<leftarrow> closeWithError D err a; Some (Left, a) }"

definition flushLoop_step ::
    "('c, 'q, 'pl, 'bl) deps \<Rightarrow> ('c, 'q, 'pl, 'bl, 'h) async
      \<Rightarrow> (progress \<times> ('c, 'q, 'pl, 'bl, 'h) async) option" where
  "flushLoop_step D a =
     (if 0 < flushCh a
      then (case flush (a\<lparr>flushCh := flushCh a - 1\<rparr>) of
              (Some err, a) \<Rightarrow> leave_with D err a
            | (None, a) \<Rightarrow> Some (Goes_on, a))
      else if flushCh_closed a then do { a \<leftarrow> wg_Done a; Some (Left, a) }
      else Some (Waiting, a))"

text \<open>
  The select of the ping loop: \<open>tick\<close> says whether the ticker has fired, and \<open>pick_close\<close> which
  case is taken when both are ready.
\<close>

definition pingLoop_step ::
    "('c, 'q, 'pl, 'bl) deps \<Rightarrow> (('c, 'q, 'pl, 'bl, 'h) async \<Rightarrow> ('c, 'q, 'pl, 'bl, 'h) async) \<Rightarrow> bool \<Rightarrow> bool
      \<Rightarrow> ('c, 'q, 'pl, 'bl, 'h) async \<Rightarrow> (progress \<times> ('c, 'q, 'pl, 'bl, 'h) async) option" where
  "pingLoop_step D race tick pick_close a =
     (if closeCh_closed a \<and> (\<not> tick \<or> pick_close) then do { a \<leftarrow> wg_Done a; Some (Left, a) }
      else if tick
      then do {
        (err, a) \<leftarrow> writePacket D race False (PINGPacket (poly D)) a;
        (case err of Some e \<Rightarrow> leave_with D e a | None \<Rightarrow> Some (Goes_on, a))
      }
      else Some (Waiting, a))"

end
