(* ===== verification/Async_Inv.thy ===== *)
theory Async_Inv
  imports Async_Conn
begin

text \<open>
  The invariant of the asynchronous connection and its preservation by every operation, with
  what each operation does on every branch. The last section has an
  instance of the modules on which all requirements hold.
\<close>

section \<open>Requirements and invariant\<close>

definition deps_ok ::
    "('c, 'q, 'pl, 'bl) deps \<Rightarrow> ('q, 'c packet) queue_view \<Rightarrow> ('pl \<Rightarrow> bool) \<Rightarrow> ('bl \<Rightarrow> bool) \<Rightarrow> bool" where
  "deps_ok D V I J \<longleftrightarrow> polyglot_ok (poly D) \<and> pool_ok (pkt_pool D) (clean_packet (poly D)) I \<and>
     pool_ok (buf_pool D) is_buffer J \<and> circular_ok (circ D) V"

text \<open>Channels, pools and the incoming queue agree with the \<open>closed\<close> flag.\<close>

definition core_inv ::
    "('q, 'c packet) queue_view \<Rightarrow> ('pl \<Rightarrow> bool) \<Rightarrow> ('bl \<Rightarrow> bool) \<Rightarrow> ('c, 'q, 'pl, 'bl, 'h) async \<Rightarrow> bool" where
  "core_inv V I J a \<longleftrightarrow> closeCh_closed a = a_closed a \<and> flushCh_closed a = a_closed a \<and>
     flushCh a \<le> 1 \<and> I (packets a) \<and> J (buffers a) \<and>
     q_closed V (incoming a) = a_closed a \<and>
     (a_closed a \<longrightarrow> items V (incoming a) = []) \<and> (\<not> a_closed a \<longrightarrow> a_stale a = [])"

definition stream_inv :: "('q, 'c packet) queue_view \<Rightarrow> ('c, 'q) stream \<Rightarrow> bool" where
  "stream_inv V st \<longleftrightarrow> q_closed V (st_queue st) = st_closed st \<and>
     (st_closed st \<longrightarrow> items V (st_queue st) = []) \<and> (\<not> st_closed st \<longrightarrow> st_stale st = [])"

text \<open>The stream table maps each identifier to a stream of the store that has it.\<close>

definition streams_inv ::
    "('q, 'c packet) queue_view \<Rightarrow> ('c, 'q, 'pl, 'bl, 'h) async \<Rightarrow> bool" where
  "streams_inv V a \<longleftrightarrow> distinct (map fst (streams a)) \<and>
     (\<forall>(k, s)\<in>set (streams a). s < length (stream_objs a) \<and> st_id (stream_objs a ! s) = k) \<and>
     (\<forall>st\<in>set (stream_objs a). stream_inv V st)"

text \<open>Bytes in the write buffer of an open, healthy connection have a flush scheduled.\<close>

definition flush_scheduled :: "('c, 'q, 'pl, 'bl, 'h) async \<Rightarrow> bool" where
  "flush_scheduled a \<longleftrightarrow>
     (\<not> a_closed a \<longrightarrow> werr (a_writer a) = None \<longrightarrow> 0 < Buffered (a_writer a) \<longrightarrow> 0 < flushCh a)"

definition pre_inv ::
    "('q, 'c packet) queue_view \<Rightarrow> ('pl \<Rightarrow> bool) \<Rightarrow> ('bl \<Rightarrow> bool) \<Rightarrow> ('c, 'q, 'pl, 'bl, 'h) async \<Rightarrow> bool" where
  "pre_inv V I J a \<longleftrightarrow> core_inv V I J a \<and> streams_inv V a"

definition async_inv ::
    "('q, 'c packet) queue_view \<Rightarrow> ('pl \<Rightarrow> bool) \<Rightarrow> ('bl \<Rightarrow> bool) \<Rightarrow> ('c, 'q, 'pl, 'bl, 'h) async \<Rightarrow> bool" where
  "async_inv V I J a \<longleftrightarrow> pre_inv V I J a \<and> flush_scheduled a"

text \<open>What was sent to the network or waits in the write buffer.\<close>

definition a_out :: "('c, 'q, 'pl, 'bl, 'h) async \<Rightarrow> byte list" where
  "a_out a = bufw_out (a_writer a, a_conn a)"

lemmas inv_defs = async_inv_def pre_inv_def core_inv_def streams_inv_def flush_scheduled_def

lemma async_inv_pre: "async_inv V I J a \<Longrightarrow> pre_inv V I J a"
  by (simp add: async_inv_def)

lemma deps_okD:
  assumes "deps_ok D V I J"
  shows "polyglot_ok (poly D)" and "pool_ok (pkt_pool D) (clean_packet (poly D)) I"
    and "pool_ok (buf_pool D) is_buffer J" and "circular_ok (circ D) V"
  using assms by (simp_all add: deps_ok_def)

lemma inv_NewAsync:
  assumes "deps_ok D V I J" and "I pl" and "J bl"
  shows "async_inv V I J (NewAsync D c hs pl bl)"
  using assms deps_okD(4) [OF assms(1)]
  by (simp add: inv_defs NewAsync_def circular_simps NewWriterSize_def Buffered_def)

section \<open>Network calls and the output\<close>

lemma sent_SetDeadline [simp]: "sent (snd (conn_SetDeadline c)) = sent c"
  using conn_SetDeadline_frame by (metis prod.collapse)

lemma sent_conn_Close [simp]: "sent (conn_Close c) = sent c"
  by (simp add: conn_Close_def)

lemma a_out_conn:
  "sent nc = sent (a_conn a) \<Longrightarrow> a_out (a\<lparr>a_conn := nc\<rparr>) = a_out a"
  by (simp add: a_out_def bufw_out_def)

lemma bufw_Flush_out:
  "bufw_Flush (w, c) = (e, w', c') \<Longrightarrow> bufw_out (w', c') = bufw_out (w, c)"
  using bufw_Flush_cases(1) by (fastforce simp: bufw_out_def)

section \<open>Writes on a closed connection\<close>

lemma writePacket_closed:
  assumes "deps_ok D V I J" and "J (buffers a)" and "a_closed a"
  obtains e bl where "writePacket_with cwe D race c p a = Some (Some e, a\<lparr>buffers := bl\<rparr>)" and "J bl"
    and "sendable (poly D) (maxLen D) p \<Longrightarrow> e = ConnectionClosed"
proof (cases "sendable (poly D) (maxLen D) p")
  case False
  then show ?thesis
    using that [of "if unat (ContentLength (Metadata p)) \<noteq> pg_len (poly D) (Content p)
      then InvalidContentLength else ContentLengthExceeded" "buffers a"] assms(2)
    by (auto simp: writePacket_with_def sendable_def Let_def)
next
  case True
  obtain b bl where b: "GetBuffer (buf_pool D) (buffers a) = (b, bl)"
    by (cases "GetBuffer (buf_pool D) (buffers a)")
  then have "is_buffer b" "J bl"
    using GetBuffer_is_buffer [OF deps_okD(3) [OF assms(1)] assms(2)] by auto
  then show ?thesis
    using that [of ConnectionClosed bl] True b assms(3)
    by (auto simp: writePacket_with_def sendable_def Let_def)
qed

section \<open>Closing the streams\<close>

lemma shut_stream_inv:
  assumes "circular_ok (circ D) V"
  shows "stream_inv V (shut_stream D st)" and "st_id (shut_stream D st) = st_id st"
    and "st_closed (shut_stream D st)" and "st_stale (shut_stream D st) = items V (st_queue st)"
  using assms by (simp_all add: shut_stream_def stream_inv_def circular_simps split_beta)

lemma stream_at_Some: "stream_at a s = Some st \<longleftrightarrow> s < length (stream_objs a) \<and> st = stream_objs a ! s"
  by (auto simp: stream_at_def)

lemma streams_inv_set_stream:
  assumes "streams_inv V a" and "stream_at a s = Some st" and "stream_inv V st'" and "st_id st' = st_id st"
  shows "streams_inv V (set_stream s st' a)"
proof -
  have "st_id ((stream_objs a)[s := st'] ! i) = st_id (stream_objs a ! i)"
    if "i < length (stream_objs a)" for i
    using that assms(2,4) by (cases "i = s") (auto simp: stream_at_Some)
  moreover have "\<forall>x\<in>set ((stream_objs a)[s := st']). stream_inv V x"
    using assms(1,3) set_update_subset_insert [of "stream_objs a" s st'] by (auto simp: streams_inv_def)
  ultimately show ?thesis
    using assms(1) by (auto simp: streams_inv_def set_stream_def)
qed

text \<open>
  Telling one stream of a closed connection to close touches the stream store and the pools
  only; the stream is closed afterwards and keeps its undelivered packets as stale.
\<close>

lemma closeSend_closed:
  assumes "deps_ok D V I J" and "I (packets a)" and "J (buffers a)" and "a_closed a"
    and "s < length (stream_objs a)" and "streams_inv V a"
  obtains e a' where "closeSend_with (writePacket_with cwe D race True) D False s a = Some (e, a')"
    and "a' = a\<lparr>stream_objs := stream_objs a', packets := packets a', buffers := buffers a'\<rparr>"
    and "I (packets a')" and "J (buffers a')" and "streams_inv V a'"
    and "stream_objs a' = (if st_closed (stream_objs a ! s) then stream_objs a
           else (stream_objs a)[s := shut_stream D (stream_objs a ! s)])"
proof (cases "st_closed (stream_objs a ! s)")
  case True
  then show ?thesis
    using that [of "Some StreamClosed" a] assms by (simp add: closeSend_with_def stream_at_def)
next
  case False
  let ?st = "stream_objs a ! s"
  let ?a1 = "set_stream s (shut_stream D ?st) a"
  obtain p pl where g: "Get (pkt_pool D) (packets a) = (p, pl)"
    by (cases "Get (pkt_pool D) (packets a)")
  then have pl: "I pl" "clean_packet (poly D) p"
    using Get_clean [OF deps_okD(2) [OF assms(1)] assms(2)] by auto
  define q where "q = p\<lparr>Metadata := (Metadata p)\<lparr>PacketId := st_id ?st, Operation := STREAM\<rparr>\<rparr>"
  have pre: "J (buffers (?a1\<lparr>packets := pl\<rparr>))" "a_closed (?a1\<lparr>packets := pl\<rparr>)"
    using assms(3,4) by (simp_all add: set_stream_def)
  obtain e bl where w: "writePacket_with cwe D race True q (?a1\<lparr>packets := pl\<rparr>)
      = Some (Some e, ?a1\<lparr>packets := pl, buffers := bl\<rparr>)" "J bl"
    by (rule writePacket_closed [OF assms(1) pre])
  have "streams_inv V ?a1"
    by (rule streams_inv_set_stream [OF assms(6)])
      (use assms(5) shut_stream_inv [OF deps_okD(4) [OF assms(1)]] in \<open>auto simp: stream_at_def\<close>)
  then show ?thesis
    using that [of "Some e" "?a1\<lparr>packets := Put (poly D) (pkt_pool D) q pl, buffers := bl\<rparr>"]
      False assms(5) g w Put_keeps [OF deps_okD(1,2) [OF assms(1)] pl(1)]
    by (simp add: closeSend_with_def stream_at_def set_stream_def q_def streams_inv_def)
qed

lemma close_streams_spec:
  assumes "deps_ok D V I J" and "I (packets a)" and "J (buffers a)" and "a_closed a"
    and "\<forall>s\<in>set ss. s < length (stream_objs a)" and "streams_inv V a"
  obtains a' where "close_streams D ss a = Some a'"
    and "a' = a\<lparr>stream_objs := stream_objs a', packets := packets a', buffers := buffers a'\<rparr>"
    and "I (packets a')" and "J (buffers a')" and "streams_inv V a'"
    and "length (stream_objs a') = length (stream_objs a)"
    and "\<forall>i<length (stream_objs a). stream_objs a' ! i =
           (if i \<in> set ss \<and> \<not> st_closed (stream_objs a ! i) then shut_stream D (stream_objs a ! i)
            else stream_objs a ! i)"
  using assms(2-6)
proof (induction ss arbitrary: a thesis)
  case Nil
  then show ?case by simp
next
  case (Cons s ss)
  obtain e a1 where 1: "closeSend_with (writePacket_with no_close D id True) D False s a = Some (e, a1)"
    "a1 = a\<lparr>stream_objs := stream_objs a1, packets := packets a1, buffers := buffers a1\<rparr>"
    "I (packets a1)" "J (buffers a1)" "streams_inv V a1"
    "stream_objs a1 = (if st_closed (stream_objs a ! s) then stream_objs a
           else (stream_objs a)[s := shut_stream D (stream_objs a ! s)])"
    using closeSend_closed [OF assms(1) Cons.prems(2-4) _ Cons.prems(6), of s no_close id] Cons.prems(5)
    by auto
  have c1: "a_closed a1"
    using 1(2) Cons.prems(4) by (metis async.select_convs(2) async.surjective async.update_convs(12,15,16))
  have l1: "length (stream_objs a1) = length (stream_objs a)"
    using 1(6) by simp
  have cl: "st_closed (shut_stream D st)" for st
    using shut_stream_inv(3) [OF deps_okD(4) [OF assms(1)]] .
  show ?case
  proof (rule Cons.IH [of a1, OF _ 1(3,4) c1 _ 1(5)])
    show "\<forall>x\<in>set ss. x < length (stream_objs a1)"
      using Cons.prems(5) l1 by simp
  next
    fix a2
    assume a2: "close_streams D ss a1 = Some a2"
      "a2 = a1\<lparr>stream_objs := stream_objs a2, packets := packets a2, buffers := buffers a2\<rparr>"
      "I (packets a2)" "J (buffers a2)" "streams_inv V a2"
      "length (stream_objs a2) = length (stream_objs a1)"
      "\<forall>i<length (stream_objs a1). stream_objs a2 ! i =
         (if i \<in> set ss \<and> \<not> st_closed (stream_objs a1 ! i) then shut_stream D (stream_objs a1 ! i)
          else stream_objs a1 ! i)"
    have eq: "a2 = a\<lparr>stream_objs := stream_objs a2, packets := packets a2, buffers := buffers a2\<rparr>"
      using a2(2) by (subst (asm) 1(2)) simp
    have "\<forall>i<length (stream_objs a). stream_objs a2 ! i =
         (if i \<in> set (s # ss) \<and> \<not> st_closed (stream_objs a ! i) then shut_stream D (stream_objs a ! i)
          else stream_objs a ! i)"
      using a2(7) l1 1(6) cl Cons.prems(5) by (auto simp: nth_list_update)
    with a2 eq l1 show thesis
      using Cons.prems(1) [of a2] 1(1) by simp
  qed
qed

section \<open>Closing the connection\<close>

lemma final_flush_frame:
  "final_flush a = a\<lparr>a_writer := a_writer (final_flush a), a_conn := a_conn (final_flush a)\<rparr>"
  by (simp add: final_flush_def Let_def split_beta)

lemma final_flush_out: "a_out (final_flush a) = a_out a"
proof (cases "0 < Buffered (a_writer a)")
  case True
  obtain e w nc where f: "bufw_Flush (a_writer a, snd (conn_SetDeadline (a_conn a))) = (e, w, nc)"
    by (cases "bufw_Flush (a_writer a, snd (conn_SetDeadline (a_conn a)))")
  then have "sent nc @ wbuf w = sent (a_conn a) @ wbuf (a_writer a)"
    using bufw_Flush_cases(1) [OF f] by simp
  with True f show ?thesis
    by (simp add: final_flush_def a_out_def bufw_out_def)
qed (simp add: final_flush_def)

lemma close_closed [simp]: "a_closed a \<Longrightarrow> close D a = Some (Some ConnectionClosed, a)"
  by (simp add: close_def)

text \<open>
  The first close succeeds. It keeps the bytes that were sent or buffered, moves the
  undelivered packets to the stale list and closes every registered stream.
\<close>

lemma close_open:
  assumes "deps_ok D V I J" and "pre_inv V I J a" and "\<not> a_closed a"
  obtains a' where "close D a = Some (None, a')" and "async_inv V I J a'" and "a_closed a'"
    and "a_stale a' = items V (incoming a)" and "a_out a' = a_out a" and "a_error a' = a_error a"
    and "streams a' = streams a" and "spawned a' = spawned a" and "newStreamHandler a' = newStreamHandler a"
    and "length (stream_objs a') = length (stream_objs a)"
    and "\<forall>(k, s)\<in>set (streams a). st_closed (stream_objs a' ! s) \<and>
           (\<not> st_closed (stream_objs a ! s) \<longrightarrow>
              st_stale (stream_objs a' ! s) = items V (st_queue (stream_objs a ! s)))"
    and "a_wg a' = 0"
proof -
  let ?C = "circ D"
  note circ = circular_simps [OF deps_okD(4) [OF assms(1)]]
  note inv = assms(2) [unfolded inv_defs]
  define b where "b = a\<lparr>a_closed := True, closeCh_closed := True, flushCh_closed := True, a_wg := 0,
    a_conn := snd (conn_SetDeadline (snd (conn_SetDeadline (a_conn a)))),
    a_stale := fst (q_drain ?C (q_close ?C (incoming a))),
    incoming := snd (q_drain ?C (q_close ?C (incoming a)))\<rparr>"
  have b: "I (packets b)" "J (buffers b)" "a_closed b" "streams_inv V b"
      "\<forall>s\<in>set (map snd (streams b)). s < length (stream_objs b)"
    using inv by (auto simp: b_def streams_inv_def)
  obtain d where d: "close_streams D (map snd (streams b)) b = Some d"
    "d = b\<lparr>stream_objs := stream_objs d, packets := packets d, buffers := buffers d\<rparr>"
    "I (packets d)" "J (buffers d)" "streams_inv V d" "length (stream_objs d) = length (stream_objs b)"
    "\<forall>i<length (stream_objs b). stream_objs d ! i =
       (if i \<in> set (map snd (streams b)) \<and> \<not> st_closed (stream_objs b ! i)
        then shut_stream D (stream_objs b ! i) else stream_objs b ! i)"
    by (rule close_streams_spec [OF assms(1) b(1-3) b(5,4)])
  let ?f = "final_flush d"
  have close: "close D a = Some (None, ?f)"
    using assms(3) inv d(1) by (simp add: close_def close_begin_def b_def Let_def split_beta)
  have fd: "a_closed ?f" "incoming ?f = incoming b" "a_stale ?f = items V (incoming a)"
      "closeCh_closed ?f" "flushCh_closed ?f" "flushCh ?f = flushCh a" "packets ?f = packets d"
      "buffers ?f = buffers d" "streams ?f = streams a" "stream_objs ?f = stream_objs d"
      "a_error ?f = a_error a" "spawned ?f = spawned a" "newStreamHandler ?f = newStreamHandler a"
      "a_wg ?f = 0"
    by (subst final_flush_frame, subst d(2), simp add: b_def circ)+
  have sd: "streams d = streams a"
    by (subst d(2)) (simp add: b_def)
  have "async_inv V I J ?f"
    using fd d(3-5) inv sd by (simp add: inv_defs b_def circ)
  moreover have "a_out ?f = a_out a"
    by (subst final_flush_out, subst d(2)) (simp add: a_out_def bufw_out_def b_def)
  moreover have "st_closed (stream_objs ?f ! s) \<and> (\<not> st_closed (stream_objs a ! s) \<longrightarrow>
      st_stale (stream_objs ?f ! s) = items V (st_queue (stream_objs a ! s)))"
    if "(k, s) \<in> set (streams a)" for k s
  proof -
    have s: "s \<in> set (map snd (streams b))" "s < length (stream_objs b)" "stream_objs b = stream_objs a"
      using that inv by (auto simp: b_def image_iff intro!: bexI [of _ "(k, s)"])
    then have "stream_objs d ! s = (if st_closed (stream_objs a ! s) then stream_objs a ! s
        else shut_stream D (stream_objs a ! s))"
      using d(7) by simp
    then show ?thesis
      using shut_stream_inv(3,4) [OF deps_okD(4) [OF assms(1)]] fd(10) by simp
  qed
  ultimately show thesis
    using that [of ?f] close fd d(6) by (fastforce simp: b_def)
qed

lemma inv_error [simp]:
  "async_inv V I J (a\<lparr>a_error := e\<rparr>) = async_inv V I J a"
  "async_inv V I J (a\<lparr>a_conn := c\<rparr>) = async_inv V I J a"
  "async_inv V I J (a\<lparr>newStreamHandler := h\<rparr>) = async_inv V I J a"
  "async_inv V I J (a\<lparr>a_wg := n\<rparr>) = async_inv V I J a"
  by (simp_all add: inv_defs)

lemma closeWithError_closed:
  "a_closed a \<Longrightarrow> closeWithError D err a =
     Some (Some (Joined ConnectionClosed err), a\<lparr>a_error := Some (Joined ConnectionClosed err)\<rparr>)"
  by (simp add: closeWithError_def)

lemma closeWithError_open:
  assumes "deps_ok D V I J" and "pre_inv V I J a" and "\<not> a_closed a"
  obtains a' where "closeWithError D err a = Some (Some err, a')" and "async_inv V I J a'"
    and "a_closed a'" and "a_error a' = Some err" and "shut (a_conn a')" and "a_out a' = a_out a"
    and "a_stale a' = items V (incoming a)"
proof -
  have "pre_inv V I J (a\<lparr>a_error := Some err\<rparr>)" and "\<not> a_closed (a\<lparr>a_error := Some err\<rparr>)"
    using assms(2,3) by (simp_all add: inv_defs)
  then obtain b where "close D (a\<lparr>a_error := Some err\<rparr>) = Some (None, b)" "async_inv V I J b"
    "a_closed b" "a_stale b = items V (incoming (a\<lparr>a_error := Some err\<rparr>))"
    "a_out b = a_out (a\<lparr>a_error := Some err\<rparr>)" "a_error b = a_error (a\<lparr>a_error := Some err\<rparr>)"
    by (rule close_open [OF assms(1)])
  then show thesis
    using that [of "b\<lparr>a_conn := conn_Close (a_conn b)\<rparr>"]
    by (simp add: closeWithError_def conn_Close_def a_out_def bufw_out_def)
qed

lemma closeWithError_total:
  assumes "deps_ok D V I J" and "async_inv V I J a"
  obtains e a' where "closeWithError D err a = Some (Some e, a')" and "async_inv V I J a'"
    and "a_closed a'" and "a_out a' = a_out a"
proof (cases "a_closed a")
  case True
  then show ?thesis
    using that closeWithError_closed [OF True] assms(2) by (simp add: a_out_def)
next
  case False
  show ?thesis
    by (rule closeWithError_open [OF assms(1) async_inv_pre [OF assms(2)] False]) (rule that)
qed

lemma Async_Close_total:
  assumes "deps_ok D V I J" and "async_inv V I J a"
  obtains a' where "Async_Close D a = Some (None, a')" and "async_inv V I J a'" and "a_closed a'"
    and "a_out a' = a_out a" and "a_closed a \<Longrightarrow> a' = a"
proof (cases "a_closed a")
  case True
  then show ?thesis
    using that [of a] assms(2) by (simp add: Async_Close_def)
next
  case False
  obtain b where b: "close D a = Some (None, b)" "async_inv V I J b" "a_closed b" "a_out b = a_out a"
    by (rule close_open [OF assms(1) async_inv_pre [OF assms(2)] False])
  then show ?thesis
    using that [of "b\<lparr>a_conn := conn_Close (a_conn b)\<rparr>"] False
    by (simp add: Async_Close_def a_out_def bufw_out_def)
qed

section \<open>Writing a packet\<close>

text \<open>What other goroutines may do meanwhile: nothing, or close the connection.\<close>

definition race_closes ::
    "('q, 'c packet) queue_view \<Rightarrow> ('pl \<Rightarrow> bool) \<Rightarrow> ('bl \<Rightarrow> bool)
      \<Rightarrow> (('c, 'q, 'pl, 'bl, 'h) async \<Rightarrow> ('c, 'q, 'pl, 'bl, 'h) async) \<Rightarrow> bool" where
  "race_closes V I J race \<longleftrightarrow> (\<forall>b. async_inv V I J b \<longrightarrow>
     race b = b \<or> (a_closed (race b) \<and> async_inv V I J (race b) \<and> a_out (race b) = a_out b))"

lemma race_closes_id: "race_closes V I J id"
  by (simp add: race_closes_def)

lemma race_closes_Close:
  "deps_ok D V I J \<Longrightarrow> race_closes V I J (\<lambda>a. snd (the (Async_Close D a)))"
  unfolding race_closes_def by (metis Async_Close_total option.sel snd_conv)

lemma write_failed_spec:
  assumes "deps_ok D V I J" and "race_closes V I J race" and "async_inv V I J a" and "\<not> a_closed a"
  obtains e a' where "write_failed (closeWithError D) race a_closed closeOnErr err a = Some (Some e, a')"
    and "async_inv V I J a'" and "a_out a' = a_out a" and "a_closed a' \<or> \<not> closeOnErr"
proof -
  have r: "async_inv V I J (race a)" "a_out (race a) = a_out a"
    using assms(2,3) by (auto simp: race_closes_def)
  show thesis
  proof (cases "a_closed (race a) \<or> \<not> closeOnErr")
    case True
    then show ?thesis
      using that [of "if a_closed (race a) then ConnectionClosed else err" "race a"] r
      by (auto simp: write_failed_def)
  next
    case False
    obtain e a' where "closeWithError D err (race a) = Some (Some e, a')" "async_inv V I J a'"
        "a_closed a'" "a_out a' = a_out (race a)"
      by (rule closeWithError_total [OF assms(1) r(1)])
    with False show ?thesis
      using that [of e a'] r by (simp add: write_failed_def)
  qed
qed

text \<open>What a successful write changes, and what it leaves alone.\<close>

definition wrote ::
    "('c, 'q, 'pl, 'bl) deps \<Rightarrow> 'c packet \<Rightarrow> ('c, 'q, 'pl, 'bl, 'h) async \<Rightarrow> ('c, 'q, 'pl, 'bl, 'h) async \<Rightarrow> bool" where
  "wrote D p a a' \<longleftrightarrow> sendable (poly D) (maxLen D) p \<and> \<not> a_closed a \<and> 0 < flushCh a' \<and>
     a_out a' = a_out a @ frame (poly D) p \<and> same_reads (a_conn a) (a_conn a') \<and>
     a' = a\<lparr>a_conn := a_conn a', a_writer := a_writer a', flushCh := flushCh a', buffers := buffers a'\<rparr>"

lemma signal_flush_open:
  assumes "\<not> flushCh_closed a"
  obtains n where "signal_flush a = Some (a\<lparr>flushCh := n\<rparr>)" and "0 < n" and "n \<le> max 1 (flushCh a)"
proof (cases "flushCh a = 0")
  case False
  then show ?thesis
    using that [of "flushCh a"] by (simp add: signal_flush_def)
qed (use that [of 1] assms in \<open>simp add: signal_flush_def\<close>)

text \<open>The invariant does not constrain the writer of a connection with a flush scheduled.\<close>

lemma inv_writer:
  assumes "async_inv V I J a" and "J bl" and "werr w \<noteq> None \<or> (0 < n \<and> n \<le> 1)" and "n \<le> 1"
  shows "async_inv V I J (a\<lparr>a_conn := c, a_writer := w, flushCh := n, buffers := bl\<rparr>)"
  using assms by (auto simp: inv_defs)

lemma inv_buffers: "async_inv V I J a \<Longrightarrow> J bl \<Longrightarrow> async_inv V I J (a\<lparr>buffers := bl\<rparr>)"
  by (simp add: inv_defs)

lemma bufw_Write_Nil: "werr w = None \<Longrightarrow> bufw_Write [] (w, c) = (None, w, c)"
  by (simp add: bufw_Write.simps)

lemma writePacket_refused:
  "\<not> sendable (poly D) (maxLen D) p \<Longrightarrow>
     writePacket_with cwe D race closeOnErr p a =
       Some (Some (if unat (ContentLength (Metadata p)) \<noteq> pg_len (poly D) (Content p)
                   then InvalidContentLength else ContentLengthExceeded), a)"
  by (auto simp: writePacket_with_def sendable_def Let_def)

text \<open>
  A write that passes the guards is: set the deadline, put header and body into the writer,
  signal the flush goroutine.
\<close>

lemma writePacket_open:
  assumes ok: "deps_ok D V I J" and J: "J (buffers a)"
    and snd: "sendable (poly D) (maxLen D) p" and op: "\<not> a_closed a"
  obtains bl bl' where "J bl" and "J bl'" and
    "writePacket_with cwe D race closeOnErr p a =
       (case conn_SetDeadline (a_conn a) of
          (Some err, nc) \<Rightarrow> write_failed cwe race a_closed closeOnErr err (a\<lparr>buffers := bl, a_conn := nc\<rparr>)
        | (None, nc) \<Rightarrow>
            (case bufw_Write (header_bytes (wire_metadata (Metadata p))) (a_writer a, nc) of
               (Some err, w, nc) \<Rightarrow> write_failed cwe race a_closed closeOnErr err (a\<lparr>buffers := bl', a_writer := w, a_conn := nc\<rparr>)
             | (None, w, nc) \<Rightarrow>
                 (case bufw_Write (pg_bytes (poly D) (Content p)) (w, nc) of
                    (Some err, w, nc) \<Rightarrow> write_failed cwe race a_closed closeOnErr err (a\<lparr>buffers := bl', a_writer := w, a_conn := nc\<rparr>)
                  | (None, w, nc) \<Rightarrow>
                      map_option (Pair None) (signal_flush (a\<lparr>buffers := bl', a_writer := w, a_conn := nc\<rparr>)))))"
proof -
  let ?h = "header_bytes (wire_metadata (Metadata p))" and ?b = "pg_bytes (poly D) (Content p)"
  obtain buf bl where g: "GetBuffer (buf_pool D) (buffers a) = (buf, bl)"
    by (cases "GetBuffer (buf_pool D) (buffers a)")
  have buf: "is_buffer buf" "J bl" "J (PutBuffer (buf_pool D) ?h bl)"
    using GetBuffer_is_buffer [OF deps_okD(3) [OF ok] J g] PutBuffer_keeps [OF deps_okD(3) [OF ok]]
    by (auto simp: is_buffer_def)
  have len: "length ?b = unat (ContentLength (Metadata p))"
    using snd sendable_bytes [OF deps_okD(1) [OF ok]] by simp
  define bl' where "bl' = PutBuffer (buf_pool D) ?h bl"
  define failed where "failed = write_failed cwe race a_closed closeOnErr"
  obtain d nc where d: "conn_SetDeadline (a_conn a) = (d, nc)"
    by (cases "conn_SetDeadline (a_conn a)")
  obtain e1 w1 nc1 where h: "bufw_Write ?h (a_writer a, nc) = (e1, w1, nc1)"
    by (cases "bufw_Write ?h (a_writer a, nc)")
  obtain e2 w2 nc2 where b: "bufw_Write ?b (w1, nc1) = (e2, w2, nc2)"
    by (cases "bufw_Write ?b (w1, nc1)")
  have guards: "unat (ContentLength (Metadata p)) = pg_len (poly D) (Content p)"
      "\<not> exceeds_max (maxLen D) (ContentLength (Metadata p))"
    using snd by (simp_all add: sendable_def)
  have nil: "ContentLength (Metadata p) = 0 \<Longrightarrow> e1 = None \<Longrightarrow> e2 = None \<and> w2 = w1 \<and> nc2 = nc1"
    using bufw_Write_spec [OF h] bufw_Write_Nil [of w1 nc1] b len by auto
  note start = writePacket_with_def [of cwe D race closeOnErr p a] Let_def guards g d
    put_fields_wire [OF buf(1)] op failed_def [symmetric] bl'_def [symmetric]
  have "writePacket_with cwe D race closeOnErr p a =
     (case d of
        Some err \<Rightarrow> failed err (a\<lparr>buffers := bl, a_conn := nc\<rparr>)
      | None \<Rightarrow>
          (case e1 of
             Some err \<Rightarrow> failed err (a\<lparr>buffers := bl', a_writer := w1, a_conn := nc1\<rparr>)
           | None \<Rightarrow>
               (case e2 of
                  Some err \<Rightarrow> failed err (a\<lparr>buffers := bl', a_writer := w2, a_conn := nc2\<rparr>)
                | None \<Rightarrow>
                    map_option (Pair None) (signal_flush (a\<lparr>buffers := bl', a_writer := w2, a_conn := nc2\<rparr>)))))"
  proof (cases d)
    case None
    show ?thesis
    proof (cases e1)
      case e1: None
      show ?thesis
      proof (cases "ContentLength (Metadata p) = 0")
        case True
        moreover have "pg_len (poly D) (Content p) = 0" and
            "put_fields buf PacketMagicHeader (PacketId (Metadata p)) (Operation (Metadata p)) 0 = Some ?h"
          using True guards(1) put_fields_wire [OF buf(1), of "Metadata p"] by simp_all
        ultimately show ?thesis
          using None e1 h nil by (simp add: start map_conv_bind_option comp_def)
      next
        case False
        then have "go_slice ?b 0 (unat (ContentLength (Metadata p))) = Some ?b"
          using len by simp
        with False show ?thesis
          using None e1 h b by (simp add: start map_conv_bind_option comp_def split: option.split)
      qed
    qed (use None h in \<open>simp add: start\<close>)
  qed (simp add: start)
  then have "writePacket_with cwe D race closeOnErr p a =
     (case conn_SetDeadline (a_conn a) of
        (Some err, nc) \<Rightarrow> failed err (a\<lparr>buffers := bl, a_conn := nc\<rparr>)
      | (None, nc) \<Rightarrow>
          (case bufw_Write ?h (a_writer a, nc) of
             (Some err, w, nc) \<Rightarrow> failed err (a\<lparr>buffers := bl', a_writer := w, a_conn := nc\<rparr>)
           | (None, w, nc) \<Rightarrow>
               (case bufw_Write ?b (w, nc) of
                  (Some err, w, nc) \<Rightarrow> failed err (a\<lparr>buffers := bl', a_writer := w, a_conn := nc\<rparr>)
                | (None, w, nc) \<Rightarrow>
                    map_option (Pair None) (signal_flush (a\<lparr>buffers := bl', a_writer := w, a_conn := nc\<rparr>)))))"
    by (simp add: d h b split: option.split)
  from that [OF buf(2) buf(3) [folded bl'_def] this [unfolded failed_def]] show thesis .
qed

text \<open>The outcome of a write: \<open>None\<close> means the frame is on its way; an error leaves a prefix.\<close>

definition write_outcome ::
    "('c, 'q, 'pl, 'bl) deps \<Rightarrow> bool \<Rightarrow> 'c packet \<Rightarrow> ('c, 'q, 'pl, 'bl, 'h) async \<Rightarrow> goerror option
      \<Rightarrow> ('c, 'q, 'pl, 'bl, 'h) async \<Rightarrow> bool" where
  "write_outcome D closeOnErr p a e a' \<longleftrightarrow>
     (case e of
        None \<Rightarrow> wrote D p a a'
      | Some _ \<Rightarrow> prefix (a_out a) (a_out a') \<and> prefix (a_out a') (a_out a @ frame (poly D) p) \<and>
          (\<not> sendable (poly D) (maxLen D) p \<and> a' = a \<or> a_closed a' \<or> \<not> closeOnErr))"

lemma write_failed_outcome:
  assumes "deps_ok D V I J" and "race_closes V I J race" and "async_inv V I J b" and "\<not> a_closed b"
    and "prefix (a_out a) (a_out b)" and "prefix (a_out b) (a_out a @ frame (poly D) p)"
  shows "\<exists>e a'. write_failed (closeWithError D) race a_closed closeOnErr err b = Some (e, a') \<and>
    async_inv V I J a' \<and> write_outcome D closeOnErr p a e a'"
proof -
  obtain e a' where "write_failed (closeWithError D) race a_closed closeOnErr err b = Some (Some e, a')"
    "async_inv V I J a'" "a_out a' = a_out b" "a_closed a' \<or> \<not> closeOnErr"
    by (rule write_failed_spec [OF assms(1-4)])
  with assms(5,6) show ?thesis
    by (auto simp: write_outcome_def)
qed

lemma a_out_writer: "a_out (a\<lparr>buffers := bl, a_writer := w, a_conn := c\<rparr>) = bufw_out (w, c)"
  by (simp add: a_out_def)

lemma writePacket_spec:
  assumes ok: "deps_ok D V I J" and rc: "race_closes V I J race" and inv: "async_inv V I J a"
  shows "\<exists>e a'. writePacket D race closeOnErr p a = Some (e, a') \<and> async_inv V I J a' \<and>
    write_outcome D closeOnErr p a e a'"
proof (cases "sendable (poly D) (maxLen D) p \<and> \<not> a_closed a")
  case False
  show ?thesis
  proof (cases "a_closed a")
    case True
    have "J (buffers a)" using inv by (simp add: inv_defs)
    then obtain e bl where "writePacket_with (closeWithError D) D race closeOnErr p a
        = Some (Some e, a\<lparr>buffers := bl\<rparr>)" "J bl"
      by (rule writePacket_closed [OF ok _ True])
    then show ?thesis
      using inv_buffers [OF inv, of bl] True
      by (auto simp: writePacket_def write_outcome_def a_out_def)
  next
    case open': False
    then show ?thesis
      using False writePacket_refused [of D p "closeWithError D" race closeOnErr a] inv
      by (auto simp: writePacket_def write_outcome_def a_out_def)
  qed
next
  case True
  let ?h = "header_bytes (wire_metadata (Metadata p))" and ?b = "pg_bytes (poly D) (Content p)"
  have J: "J (buffers a)" and op: "\<not> a_closed a" "\<not> flushCh_closed a" "flushCh a \<le> 1"
    using inv True by (auto simp: inv_defs)
  obtain bl bl' where bl: "J bl" "J bl'" and eq: "writePacket D race closeOnErr p a =
       (case conn_SetDeadline (a_conn a) of
          (Some err, nc) \<Rightarrow> write_failed (closeWithError D) race a_closed closeOnErr err (a\<lparr>buffers := bl, a_conn := nc\<rparr>)
        | (None, nc) \<Rightarrow> (case bufw_Write ?h (a_writer a, nc) of
             (Some err, w, nc) \<Rightarrow> write_failed (closeWithError D) race a_closed closeOnErr err
                 (a\<lparr>buffers := bl', a_writer := w, a_conn := nc\<rparr>)
           | (None, w, nc) \<Rightarrow> (case bufw_Write ?b (w, nc) of
                (Some err, w, nc) \<Rightarrow> write_failed (closeWithError D) race a_closed closeOnErr err
                    (a\<lparr>buffers := bl', a_writer := w, a_conn := nc\<rparr>)
              | (None, w, nc) \<Rightarrow>
                  map_option (Pair None) (signal_flush (a\<lparr>buffers := bl', a_writer := w, a_conn := nc\<rparr>)))))"
    using True
    by (elim conjE) (rule writePacket_open [OF ok J, of p "closeWithError D" race closeOnErr,
        folded writePacket_def])
  obtain d nc where d: "conn_SetDeadline (a_conn a) = (d, nc)" by (cases "conn_SetDeadline (a_conn a)")
  obtain e1 w1 nc1 where h: "bufw_Write ?h (a_writer a, nc) = (e1, w1, nc1)"
    by (cases "bufw_Write ?h (a_writer a, nc)")
  obtain e2 w2 nc2 where b: "bufw_Write ?b (w1, nc1) = (e2, w2, nc2)" by (cases "bufw_Write ?b (w1, nc1)")
  have out0: "bufw_out (a_writer a, nc) = a_out a" and rd0: "same_reads (a_conn a) nc"
    using conn_SetDeadline_frame [OF d] by (simp_all add: a_out_def bufw_out_def same_reads_def)
  have bad: "async_inv V I J (a\<lparr>buffers := bl', a_writer := w, a_conn := c\<rparr>)" if "werr w \<noteq> None" for w c
    using inv bl that by (auto simp: inv_defs)
  note fail = write_failed_outcome [OF ok rc, where a = a and p = p and closeOnErr = closeOnErr]
  note hs = bufw_Write_spec [OF h, unfolded out0] and bs = bufw_Write_spec [OF b]
  consider (deadline) err where "d = Some err" | (header) err where "d = None" "e1 = Some err"
    | (body) err where "d = None" "e1 = None" "e2 = Some err" | (finished) "d = None" "e1 = None" "e2 = None"
    by (cases d; cases e1; cases e2) auto
  then show ?thesis
  proof cases
    case deadline
    then show ?thesis
      using fail [of "a\<lparr>buffers := bl, a_conn := nc\<rparr>" err] inv_buffers [OF inv bl(1)] op out0
      by (simp add: eq d a_out_def)
  next
    case header
    then show ?thesis
      using fail [of "a\<lparr>buffers := bl', a_writer := w1, a_conn := nc1\<rparr>" err] bad op hs
      by (auto simp: eq d h a_out_writer frame_def append_assoc [symmetric] prefix_prefix
          simp del: append_assoc)
  next
    case body
    then show ?thesis
      using fail [of "a\<lparr>buffers := bl', a_writer := w2, a_conn := nc2\<rparr>" err] bad op hs bs
      by (auto simp: eq d h b a_out_writer frame_def dest: append_prefixD)
  next
    case finished
    let ?a = "a\<lparr>buffers := bl', a_writer := w2, a_conn := nc2\<rparr>"
    obtain n where n: "signal_flush ?a = Some (?a\<lparr>flushCh := n\<rparr>)" "0 < n" "n \<le> max 1 (flushCh ?a)"
      by (rule signal_flush_open [of ?a]) (use op in auto)
    have "wrote D p a (?a\<lparr>flushCh := n\<rparr>)"
      using True n(2) hs bs finished same_reads_trans [OF rd0]
      by (auto simp: wrote_def a_out_def frame_def intro: same_reads_trans)
    moreover have "async_inv V I J (?a\<lparr>flushCh := n\<rparr>)"
      using inv bl n op by (auto simp: inv_defs)
    ultimately show ?thesis
      using finished n by (auto simp: eq d h b write_outcome_def)
  qed
qed

section \<open>Flushing\<close>

lemma flush_closed [simp]: "a_closed a \<Longrightarrow> flush a = (Some ConnectionClosed, a)"
  by (simp add: flush_def)

lemma flush_spec:
  assumes "pre_inv V I J a" and "flush a = (e, a')" and "\<not> a_closed a"
  shows "a' = a\<lparr>a_conn := a_conn a', a_writer := a_writer a'\<rparr>" and "pre_inv V I J a'"
    and "a_out a' = a_out a" and "e = None \<Longrightarrow> wbuf (a_writer a') = []"
    and "e = None \<Longrightarrow> async_inv V I J a'"
proof -
  obtain d nc where d: "conn_SetDeadline (a_conn a) = (d, nc)" by (cases "conn_SetDeadline (a_conn a)")
  obtain f w nc' where f: "bufw_Flush (a_writer a, nc) = (f, w, nc')" by (cases "bufw_Flush (a_writer a, nc)")
  have out: "sent nc = sent (a_conn a)" "sent nc' @ wbuf w = sent nc @ wbuf (a_writer a)"
    using conn_SetDeadline_frame [OF d] bufw_Flush_cases(1) [OF f] by simp_all
  consider (idle) "wbuf (a_writer a) = []" "a' = a" "e = None"
    | (deadline) err where "wbuf (a_writer a) \<noteq> []" "a' = a\<lparr>a_conn := nc\<rparr>" "e = Some err"
    | (flushed) "wbuf (a_writer a) \<noteq> []" "a' = a\<lparr>a_writer := w, a_conn := nc'\<rparr>" "e = f"
    using assms(2,3) d f by (cases d) (auto simp: flush_def Buffered_def split: if_splits)
  then have all: "a' = a\<lparr>a_conn := a_conn a', a_writer := a_writer a'\<rparr> \<and> pre_inv V I J a' \<and>
      a_out a' = a_out a \<and> (e = None \<longrightarrow> wbuf (a_writer a') = [])"
    using assms(1) out bufw_Flush_cases(2) [OF f]
    by cases (simp_all add: inv_defs a_out_def bufw_out_def)
  then show "a' = a\<lparr>a_conn := a_conn a', a_writer := a_writer a'\<rparr>" and "pre_inv V I J a'"
    and "a_out a' = a_out a" and "e = None \<Longrightarrow> wbuf (a_writer a') = []"
    by blast+
  show "async_inv V I J a'" if "e = None"
    using all that by (simp add: async_inv_def flush_scheduled_def Buffered_def)
qed

lemma Async_Flush_spec:
  assumes "deps_ok D V I J" and "async_inv V I J a"
  shows "\<exists>e a'. Async_Flush D a = Some (e, a') \<and> async_inv V I J a' \<and> a_out a' = a_out a \<and>
    (e = None \<longrightarrow> \<not> a_closed a' \<and> wbuf (a_writer a') = []) \<and> (e \<noteq> None \<longrightarrow> a_closed a')"
proof (cases "a_closed a")
  case True
  obtain e a' where "closeWithError D ConnectionClosed a = Some (Some e, a')" "async_inv V I J a'"
      "a_closed a'" "a_out a' = a_out a"
    by (rule closeWithError_total [OF assms])
  with True show ?thesis
    by (auto simp: Async_Flush_def)
next
  case False
  obtain e b where f: "flush a = (e, b)" by (cases "flush a")
  note fs = flush_spec [OF async_inv_pre [OF assms(2)] f False]
  have op: "\<not> a_closed b"
    using False by (subst fs(1)) simp
  show ?thesis
  proof (cases e)
    case None
    then show ?thesis
      using f fs op by (simp add: Async_Flush_def)
  next
    case (Some err)
    obtain a' where "closeWithError D err b = Some (Some err, a')" "async_inv V I J a'" "a_closed a'"
        "a_error a' = Some err" "shut (a_conn a')" "a_out a' = a_out b"
      by (rule closeWithError_open [OF assms(1) fs(2) op])
    with Some show ?thesis
      using f fs(3) by (simp add: Async_Flush_def)
  qed
qed

section \<open>A concrete instance\<close>

text \<open>The modules of the connection implemented on lists, on which the requirements hold.\<close>

type_synonym list_queue = "nat \<times> bool \<times> byte list packet list"
type_synonym packets_pool = "byte list packet \<times> byte list packet list"
type_synonym buffers_pool = "byte list \<times> byte list list"

definition list_deps :: "uint32 \<Rightarrow> (byte list, list_queue, packets_pool, buffers_pool) deps" where
  "list_deps m = \<lparr>poly = list_polyglot, pkt_pool = list_pool, buf_pool = list_pool,
     circ = list_circular, maxLen = m\<rparr>"

definition good_packets :: "packets_pool \<Rightarrow> bool" where
  "good_packets = (\<lambda>(d, xs). clean_packet list_polyglot d \<and> (\<forall>x\<in>set xs. clean_packet list_polyglot x))"

definition good_buffers :: "buffers_pool \<Rightarrow> bool" where
  "good_buffers = (\<lambda>(d, xs). is_buffer d \<and> (\<forall>x\<in>set xs. is_buffer x))"

definition quiet_conn :: "(byte list \<times> goerror option) list \<Rightarrow> netconn" where
  "quiet_conn rs = \<lparr>reads = rs, read_end = IoEOF, writes = [], deadlines = [], sent = [],
     shut = False, tls = None\<rparr>"

definition list_async ::
    "(byte list \<times> goerror option) list \<Rightarrow> nat option
      \<Rightarrow> (byte list, list_queue, packets_pool, buffers_pool, nat) async" where
  "list_async rs h = NewAsync (list_deps 0) (quiet_conn rs) [h]
     (Packet_New list_polyglot, []) (NewBuffer, [])"

lemma list_deps_ok: "deps_ok (list_deps m) list_view good_packets good_buffers"
  using list_pool_ok [of "clean_packet list_polyglot"] list_pool_ok [of is_buffer]
  by (simp add: deps_ok_def list_deps_def list_polyglot_ok list_circular_ok good_packets_def
      good_buffers_def)

lemma list_async_inv: "async_inv list_view good_packets good_buffers (list_async rs h)"
  unfolding list_async_def
  by (rule inv_NewAsync [OF list_deps_ok])
    (simp_all add: good_packets_def good_buffers_def list_polyglot_ok is_buffer_def NewBuffer_def)

lemma list_async_simps [simp]:
  "\<not> a_closed (list_async rs h)" "a_wg (list_async rs h) = 3" "a_error (list_async rs h) = None"
  "a_conn (list_async rs h) = quiet_conn rs" "streams (list_async rs h) = []"
  "a_writer (list_async rs h) = NewWriterSize DefaultBufferSize" "flushCh (list_async rs h) = 0"
  "incoming (list_async rs h) = q_new list_circular DefaultBufferSize"
  "newStreamHandler (list_async rs h) = h" "spawned (list_async rs h) = []"
  "stream_objs (list_async rs h) = []" "a_out (list_async rs h) = []"
  by (simp_all add: list_async_def NewAsync_def list_deps_def a_out_def bufw_out_def quiet_conn_def
      NewWriterSize_def)

end
