(* ===== verification/Async_Props.thy ===== *)
theory Async_Props
  imports Async_Inv
begin

text \<open>
  The flush and ping goroutines, the streams and the packet readers of the asynchronous
  connection keep its invariant; the contracts of its users (a closable connection, a reader
  that delivers what was queued before the close) hold for it and its streams.
\<close>

section \<open>Goroutine steps\<close>

lemma leave_with_spec:
  assumes "deps_ok D V I J" and "pre_inv V I J a" and "0 < a_wg a" and "a_closed a \<Longrightarrow> async_inv V I J a"
  obtains a' where "leave_with D err a = Some (Left, a')" and "async_inv V I J a'" and "a_closed a'"
    and "a_out a' = a_out a"
proof -
  let ?b = "a\<lparr>a_wg := a_wg a - 1\<rparr>"
  have b: "wg_Done a = Some ?b" "pre_inv V I J ?b" "a_out ?b = a_out a"
    using assms(2,3) by (simp_all add: wg_Done_def inv_defs a_out_def)
  show thesis
  proof (cases "a_closed a")
    case True
    then show ?thesis
      using that [of "?b\<lparr>a_error := Some (Joined ConnectionClosed err)\<rparr>"] b assms(4)
      by (simp add: leave_with_def closeWithError_closed a_out_def)
  next
    case False
    obtain a' where "closeWithError D err ?b = Some (Some err, a')" "async_inv V I J a'" "a_closed a'"
        "a_out a' = a_out ?b"
      by (rule closeWithError_open [OF assms(1) b(2)]) (use False in auto)
    then show ?thesis
      using that [of a'] b by (simp add: leave_with_def)
  qed
qed

text \<open>
  A step of the flush goroutine never panics. It loses and reorders no byte, empties the write
  buffer when it goes on, and leaves only with the connection closed.
\<close>

lemma flushLoop_step_spec:
  assumes "deps_ok D V I J" and "async_inv V I J a" and "0 < a_wg a"
  shows "\<exists>r a'. flushLoop_step D a = Some (r, a') \<and> async_inv V I J a' \<and> a_out a' = a_out a \<and>
    (r = Goes_on \<longrightarrow> wbuf (a_writer a') = []) \<and> (r = Left \<longrightarrow> a_closed a') \<and> (r = Waiting \<longrightarrow> a' = a)"
proof (cases "0 < flushCh a")
  case False
  then show ?thesis
    using assms(2,3) by (auto simp: flushLoop_step_def wg_Done_def a_out_def) (auto simp: inv_defs)
next
  case True
  let ?b = "a\<lparr>flushCh := flushCh a - 1\<rparr>"
  have pre: "pre_inv V I J ?b" "0 < a_wg ?b" and out: "a_out ?b = a_out a"
    using assms(2,3) by (auto simp: inv_defs a_out_def)
  obtain e c where f: "flush ?b = (e, c)" by (cases "flush ?b")
  have "pre_inv V I J c \<and> 0 < a_wg c \<and> a_out c = a_out a \<and> a_closed c = a_closed a \<and>
      (a_closed c \<longrightarrow> async_inv V I J c) \<and> (e = None \<longrightarrow> async_inv V I J c \<and> wbuf (a_writer c) = [])"
  proof (cases "a_closed a")
    case True
    then show ?thesis
      using f pre out by (auto simp: async_inv_def flush_scheduled_def)
  next
    case False
    have "a_closed c = a_closed ?b" "a_wg c = a_wg ?b"
      by (subst flush_spec(1) [OF pre(1) f]; use False in simp)+
    then show ?thesis
      using flush_spec(2-5) [OF pre(1) f] False pre(2) out by auto
  qed
  then have c: "pre_inv V I J c" "0 < a_wg c" "a_closed c \<Longrightarrow> async_inv V I J c" "a_out c = a_out a"
      "e = None \<Longrightarrow> async_inv V I J c \<and> wbuf (a_writer c) = []"
    by blast+
  show ?thesis
  proof (cases e)
    case None
    then show ?thesis
      using True f c by (auto simp: flushLoop_step_def)
  next
    case (Some err)
    obtain a' where "leave_with D err c = Some (Left, a')" "async_inv V I J a'" "a_closed a'"
        "a_out a' = a_out c"
      by (rule leave_with_spec [OF assms(1) c(1,2,3)])
    with Some show ?thesis
      using True f c by (auto simp: flushLoop_step_def)
  qed
qed

text \<open>A successful write touches the writer, its connection, the signal and the buffer pool only.\<close>

lemma wrote_frame:
  assumes "wrote D p a a'"
  shows "a_closed a' = a_closed a" and "a_wg a' = a_wg a" and "incoming a' = incoming a"
    and "streams a' = streams a" and "stream_objs a' = stream_objs a" and "packets a' = packets a"
    and "a_stale a' = a_stale a" and "spawned a' = spawned a" and "newStreamHandler a' = newStreamHandler a"
    and "a_error a' = a_error a"
proof -
  have eq: "a' = a\<lparr>a_conn := a_conn a', a_writer := a_writer a', flushCh := flushCh a', buffers := buffers a'\<rparr>"
    using assms by (simp add: wrote_def)
  show "a_closed a' = a_closed a" and "a_wg a' = a_wg a" and "incoming a' = incoming a"
    and "streams a' = streams a" and "stream_objs a' = stream_objs a" and "packets a' = packets a"
    and "a_stale a' = a_stale a" and "spawned a' = spawned a" and "newStreamHandler a' = newStreamHandler a"
    and "a_error a' = a_error a"
    by (subst eq, simp)+
qed

text \<open>The internal writes of the goroutines do not close, so their place in the wait group stays.\<close>

lemma write_failed_wg:
  "write_failed cwe race a_closed False err b = Some (e, a') \<Longrightarrow> \<forall>b. a_wg (race b) = a_wg b \<Longrightarrow>
     a_wg a' = a_wg b"
  by (auto simp: write_failed_def Let_def split: if_splits)

lemma signal_flush_wg: "signal_flush b = Some a' \<Longrightarrow> a_wg a' = a_wg b"
  by (auto simp: signal_flush_def split: if_splits)

lemma writePacket_wg:
  assumes ok: "deps_ok D V I J" and J: "J (buffers a)"
    and w: "writePacket D race False p a = Some (e, a')" and rc: "\<forall>b. a_wg (race b) = a_wg b"
  shows "a_wg a' = a_wg a"
proof -
  consider (closed) "a_closed a" | (refused) "\<not> sendable (poly D) (maxLen D) p"
    | (ready) "sendable (poly D) (maxLen D) p" "\<not> a_closed a"
    by blast
  then show ?thesis
  proof cases
    case closed
    show ?thesis
      by (rule writePacket_closed [OF ok J closed, of "closeWithError D" race False p])
        (use w in \<open>auto simp: writePacket_def\<close>)
  next
    case refused
    then show ?thesis
      using w by (simp add: writePacket_def writePacket_refused)
  next
    case ready
    note wg = write_failed_wg [OF _ rc] signal_flush_wg
    show ?thesis
      by (rule writePacket_open [OF ok J ready, of "closeWithError D" race False])
        (use w in \<open>auto simp: writePacket_def split: prod.splits option.splits dest!: wg\<close>)
  qed
qed

text \<open>
  A step of the ping goroutine: when it goes on it has written a ping frame and scheduled a
  flush; when it leaves, the connection is closed.
\<close>

lemma pingLoop_step_spec:
  assumes "deps_ok D V I J" and "async_inv V I J a" and "race_closes V I J race"
    and "0 < a_wg a" and "\<forall>b. a_wg (race b) = a_wg b"
  shows "\<exists>r a'. pingLoop_step D race tick pick_close a = Some (r, a') \<and> async_inv V I J a' \<and>
    (r = Goes_on \<longrightarrow> a_out a' = a_out a @ frame (poly D) (PINGPacket (poly D)) \<and> 0 < flushCh a') \<and>
    (r = Left \<longrightarrow> a_closed a') \<and> (r = Waiting \<longrightarrow> a' = a)"
proof -
  consider (leave) "closeCh_closed a" "\<not> tick \<or> pick_close" | (wait) "\<not> closeCh_closed a" "\<not> tick"
    | (ping) "tick" "\<not> (closeCh_closed a \<and> pick_close)"
    by blast
  then show ?thesis
  proof cases
    case leave
    then show ?thesis
      using assms(2,4) by (simp add: pingLoop_step_def wg_Done_def) (simp add: inv_defs)
  next
    case wait
    then show ?thesis
      using assms(2) by (simp add: pingLoop_step_def)
  next
    case ping
    obtain e b where w: "writePacket D race False (PINGPacket (poly D)) a = Some (e, b)" "async_inv V I J b"
        "write_outcome D False (PINGPacket (poly D)) a e b"
      using writePacket_spec [OF assms(1,3,2)] by blast
    have wg: "0 < a_wg b"
      using writePacket_wg [OF assms(1) _ w(1) assms(5)] assms(2,4) by (simp add: inv_defs)
    show ?thesis
    proof (cases e)
      case None
      then show ?thesis
        using ping w by (auto simp: pingLoop_step_def write_outcome_def wrote_def)
    next
      case (Some err)
      obtain a' where "leave_with D err b = Some (Left, a')" "async_inv V I J a'" "a_closed a'"
        by (rule leave_with_spec [OF assms(1) async_inv_pre [OF w(2)] wg w(2)])
      with Some show ?thesis
        using ping w by (auto simp: pingLoop_step_def)
    qed
  qed
qed

section \<open>Readers\<close>

text \<open>
  The contract of a packet reader that can be closed: packets come out in the order in which
  they were queued; closing moves the undelivered ones aside, later reads deliver them, and
  then the reader reports that it is closed. It holds for connections and for streams.
\<close>

fun read_many ::
    "('s \<Rightarrow> ((goerror + 'p) \<times> 's) blocking) \<Rightarrow> nat \<Rightarrow> 's \<Rightarrow> ((goerror + 'p) list \<times> 's) blocking" where
  "read_many rd 0 s = Returns ([], s)"
| "read_many rd (Suc n) s =
     (case rd s of
        Blocks \<Rightarrow> Blocks
      | Returns (r, s') \<Rightarrow>
          (case read_many rd n s' of Blocks \<Rightarrow> Blocks | Returns (rs, s'') \<Rightarrow> Returns (r # rs, s'')))"

locale closing_reader =
  fixes inv :: "'s \<Rightarrow> bool"
    and rd :: "'s \<Rightarrow> ((goerror + 'p) \<times> 's) blocking"
    and is_closed :: "'s \<Rightarrow> bool"
    and stale :: "'s \<Rightarrow> 'p list"
    and pending :: "'s \<Rightarrow> 'p list"
    and shut_reader :: "'s \<Rightarrow> 's"
    and closed_err :: goerror
  assumes stale_cons: "inv s \<Longrightarrow> is_closed s \<Longrightarrow> stale s = p # ps \<Longrightarrow>
      \<exists>s'. rd s = Returns (Inr p, s') \<and> inv s' \<and> is_closed s' \<and> stale s' = ps"
    and stale_nil: "inv s \<Longrightarrow> is_closed s \<Longrightarrow> stale s = [] \<Longrightarrow> rd s = Returns (Inl closed_err, s)"
    and pending_cons: "inv s \<Longrightarrow> \<not> is_closed s \<Longrightarrow> pending s = p # ps \<Longrightarrow>
      \<exists>s'. rd s = Returns (Inr p, s') \<and> inv s' \<and> \<not> is_closed s' \<and> pending s' = ps"
    and pending_nil: "inv s \<Longrightarrow> \<not> is_closed s \<Longrightarrow> pending s = [] \<Longrightarrow> rd s = Blocks"
    and shut_spec: "inv s \<Longrightarrow> \<not> is_closed s \<Longrightarrow>
      inv (shut_reader s) \<and> is_closed (shut_reader s) \<and> stale (shut_reader s) = pending s"
begin

lemma read_closed:
  "inv s \<Longrightarrow> is_closed s \<Longrightarrow> stale s = ps \<Longrightarrow>
     \<exists>s'. read_many rd (length ps + k) s = Returns (map Inr ps @ replicate k (Inl closed_err), s')"
proof (induction ps arbitrary: s)
  case Nil
  then show ?case
    by (induction k) (auto simp: stale_nil)
next
  case (Cons p ps)
  obtain s1 where "rd s = Returns (Inr p, s1)" "inv s1" "is_closed s1" "stale s1 = ps"
    using stale_cons Cons.prems by blast
  with Cons.IH [of s1] show ?case
    by auto
qed

lemma read_open:
  "inv s \<Longrightarrow> \<not> is_closed s \<Longrightarrow> pending s = ps @ qs \<Longrightarrow>
     \<exists>s'. read_many rd (length ps) s = Returns (map Inr ps, s') \<and> inv s' \<and> \<not> is_closed s' \<and> pending s' = qs"
proof (induction ps arbitrary: s)
  case (Cons p ps)
  obtain s1 where "rd s = Returns (Inr p, s1)" "inv s1" "\<not> is_closed s1" "pending s1 = ps @ qs"
    using pending_cons Cons.prems by (metis append_Cons)
  with Cons.IH [of s1] show ?case
    by auto
qed simp

text \<open>No queued packet is lost when the reader is closed after any number of reads.\<close>

lemma no_loss:
  assumes "inv s" and "\<not> is_closed s" and "pending s = ps @ qs"
  shows "\<exists>s1 s2. read_many rd (length ps) s = Returns (map Inr ps, s1) \<and>
    read_many rd (length qs + k) (shut_reader s1) =
      Returns (map Inr qs @ replicate k (Inl closed_err), s2)"
  using read_open [OF assms] shut_spec read_closed by metis

end

interpretation async_reader: closing_reader "\<lambda>a. deps_ok D V I J \<and> async_inv V I J a"
  "Async_ReadPacket D id" a_closed a_stale "\<lambda>a. items V (incoming a)"
  "\<lambda>a. snd (the (close D a))" ConnectionClosed for D V I J
proof unfold_locales
  fix s :: "('a, 'b, 'c, 'd, 'e) async" and p ps
  assume "deps_ok D V I J \<and> async_inv V I J s" "\<not> a_closed s" "items V (incoming s) = p # ps"
  then show "\<exists>s'. Async_ReadPacket D id s = Returns (Inr p, s') \<and>
      (deps_ok D V I J \<and> async_inv V I J s') \<and> \<not> a_closed s' \<and> items V (incoming s') = ps"
    using circular_pop_cons [of "circ D" V "incoming s" p ps] deps_okD(4) [of D V I J]
    by (fastforce simp: Async_ReadPacket_def inv_defs)
next
  fix s :: "('a, 'b, 'c, 'd, 'e) async"
  assume "deps_ok D V I J \<and> async_inv V I J s" "\<not> a_closed s" "items V (incoming s) = []"
  then show "Async_ReadPacket D id s = Blocks"
    using circular_pop_empty [of "circ D" V "incoming s"] deps_okD(4) [of D V I J]
    by (simp add: Async_ReadPacket_def inv_defs)
next
  fix s :: "('a, 'b, 'c, 'd, 'e) async"
  assume "deps_ok D V I J \<and> async_inv V I J s" "\<not> a_closed s"
  then show "(deps_ok D V I J \<and> async_inv V I J (snd (the (close D s)))) \<and>
      a_closed (snd (the (close D s))) \<and> a_stale (snd (the (close D s))) = items V (incoming s)"
    by (elim conjE) (rule close_open [of D V I J s], auto simp: async_inv_pre)
qed (auto simp: Async_ReadPacket_def inv_defs)

interpretation stream_reader: closing_reader "\<lambda>st. circular_ok (circ D) V \<and> stream_inv V st"
  "Stream_ReadPacket D id" st_closed st_stale "\<lambda>st. items V (st_queue st)" "shut_stream D" StreamClosed
  for D V
proof unfold_locales
  fix s :: "('a, 'b) stream" and p ps
  assume "circular_ok (circ D) V \<and> stream_inv V s" "\<not> st_closed s" "items V (st_queue s) = p # ps"
  then show "\<exists>s'. Stream_ReadPacket D id s = Returns (Inr p, s') \<and>
      (circular_ok (circ D) V \<and> stream_inv V s') \<and> \<not> st_closed s' \<and> items V (st_queue s') = ps"
    using circular_pop_cons [of "circ D" V "st_queue s" p ps]
    by (fastforce simp: Stream_ReadPacket_def stream_inv_def)
next
  fix s :: "('a, 'b) stream"
  assume "circular_ok (circ D) V \<and> stream_inv V s" "\<not> st_closed s" "items V (st_queue s) = []"
  then show "Stream_ReadPacket D id s = Blocks"
    using circular_pop_empty [of "circ D" V "st_queue s"] by (simp add: Stream_ReadPacket_def stream_inv_def)
next
  fix s :: "('a, 'b) stream"
  assume "circular_ok (circ D) V \<and> stream_inv V s" "\<not> st_closed s"
  then show "(circular_ok (circ D) V \<and> stream_inv V (shut_stream D s)) \<and> st_closed (shut_stream D s) \<and>
      st_stale (shut_stream D s) = items V (st_queue s)"
    using shut_stream_inv by blast
qed (auto simp: Stream_ReadPacket_def stream_inv_def)

section \<open>The connection contract\<close>

lemma Async_WritePacket_spec:
  assumes "deps_ok D V I J" and "race_closes V I J race" and "async_inv V I J a"
  shows "\<exists>e a'. Async_WritePacket D race p a = Some (e, a') \<and> async_inv V I J a' \<and>
    (case e of
       None \<Rightarrow> RESERVED9 < Operation (Metadata p) \<and> wrote D p a a'
     | Some _ \<Rightarrow> prefix (a_out a) (a_out a') \<and> prefix (a_out a') (a_out a @ frame (poly D) p) \<and>
         ((Operation (Metadata p) \<le> RESERVED9 \<or> \<not> sendable (poly D) (maxLen D) p) \<and> a' = a \<or> a_closed a'))"
proof (cases "Operation (Metadata p) \<le> RESERVED9")
  case True
  then show ?thesis
    using assms(3) by (simp add: Async_WritePacket_def)
next
  case False
  obtain e a' where "writePacket D race True p a = Some (e, a')" "async_inv V I J a'"
      "write_outcome D True p a e a'"
    using writePacket_spec [OF assms, of True p] by blast
  with False show ?thesis
    by (cases e) (auto simp: Async_WritePacket_def write_outcome_def)
qed

interpretation async_contract: closable_conn "\<lambda>a. deps_ok D V I J \<and> async_inv V I J a"
  a_closed a_out "Async_WritePacket D id" "Async_Close D" for D V I J
proof unfold_locales
  fix s :: "('a, 'b, 'c, 'd, 'e) async" and p
  assume s: "deps_ok D V I J \<and> async_inv V I J s" "a_closed s"
  show "\<exists>e s'. Async_WritePacket D id p s = Some (Some e, s') \<and> (deps_ok D V I J \<and> async_inv V I J s') \<and>
      a_closed s' \<and> a_out s' = a_out s"
  proof (cases "Operation (Metadata p) \<le> RESERVED9")
    case False
    have J: "J (buffers s)" using s(1) by (simp add: inv_defs)
    show ?thesis
      by (rule writePacket_closed [OF conjunct1 [OF s(1)] J s(2), of "closeWithError D" id True p])
        (use False s inv_buffers [OF conjunct2 [OF s(1)]]
         in \<open>auto simp: Async_WritePacket_def writePacket_def a_out_def\<close>)
  qed (use s in \<open>simp add: Async_WritePacket_def\<close>)
next
  fix s :: "('a, 'b, 'c, 'd, 'e) async"
  assume "deps_ok D V I J \<and> async_inv V I J s"
  then show "\<exists>s'. Async_Close D s = Some (None, s') \<and> (deps_ok D V I J \<and> async_inv V I J s') \<and> a_closed s'"
    by (elim conjE) (rule Async_Close_total [of D V I J s], auto)
qed (simp add: Async_Close_def)

text \<open>A run of successful writes puts exactly the frames of the packets on their way, in order.\<close>

lemma write_all_frames:
  assumes "deps_ok D V I J"
  shows "async_inv V I J a \<Longrightarrow> write_all (Async_WritePacket D id) ps a = Some (es, a') \<Longrightarrow>
    set es \<subseteq> {None} \<Longrightarrow> async_inv V I J a' \<and> a_out a' = a_out a @ concat (map (frame (poly D)) ps) \<and>
      (\<forall>p\<in>set ps. RESERVED9 < Operation (Metadata p) \<and> sendable (poly D) (maxLen D) p)"
proof (induction ps arbitrary: a es)
  case (Cons p ps)
  obtain e1 a1 es1 where w: "Async_WritePacket D id p a = Some (e1, a1)"
      "write_all (Async_WritePacket D id) ps a1 = Some (es1, a')" "es = e1 # es1"
    using Cons.prems(2) by (auto simp: bind_eq_Some_conv simp del: id_apply)
  then have "async_inv V I J a1" "a_out a1 = a_out a @ frame (poly D) p"
      "RESERVED9 < Operation (Metadata p)" "sendable (poly D) (maxLen D) p"
    using Async_WritePacket_spec [OF assms race_closes_id Cons.prems(1), of p] Cons.prems(3)
    by (auto simp: wrote_def)
  then show ?case
    using Cons.IH [OF _ w(2)] w(3) Cons.prems(3) by simp
qed simp

end
