(* ===== verification/Async_Streams.thy ===== *)
theory Async_Streams
  imports Async_Props
begin

text \<open>
  The streams of a connection (\<^verbatim>\<open>stream.go\<close>): opening, closing and writing keep the invariant,
  and the properties of the asynchronous connection and its streams that do not involve the
  read loop.
\<close>

section \<open>Opening\<close>

lemma streams_inv_register:
  assumes "streams_inv V a" and "stream_inv V st" and "st_id st = sid"
  shows "streams_inv V (a\<lparr>stream_objs := stream_objs a @ [st],
           streams := AList.update sid (length (stream_objs a)) (streams a)\<rparr>)"
proof -
  have d: "distinct (map fst (AList.update sid (length (stream_objs a)) (streams a)))"
    using assms(1) by (simp add: streams_inv_def distinct_update)
  have "s < length (stream_objs a @ [st]) \<and> st_id ((stream_objs a @ [st]) ! s) = k"
    if "(k, s) \<in> set (AList.update sid (length (stream_objs a)) (streams a))" for k s
  proof -
    have "map_of (AList.update sid (length (stream_objs a)) (streams a)) k = Some s"
      using that d by simp
    then consider "k = sid" "s = length (stream_objs a)" | "(k, s) \<in> set (streams a)"
      by (auto simp: update_conv' split: if_splits dest: map_of_SomeD)
    then show ?thesis
      using assms(1,3) by cases (auto simp: streams_inv_def nth_append)
  qed
  then show ?thesis
    using assms(1,2) d by (auto simp: streams_inv_def)
qed

text \<open>
  \<open>NewStream\<close> returns the stream registered under the identifier, making it when there is none.
\<close>

lemma NewStream_spec:
  assumes "deps_ok D V I J" and "async_inv V I J a" and "NewStream D sid a = (s, a')"
  shows "async_inv V I J a'" and "map_of (streams a') sid = Some s" and "s < length (stream_objs a')"
    and "st_id (stream_objs a' ! s) = sid" and "NewStream D sid a' = (s, a')"
    and "k \<noteq> sid \<Longrightarrow> map_of (streams a') k = map_of (streams a) k"
    and "i < length (stream_objs a) \<Longrightarrow> stream_objs a' ! i = stream_objs a ! i"
proof -
  have inv: "streams_inv V a"
    using assms(2) by (simp add: async_inv_def pre_inv_def)
  let ?st = "\<lparr>st_id = sid, st_closed = False, st_queue = q_new (circ D) DefaultStreamBufferSize,
    st_stale = []\<rparr>"
  let ?b = "a\<lparr>stream_objs := stream_objs a @ [?st],
    streams := AList.update sid (length (stream_objs a)) (streams a)\<rparr>"
  have "streams_inv V ?b"
    by (rule streams_inv_register [OF inv])
      (simp_all add: stream_inv_def circular_simps [OF deps_okD(4) [OF assms(1)]])
  then have b: "async_inv V I J ?b"
    using assms(2) by (simp add: inv_defs)
  consider (old) "map_of (streams a) sid = Some s" "a' = a"
    | (new) "map_of (streams a) sid = None" "s = length (stream_objs a)" "a' = ?b"
    using assms(3) by (auto simp: NewStream_def newStream_def Let_def split: option.splits)
  then have "async_inv V I J a' \<and> map_of (streams a') sid = Some s \<and> s < length (stream_objs a') \<and>
    st_id (stream_objs a' ! s) = sid \<and> NewStream D sid a' = (s, a') \<and>
    (k \<noteq> sid \<longrightarrow> map_of (streams a') k = map_of (streams a) k) \<and>
    (i < length (stream_objs a) \<longrightarrow> stream_objs a' ! i = stream_objs a ! i)"
  proof cases
    case old
    then show ?thesis
      using assms(2) inv by (auto simp: NewStream_def streams_inv_def dest!: map_of_SomeD)
  next
    case new
    then show ?thesis
      using b by (simp add: NewStream_def update_conv' nth_append)
  qed
  then show "async_inv V I J a'" and "map_of (streams a') sid = Some s" and "s < length (stream_objs a')"
    and "st_id (stream_objs a' ! s) = sid" and "NewStream D sid a' = (s, a')"
    and "k \<noteq> sid \<Longrightarrow> map_of (streams a') k = map_of (streams a) k"
    and "i < length (stream_objs a) \<Longrightarrow> stream_objs a' ! i = stream_objs a ! i"
    by blast+
qed

section \<open>Closing\<close>

lemma streams_inv_delete:
  "streams_inv V a \<Longrightarrow> streams_inv V (a\<lparr>streams := AList.delete k (streams a)\<rparr>)"
  by (auto simp: streams_inv_def AList.delete_eq distinct_map_filter)

lemma inv_delete:
  "async_inv V I J a \<Longrightarrow> async_inv V I J (a\<lparr>streams := AList.delete k (streams a)\<rparr>)"
  using streams_inv_delete [of V a k] by (simp add: inv_defs)

lemma inv_set_stream:
  assumes "async_inv V I J a" and "stream_at a s = Some st" and "stream_inv V st'" and "st_id st' = st_id st"
  shows "async_inv V I J (set_stream s st' a)"
proof -
  have "streams_inv V (set_stream s st' a)"
    by (rule streams_inv_set_stream [OF _ assms(2-4)]) (use assms(1) in \<open>simp add: async_inv_def pre_inv_def\<close>)
  then show ?thesis
    using assms(1) by (simp add: async_inv_def pre_inv_def core_inv_def flush_scheduled_def set_stream_def)
qed

lemma inv_packets: "async_inv V I J a \<Longrightarrow> I pl \<Longrightarrow> async_inv V I J (a\<lparr>packets := pl\<rparr>)"
  by (simp add: inv_defs)

lemma Stream_close_spec:
  assumes "deps_ok D V I J" and "async_inv V I J a" and "stream_at a s = Some st"
  obtains a' where "Stream_close D s a = Some a'" and "async_inv V I J a'"
    and "a' = a\<lparr>stream_objs := (stream_objs a)[s := (if st_closed st then st else shut_stream D st)]\<rparr>"
proof -
  note sh = shut_stream_inv [OF deps_okD(4) [OF assms(1)]]
  show thesis
  proof (rule that)
    show "Stream_close D s a =
        Some (a\<lparr>stream_objs := (stream_objs a)[s := (if st_closed st then st else shut_stream D st)]\<rparr>)"
      using assms(3) by (auto simp: Stream_close_def set_stream_def stream_at_def split: if_splits)
    show "async_inv V I J (a\<lparr>stream_objs := (stream_objs a)[s := (if st_closed st then st else shut_stream D st)]\<rparr>)"
      using assms(2,3) inv_set_stream [OF assms(2,3) sh(1,2)] by (auto simp: stream_at_Some set_stream_def)
  qed simp
qed

text \<open>The packet that tells the peer that a stream was closed.\<close>

definition close_frame :: "uint16 \<Rightarrow> byte list" where
  "close_frame sid = header_bytes \<lparr>Magic = PacketMagicHeader, PacketId = sid, Operation = STREAM,
     ContentLength = 0\<rparr>"

lemma clean_close_frame:
  assumes "polyglot_ok P" and "clean_packet P p"
  shows "frame P (p\<lparr>Metadata := (Metadata p)\<lparr>PacketId := sid, Operation := STREAM\<rparr>\<rparr>) = close_frame sid"
    and "sendable P m (p\<lparr>Metadata := (Metadata p)\<lparr>PacketId := sid, Operation := STREAM\<rparr>\<rparr>)"
  using clean_packetD [OF assms(2)] assms(1)
  by (simp_all add: frame_def close_frame_def sendable_def wire_metadata_def zero_metadata_def polyglot_simps)

lemma closeSend_spec:
  assumes ok: "deps_ok D V I J" and inv: "async_inv V I J a" and st: "stream_at a s = Some st"
    and op: "\<not> st_closed st"
  shows "\<exists>e a'. closeSend D True s a = Some (e, a') \<and> async_inv V I J a' \<and>
    map_of (streams a') (st_id st) = None \<and>
    (e = None \<longrightarrow> a_out a' = a_out a @ close_frame (st_id st) \<and>
       stream_at a' s = Some (shut_stream D st)) \<and> (e \<noteq> None \<longrightarrow> a_closed a')"
proof -
  note circ = deps_okD(4) [OF ok] and pok = deps_okD(2) [OF ok] and poly = deps_okD(1) [OF ok]
  let ?a1 = "set_stream s (shut_stream D st) a"
  obtain p pl where g: "Get (pkt_pool D) (packets a) = (p, pl)" by (cases "Get (pkt_pool D) (packets a)")
  have pl: "I pl" "clean_packet (poly D) p"
    using Get_clean [OF pok _ g] inv by (auto simp: inv_defs)
  let ?q = "p\<lparr>Metadata := (Metadata p)\<lparr>PacketId := st_id st, Operation := STREAM\<rparr>\<rparr>"
  have i1: "async_inv V I J (?a1\<lparr>packets := pl\<rparr>)"
    by (rule inv_packets [OF inv_set_stream [OF inv st shut_stream_inv(1,2) [OF circ]] pl(1)])
  have out1: "a_out (?a1\<lparr>packets := pl\<rparr>) = a_out a" "packets ?a1 = packets a"
    by (simp_all add: a_out_def set_stream_def)
  obtain e b where w: "writePacket D id True ?q (?a1\<lparr>packets := pl\<rparr>) = Some (e, b)" "async_inv V I J b"
      "write_outcome D True ?q (?a1\<lparr>packets := pl\<rparr>) e b"
    using writePacket_spec [OF ok race_closes_id i1] by blast
  let ?c = "b\<lparr>packets := Put (poly D) (pkt_pool D) ?q (packets b)\<rparr>"
  let ?d = "?c\<lparr>streams := AList.delete (st_id st) (streams ?c)\<rparr>"
  have eq: "closeSend D True s a = Some (e, ?d)"
    using st op g w(1) out1(2) by (simp add: closeSend_def closeSend_with_def)
  have "I (packets b)"
    using w(2) by (simp add: inv_defs)
  then have d: "async_inv V I J ?d"
    by (intro inv_delete inv_packets w(2) Put_keeps [OF poly pok])
  have fin: "e = None \<Longrightarrow> a_out ?d = a_out a @ close_frame (st_id st) \<and> stream_at ?d s = Some (shut_stream D st)"
    using w(3) out1 clean_close_frame(1) [OF poly pl(2)] wrote_frame(5) [of D ?q "?a1\<lparr>packets := pl\<rparr>" b] st
    by (auto simp: write_outcome_def wrote_def a_out_def stream_at_def set_stream_def split: if_splits)
  have "e \<noteq> None \<Longrightarrow> a_closed ?d"
    using w(3) clean_close_frame(2) [OF poly pl(2)] by (auto simp: write_outcome_def)
  then show ?thesis
    using eq d fin by (simp add: delete_conv')
qed

lemma closeSend_again:
  "stream_at a s = Some st \<Longrightarrow> st_closed st \<Longrightarrow> closeSend D lock s a = Some (Some StreamClosed, a)"
  by (simp add: closeSend_def closeSend_with_def)

section \<open>Writing on a stream\<close>

lemma Stream_WritePacket_spec:
  assumes "deps_ok D V I J" and "race_closes V I J race" and "async_inv V I J a" and "stream_at a s = Some st"
  shows "\<exists>e q a'. Stream_WritePacket D race s p a = Some (e, q, a') \<and> async_inv V I J a' \<and>
    (e = None \<longrightarrow> \<not> st_closed st \<and> ContentLength (Metadata p) \<noteq> 0 \<and>
       q = p\<lparr>Metadata := (Metadata p)\<lparr>PacketId := st_id st, Operation := STREAM\<rparr>\<rparr> \<and> wrote D q a a') \<and>
    (st_closed st \<longrightarrow> e = Some StreamClosed \<and> q = p \<and> a' = a) \<and>
    (\<not> st_closed st \<and> ContentLength (Metadata p) = 0 \<longrightarrow> e = Some InvalidStreamPacket \<and> q = p \<and> a' = a)"
proof (cases "st_closed st \<or> ContentLength (Metadata p) = 0")
  case True
  then show ?thesis
    using assms(3,4) by (auto simp: Stream_WritePacket_def)
next
  case False
  let ?q = "p\<lparr>Metadata := (Metadata p)\<lparr>PacketId := st_id st, Operation := STREAM\<rparr>\<rparr>"
  obtain e a' where "writePacket D race True ?q a = Some (e, a')" "async_inv V I J a'"
      "write_outcome D True ?q a e a'"
    using writePacket_spec [OF assms(1-3)] by blast
  with False assms(4) show ?thesis
    by (auto simp: Stream_WritePacket_def write_outcome_def)
qed

text \<open>An example run: two packets, written and flushed on a fresh connection.\<close>

definition example_packets :: "byte list packet list" where
  "example_packets =
     [\<lparr>Metadata = \<lparr>Magic = 0, PacketId = 1, Operation = 12, ContentLength = 1\<rparr>, Content = [7]\<rparr>,
      \<lparr>Metadata = \<lparr>Magic = 0, PacketId = 2, Operation = 13, ContentLength = 0\<rparr>, Content = []\<rparr>]"

definition example_bytes :: "byte list" where
  "example_bytes = [0, 15, 0, 1, 0, 12, 0, 0, 0, 1, 7, 0, 15, 0, 2, 0, 13, 0, 0, 0, 0]"

lemma example_frames: "concat (map (frame list_polyglot) example_packets) = example_bytes"
  by (simp add: example_packets_def example_bytes_def frame_def header_bytes_def wire_metadata_def
      PacketMagicHeader_def list_polyglot_def)

lemma example_written:
  "\<exists>b c. write_all (Async_WritePacket (list_deps 0) id) example_packets (list_async [] None) =
      Some ([None, None], b) \<and> Async_Flush (list_deps 0) b = Some (None, c) \<and> sent (a_conn c) = example_bytes"
  by (simp add: Async_WritePacket_def writePacket_def writePacket_with_def list_async_def NewAsync_def
    list_deps_def list_polyglot_def list_pool_def GetBuffer_def PutBuffer_def quiet_conn_def
    NewWriterSize_def DefaultBufferSize_def NewBuffer_def Size_def put_fields_header is_buffer_def
    header_bytes_def PacketMagicHeader_def guard_simps conn_SetDeadline_def bufw_Write.simps
    Available_def signal_flush_def Let_def Buffer_Reset_def Async_Flush_def flush_def Buffered_def
    bufw_Flush_def conn_Write_def example_packets_def example_bytes_def)

section \<open>Properties\<close>

text \<open>
  C5: \<open>WritePacket\<close> on an asynchronous connection never panics and keeps the invariant, also
  when another goroutine closes the connection meanwhile. It succeeds only on an open connection
  and for an unreserved operation with a correct and allowed length, and then exactly the frame
  of the packet was appended to what is sent or buffered and a flush is scheduled. A failure
  either changed nothing (a refused packet) or left the connection closed, with at most a prefix
  of the frame appended.
\<close>

theorem async_write_outcome:
  assumes "deps_ok D V I J" and "race_closes V I J race" and "async_inv V I J a"
  shows "\<exists>e a'. Async_WritePacket D race p a = Some (e, a') \<and> async_inv V I J a' \<and>
    (case e of
       None \<Rightarrow> RESERVED9 < Operation (Metadata p) \<and> sendable (poly D) (maxLen D) p \<and> \<not> a_closed a \<and>
         a_out a' = a_out a @ frame (poly D) p \<and> 0 < flushCh a'
     | Some _ \<Rightarrow> prefix (a_out a) (a_out a') \<and> prefix (a_out a') (a_out a @ frame (poly D) p) \<and>
         ((Operation (Metadata p) \<le> RESERVED9 \<or> \<not> sendable (poly D) (maxLen D) p) \<and> a' = a \<or> a_closed a'))"
proof -
  obtain e a' where "Async_WritePacket D race p a = Some (e, a')" "async_inv V I J a'"
      "case e of None \<Rightarrow> RESERVED9 < Operation (Metadata p) \<and> wrote D p a a'
       | Some _ \<Rightarrow> prefix (a_out a) (a_out a') \<and> prefix (a_out a') (a_out a @ frame (poly D) p) \<and>
         ((Operation (Metadata p) \<le> RESERVED9 \<or> \<not> sendable (poly D) (maxLen D) p) \<and> a' = a \<or> a_closed a')"
    using Async_WritePacket_spec [OF assms, of p] by blast
  then show ?thesis
    by (cases e) (auto simp: wrote_def)
qed

text \<open>Witness: operation 9 is reserved and refused on a fresh connection, even if it is closed meanwhile.\<close>

theorem async_write_outcome_witness:
  "\<exists>e a'. Async_WritePacket (list_deps 0) (\<lambda>a. snd (the (Async_Close (list_deps 0) a)))
       \<lparr>Metadata = \<lparr>Magic = 0, PacketId = 1, Operation = 9, ContentLength = 1\<rparr>, Content = [7]\<rparr>
       (list_async [] None) = Some (e, a') \<and> e \<noteq> None \<and> prefix (a_out a') [0, 15, 0, 1, 0, 9, 0, 0, 0, 1, 7]"
  using async_write_outcome [OF list_deps_ok race_closes_Close [OF list_deps_ok] list_async_inv [of "[]" None],
      where p = "\<lparr>Metadata = \<lparr>Magic = 0, PacketId = 1, Operation = 9, ContentLength = 1\<rparr>, Content = [7]\<rparr>"]
  by (simp add: Async_WritePacket_def guard_simps)

text \<open>
  C6: packets reach the wire. When a run of writes on an asynchronous connection succeeds and a
  flush after it succeeds, the network has been given exactly what was buffered before followed
  by the frames of the packets, in order and without anything in between.
\<close>

theorem async_writes_reach_wire:
  assumes "deps_ok D V I J" and "async_inv V I J a"
    and "write_all (Async_WritePacket D id) ps a = Some (es, b)" and "set es \<subseteq> {None}"
    and "Async_Flush D b = Some (None, c)"
  shows "sent (a_conn c) = a_out a @ concat (map (frame (poly D)) ps)"
proof -
  have b: "async_inv V I J b" "a_out b = a_out a @ concat (map (frame (poly D)) ps)"
    using write_all_frames [OF assms(1-4)] by auto
  then have "a_out c = a_out b" "wbuf (a_writer c) = []"
    using Async_Flush_spec [OF assms(1) b(1)] assms(5) by auto
  then show ?thesis
    using b(2) by (simp add: a_out_def bufw_out_def)
qed

text \<open>Witness: two packets, written and flushed on a fresh connection.\<close>

theorem async_writes_reach_wire_witness:
  "\<exists>b c. write_all (Async_WritePacket (list_deps 0) id) example_packets (list_async [] None) =
      Some ([None, None], b) \<and> Async_Flush (list_deps 0) b = Some (None, c) \<and> sent (a_conn c) = example_bytes"
proof -
  obtain b c where bc: "write_all (Async_WritePacket (list_deps 0) id) example_packets (list_async [] None)
      = Some ([None, None], b)" "Async_Flush (list_deps 0) b = Some (None, c)"
    using example_written by blast
  have "poly (list_deps 0) = list_polyglot"
    by (simp add: list_deps_def)
  then show ?thesis
    using async_writes_reach_wire [OF list_deps_ok list_async_inv bc(1) _ bc(2)] bc example_frames by simp
qed



text \<open>
  C22: \<open>Close\<close> succeeds on every connection and again on a closed one, changing nothing the second
  time; whatever is written afterwards is refused and adds nothing to what was sent or buffered.
\<close>

theorem async_close_final:
  assumes "deps_ok D V I J" and "async_inv V I J a"
  shows "\<exists>a'. Async_Close D a = Some (None, a') \<and> Async_Close D a' = Some (None, a') \<and>
    (\<forall>ps. \<exists>es a''. write_all (Async_WritePacket D id) ps a' = Some (es, a'') \<and> length es = length ps \<and>
       None \<notin> set es \<and> a_out a'' = a_out a')"
  using async_contract.writes_after_close assms by blast

text \<open>Witness: a fresh connection.\<close>

theorem async_close_final_witness:
  "\<exists>a'. Async_Close (list_deps 0) (list_async [] None) = Some (None, a') \<and>
    Async_Close (list_deps 0) a' = Some (None, a')"
  using async_close_final [OF list_deps_ok list_async_inv, of 0 "[]" None] by blast

text \<open>
  C20: no received packet is lost when the connection is closed. Packets come out in the order
  in which they were queued; those not yet delivered at the close are delivered by the reads
  after it, and then every read reports that the connection is closed.
\<close>

theorem async_no_packet_lost:
  assumes "deps_ok D V I J" and "async_inv V I J a" and "\<not> a_closed a"
    and "items V (incoming a) = ps @ qs"
  shows "\<exists>a1 a2 a3. read_many (Async_ReadPacket D id) (length ps) a = Returns (map Inr ps, a1) \<and>
    close D a1 = Some (None, a2) \<and>
    read_many (Async_ReadPacket D id) (length qs + k) a2 =
      Returns (map Inr qs @ replicate k (Inl ConnectionClosed), a3)"
proof -
  obtain a1 where 1: "read_many (Async_ReadPacket D id) (length ps) a = Returns (map Inr ps, a1)"
      "async_inv V I J a1" "\<not> a_closed a1" "items V (incoming a1) = qs"
    using async_reader.read_open [of D V I J a ps qs] assms by blast
  obtain a2 where 2: "close D a1 = Some (None, a2)" "async_inv V I J a2" "a_closed a2"
      "a_stale a2 = items V (incoming a1)"
    by (rule close_open [OF assms(1) async_inv_pre [OF 1(2)] 1(3)])
  show ?thesis
    using async_reader.read_closed [of D V I J a2 qs k] assms(1) 1 2 by blast
qed

text \<open>Witness: two packets are queued; one is read before the close and one after it.\<close>

theorem async_no_packet_lost_witness:
  "\<exists>a1 a2 a3. read_many (Async_ReadPacket (list_deps 0) id) 1
      ((list_async [] None)\<lparr>incoming := (10, False, [PINGPacket list_polyglot, PONGPacket list_polyglot])\<rparr>)
      = Returns ([Inr (PINGPacket list_polyglot)], a1) \<and>
    close (list_deps 0) a1 = Some (None, a2) \<and>
    read_many (Async_ReadPacket (list_deps 0) id) 2 a2 =
      Returns ([Inr (PONGPacket list_polyglot), Inl ConnectionClosed], a3)"
proof -
  let ?a = "(list_async [] None)\<lparr>incoming := (10, False, [PINGPacket list_polyglot, PONGPacket list_polyglot])\<rparr>"
  have "async_inv list_view good_packets good_buffers ?a"
    using list_async_inv [of "[]" None] by (simp add: inv_defs list_view_def)
  then show ?thesis
    using async_no_packet_lost [OF list_deps_ok, of ?a "[PINGPacket list_polyglot]"
        "[PONGPacket list_polyglot]" 0 1]
    by (simp add: list_view_def numeral_2_eq_2)
qed

text \<open>
  C27: the same holds for a stream that is closed by either side: packets queued on it are
  delivered in order, before and after the close, and then reads report that it is closed.
\<close>

theorem stream_no_packet_lost:
  assumes "circular_ok (circ D) V" and "stream_inv V st" and "\<not> st_closed st"
    and "items V (st_queue st) = ps @ qs"
  shows "\<exists>st1 st2. read_many (Stream_ReadPacket D id) (length ps) st = Returns (map Inr ps, st1) \<and>
    read_many (Stream_ReadPacket D id) (length qs + k) (shut_stream D st1) =
      Returns (map Inr qs @ replicate k (Inl StreamClosed), st2)"
  using stream_reader.no_loss [of D V st ps qs k] assms by blast

text \<open>Witness: a stream with two packets, of which one is read before the close.\<close>

theorem stream_no_packet_lost_witness:
  "\<exists>st1 st2. read_many (Stream_ReadPacket (list_deps 0) id) 1
      \<lparr>st_id = 5, st_closed = False, st_queue = (10, False, [PINGPacket list_polyglot, PONGPacket list_polyglot]),
       st_stale = []\<rparr> = Returns ([Inr (PINGPacket list_polyglot)], st1) \<and>
    read_many (Stream_ReadPacket (list_deps 0) id) 2 (shut_stream (list_deps 0) st1) =
      Returns ([Inr (PONGPacket list_polyglot), Inl StreamClosed], st2)"
  using stream_no_packet_lost [OF deps_okD(4) [OF list_deps_ok], where k = 1,
      of "\<lparr>st_id = 5, st_closed = False,
          st_queue = (10, False, [PINGPacket list_polyglot, PONGPacket list_polyglot]), st_stale = []\<rparr>"
        "[PINGPacket list_polyglot]" "[PONGPacket list_polyglot]" 0]
  by (simp add: list_view_def stream_inv_def numeral_2_eq_2)

text \<open>
  C28: closing a stream tells the peer once. The first \<open>Close\<close> of an open stream removes it from
  the connection's table and, unless the connection fails and closes, sends one frame with the
  stream's identifier and no content; after that, closing again returns \<open>StreamClosed\<close> and
  changes nothing, and the stream refuses packets.
\<close>

theorem stream_close_once:
  assumes "deps_ok D V I J" and "async_inv V I J a" and "stream_at a s = Some st" and "\<not> st_closed st"
  shows "\<exists>e a'. Stream_Close D s a = Some (e, a') \<and> async_inv V I J a' \<and>
    map_of (streams a') (st_id st) = None \<and> (e \<noteq> None \<longrightarrow> a_closed a') \<and>
    (e = None \<longrightarrow> a_out a' = a_out a @ close_frame (st_id st) \<and>
       Stream_Close D s a' = Some (Some StreamClosed, a') \<and>
       Stream_WritePacket D id s p a' = Some (Some StreamClosed, p, a'))"
proof -
  obtain e a' where c: "Stream_Close D s a = Some (e, a')" "async_inv V I J a'"
      "map_of (streams a') (st_id st) = None" "e \<noteq> None \<longrightarrow> a_closed a'"
      "e = None \<longrightarrow> a_out a' = a_out a @ close_frame (st_id st) \<and> stream_at a' s = Some (shut_stream D st)"
    using closeSend_spec [OF assms] by (auto simp: Stream_Close_def)
  have "st_closed (shut_stream D st)"
    by (rule shut_stream_inv(3) [OF deps_okD(4) [OF assms(1)]])
  then show ?thesis
    using c closeSend_again [of a' s _ D True]
    by (intro exI [of _ e] exI [of _ a']) (auto simp: Stream_Close_def Stream_WritePacket_def)
qed

text \<open>Witness: the first stream of a fresh connection.\<close>

theorem stream_close_once_witness:
  "\<exists>e a'. Stream_Close (list_deps 0) 0 (snd (NewStream (list_deps 0) 5 (list_async [] None))) = Some (e, a') \<and>
    map_of (streams a') 5 = None \<and>
    (e = None \<longrightarrow> a_out a' = [0, 15, 0, 5, 0, 2, 0, 0, 0, 0])"
proof -
  let ?s = "NewStream (list_deps 0) 5 (list_async [] None)"
  let ?st = "\<lparr>st_id = 5, st_closed = False, st_queue = q_new list_circular DefaultStreamBufferSize,
    st_stale = []\<rparr> :: (byte list, list_queue) stream"
  have "async_inv list_view good_packets good_buffers (snd ?s)"
    by (rule NewStream_spec(1) [OF list_deps_ok list_async_inv, of 0 5 "[]" None "fst ?s"]) simp
  moreover have "stream_at (snd ?s) 0 = Some ?st" "a_out (snd ?s) = []"
    by (simp_all add: NewStream_def newStream_def stream_at_def list_deps_def a_out_def bufw_out_def
        NewWriterSize_def quiet_conn_def)
  ultimately show ?thesis
    using stream_close_once [OF list_deps_ok, of "snd ?s" 0 ?st 0 undefined]
    by (simp add: close_frame_def header_bytes_def PacketMagicHeader_def guard_simps) blast
qed

text \<open>
  C29: opening a stream is idempotent and does not disturb the other streams: it returns the
  stream registered under the identifier, makes and registers one when there is none, and leaves
  every other registration and every existing stream object as it was.
\<close>

theorem NewStream_registers:
  assumes "deps_ok D V I J" and "async_inv V I J a" and "NewStream D sid a = (s, a')"
  shows "async_inv V I J a' \<and> map_of (streams a') sid = Some s \<and>
    (\<exists>st. stream_at a' s = Some st \<and> st_id st = sid) \<and> NewStream D sid a' = (s, a') \<and>
    (\<forall>k. k \<noteq> sid \<longrightarrow> map_of (streams a') k = map_of (streams a) k) \<and>
    (\<forall>i<length (stream_objs a). stream_objs a' ! i = stream_objs a ! i)"
  using NewStream_spec [OF assms] by (auto simp: stream_at_def)

text \<open>Witness: opening stream 5 twice on a fresh connection.\<close>

theorem NewStream_registers_witness:
  "\<exists>s a'. NewStream (list_deps 0) 5 (list_async [] None) = (s, a') \<and> map_of (streams a') 5 = Some s \<and>
    NewStream (list_deps 0) 5 a' = (s, a')"
  using NewStream_registers [OF list_deps_ok list_async_inv, of 0 5 "[]" None]
  by (metis prod.collapse)

text \<open>
  C40: an operation on a closed connection replaces the error it was closed with. \<open>Flush\<close> joins
  \<open>ConnectionClosed\<close> with itself and stores that, so \<open>Error\<close> no longer returns the error that
  caused the connection to close.
\<close>

theorem flush_replaces_error:
  assumes "a_closed a"
  shows "Async_Flush D a = Some (Some (Joined ConnectionClosed ConnectionClosed),
      a\<lparr>a_error := Some (Joined ConnectionClosed ConnectionClosed)\<rparr>)"
  using assms by (simp add: Async_Flush_def closeWithError_closed)

text \<open>Witness: a connection that the peer ended loses that error on a flush.\<close>

theorem flush_replaces_error_witness:
  "Async_Error ((list_async [] None)\<lparr>a_closed := True, a_error := Some IoEOF\<rparr>) = Some IoEOF \<and>
   (\<exists>a'. Async_Flush (list_deps 0) ((list_async [] None)\<lparr>a_closed := True, a_error := Some IoEOF\<rparr>) =
      Some (Some (Joined ConnectionClosed ConnectionClosed), a') \<and>
    Async_Error a' = Some (Joined ConnectionClosed ConnectionClosed))"
  using flush_replaces_error [of "(list_async [] None)\<lparr>a_closed := True, a_error := Some IoEOF\<rparr>" "list_deps 0"]
  by (simp add: Async_Error_def)

end
