(* ===== verification/Async_Read.thy ===== *)
theory Async_Read
  imports Async_Streams
begin

text \<open>
  The read loop of the asynchronous connection (\<^verbatim>\<open>readLoop\<close> in \<^verbatim>\<open>async.go\<close>): it cuts the byte
  stream into packets in one buffer that it refills and grows, answers pings, and hands packets
  to the incoming queue or to a stream. The local variables \<open>buf\<close> (always resliced to its
  capacity), \<open>index\<close> and \<open>n\<close> are arguments; \<open>stream\<close>, \<open>isStream\<close> and \<open>newStreamHandler\<close> are
  reset at the end of the case that sets them and are local to one iteration here.

  As before \<^const>\<open>None\<close> is a panic; for the loops it also stands for not returning.
\<close>

section \<open>Definitions\<close>

text \<open>
  The loop that appears four times: read into the buffer from position \<open>off\<close> until \<open>mn\<close> bytes
  are there. An error that comes with enough bytes is dropped. The result is the error to close
  the connection with, if any. With no space left in the buffer the slice is empty or out of
  range, and the loop would panic or spin.
\<close>

function fill ::
    "nat \<Rightarrow> nat \<Rightarrow> nat \<Rightarrow> byte list \<Rightarrow> netconn \<Rightarrow> (goerror option \<times> nat \<times> byte list \<times> netconn) option" where
  "fill off mn n buf c =
     (if n < mn
      then (case conn_SetDeadline c of
              (Some err, c1) \<Rightarrow> Some (Some err, n, buf, c1)
            | (None, c1) \<Rightarrow>
                if length buf \<le> off + n then None
                else (case conn_Read c1 (length buf - (off + n)) of (bs, e, c2) \<Rightarrow>
                  (let buf' = take (off + n) buf @ bs @ drop (off + n + length bs) buf;
                       n' = n + length bs in
                   case e of
                     Some err \<Rightarrow> Some (if n' < mn then Some err else None, n', buf', c2)
                   | None \<Rightarrow> fill off mn n' buf' c2)))
      else Some (None, n, buf, c))"
  by pat_completeness auto
termination
proof (relation "measure (\<lambda>(off, mn, n, buf, c). read_budget c)")
  fix off mn n :: nat and buf bs buf' :: "byte list" and c c1 c2 :: netconn and x y e n'
  assume "(x, c1) = conn_SetDeadline c" "\<not> length buf \<le> off + n"
    "(bs, y) = conn_Read c1 (length buf - (off + n))" "(e, c2) = y" "e = None"
  then show "((off, mn, n', buf', c2), off, mn, n, buf, c) \<in> measure (\<lambda>(off, mn, n, buf, c). read_budget c)"
    using conn_Read_budget [of c1 "length buf - (off + n)" bs c2] conn_SetDeadline_frame [of c x c1]
    by (simp add: read_budget_frame [of c1 c])
qed simp

declare fill.simps [simp del]

text \<open>\<^verbatim>\<open>append(buf[:cap(buf)], 0)\<close> until the capacity suffices; \<open>slack\<close> is the runtime's growth.\<close>

function grow :: "(nat \<Rightarrow> nat) \<Rightarrow> byte list \<Rightarrow> nat \<Rightarrow> byte list" where
  "grow slack buf mn =
     (if length buf < mn then grow slack (buf @ replicate (1 + slack (length buf)) 0) mn else buf)"
  by pat_completeness auto
termination
  by (relation "measure (\<lambda>(slack, buf, mn). mn - length buf)") auto

declare grow.simps [simp del]

text \<open>The content of a packet: from the buffer, or what is there and the rest from the network.\<close>

definition read_content ::
    "(nat \<Rightarrow> nat) \<Rightarrow> 'c polyglot \<Rightarrow> 'c packet \<Rightarrow> byte list \<Rightarrow> nat \<Rightarrow> nat \<Rightarrow> netconn
      \<Rightarrow> (goerror option \<times> 'c packet \<times> byte list \<times> nat \<times> nat \<times> netconn) option" where
  "read_content slack P p buf index n c =
     (let len = unat (ContentLength (Metadata p)) in
      if 0 < len
      then if n < index + len
        then do {
          chunk \<leftarrow> go_slice buf index n;
          let (k, content) = pg_write P (Content p) chunk;
          let minSize = len - k;
          let buf = grow slack buf minSize;
          (e, n, buf, c) \<leftarrow> fill 0 minSize 0 buf c;
          (case e of
             Some err \<Rightarrow> Some (Some err, p\<lparr>Content := content\<rparr>, buf, index, n, c)
           | None \<Rightarrow> do {
               rest \<leftarrow> go_slice buf 0 minSize;
               let (_, content) = pg_write P content rest;
               Some (None, p\<lparr>Content := content\<rparr>, buf, minSize, n, c)
             })
        }
        else do {
          body \<leftarrow> go_slice buf index (index + len);
          let (k, content) = pg_write P (Content p) body;
          Some (None, p\<lparr>Content := content\<rparr>, buf, index + k, n, c)
        }
      else Some (None, p, buf, index, n, c))"

text \<open>What an iteration leads to: the next one, the end of the goroutine, or waiting for room in a queue.\<close>

datatype ('s, 'a) flow = Next 's | Ended 'a | Blocked 'a

definition ended ::
    "('c, 'q, 'pl, 'bl) deps \<Rightarrow> goerror \<Rightarrow> ('c, 'q, 'pl, 'bl, 'h) async
      \<Rightarrow> ('s, ('c, 'q, 'pl, 'bl, 'h) async) flow option" where
  "ended D err a = do { (_, a) \<leftarrow> leave_with D err a; Some (Ended a) }"

text \<open>Where a packet goes: \<open>isStream\<close>, the handler for new streams, and the stream.\<close>

definition destination ::
    "metadata \<Rightarrow> ('c, 'q, 'pl, 'bl, 'h) async \<Rightarrow> bool \<times> 'h option \<times> nat option" where
  "destination m a =
     (let isStream = (Operation m = STREAM);
          handler = (if isStream then newStreamHandler a else None)
      in (isStream, handler,
          if isStream \<and> (handler \<noteq> None \<or> ContentLength m = 0) then map_of (streams a) (PacketId m)
          else None))"

definition deliver ::
    "('c, 'q, 'pl, 'bl) deps \<Rightarrow> bool \<times> 'h option \<times> nat option \<Rightarrow> 'c packet \<Rightarrow> ('c, 'q, 'pl, 'bl, 'h) async
      \<Rightarrow> (('c, 'q, 'pl, 'bl, 'h) async, ('c, 'q, 'pl, 'bl, 'h) async) flow option" where
  "deliver D dest p a =
     (let (isStream, handler, stream) = dest; sid = PacketId (Metadata p);
          drop_packet = (\<lambda>a. a\<lparr>packets := Put (poly D) (pkt_pool D) p (packets a)\<rparr>) in
      if \<not> isStream
      then (case q_push (circ D) p (incoming a) of
              Blocks \<Rightarrow> Some (Blocked a)
            | Returns (None, q) \<Rightarrow> Some (Next (a\<lparr>incoming := q\<rparr>))
            | Returns (Some err, q) \<Rightarrow> ended D err (a\<lparr>incoming := q\<rparr>))
      else if ContentLength (Metadata p) = 0
      then do {
        a \<leftarrow> (case stream of
               Some s \<Rightarrow> do {
                 a \<leftarrow> Stream_close D s a;
                 Some (a\<lparr>streams := AList.delete sid (streams a)\<rparr>)
               }
             | None \<Rightarrow> Some a);
        Some (Next (drop_packet a))
      }
      else case handler of
        None \<Rightarrow> Some (Next (drop_packet a))
      | Some h \<Rightarrow> do {
          let (s, a) = (case stream of
              Some s \<Rightarrow> (s, a)
            | None \<Rightarrow> (let (s, a) = newStream D sid a in
                (s, a\<lparr>streams := AList.update sid s (streams a), spawned := spawned a @ [(h, s)]\<rparr>)));
          st \<leftarrow> stream_at a s;
          (case q_push (circ D) p (st_queue st) of
             Blocks \<Rightarrow> Some (Blocked a)
           | Returns (None, q) \<Rightarrow> Some (Next (set_stream s (st\<lparr>st_queue := q\<rparr>) a))
           | Returns (Some err, q) \<Rightarrow> ended D err (set_stream s (st\<lparr>st_queue := q\<rparr>) a))
        })"

text \<open>The end of an iteration: make sure that a whole header is in the buffer.\<close>

definition refill ::
    "byte list \<Rightarrow> nat \<Rightarrow> nat \<Rightarrow> netconn \<Rightarrow> (goerror option \<times> byte list \<times> nat \<times> nat \<times> netconn) option" where
  "refill buf index n c =
     (if n = index
      then if length buf < Size then Some (Some InvalidBufferLength, buf, 0, n, c)
        else do { (e, n, buf, c) \<leftarrow> fill 0 Size 0 buf c; Some (e, buf, 0, n, c) }
      else if n < index + Size
      then do {
        rest \<leftarrow> go_slice buf index n;
        let buf = go_copy buf rest;
        let index = n - index;
        let minSize = Size - index;
        (if length buf < minSize then Some (Some InvalidBufferLength, buf, index, index, c)
         else do { (e, n, buf, c) \<leftarrow> fill index minSize 0 buf c; Some (e, buf, 0, n + index, c) })
      }
      else Some (None, buf, index, n, c))"

definition readLoop_body ::
    "(nat \<Rightarrow> nat) \<Rightarrow> ('c, 'q, 'pl, 'bl) deps
      \<Rightarrow> (('c, 'q, 'pl, 'bl, 'h) async \<Rightarrow> ('c, 'q, 'pl, 'bl, 'h) async)
      \<Rightarrow> byte list \<Rightarrow> nat \<Rightarrow> nat \<Rightarrow> ('c, 'q, 'pl, 'bl, 'h) async
      \<Rightarrow> (byte list \<times> nat \<times> nat \<times> ('c, 'q, 'pl, 'bl, 'h) async, ('c, 'q, 'pl, 'bl, 'h) async) flow option" where
  "readLoop_body slack D race buf index n a = do {
     let (p, pl) = Get (pkt_pool D) (packets a);
     let a = a\<lparr>packets := pl\<rparr>;
     m \<leftarrow> get_fields buf index;
     let p = p\<lparr>Metadata := m\<rparr>;
     let index = index + Size;
     (if Magic m \<noteq> PacketMagicHeader then ended D InvalidMagicHeader a
      else if exceeds_max (maxLen D) (ContentLength m) then ended D ContentLengthExceeded a
      else do {
        r \<leftarrow> (if Operation m = PING
              then do {
                (err, a) \<leftarrow> writePacket D race False (PONGPacket (poly D)) a;
                (case err of
                   Some e \<Rightarrow> ended D e a
                 | None \<Rightarrow> Some (Next (buf, index, n, a\<lparr>packets := Put (poly D) (pkt_pool D) p (packets a)\<rparr>)))
              }
              else if Operation m = PONG
              then Some (Next (buf, index, n, a\<lparr>packets := Put (poly D) (pkt_pool D) p (packets a)\<rparr>))
              else do {
                let dest = destination m a;
                (e, p, buf, index, n, c) \<leftarrow> read_content slack (poly D) p buf index n (a_conn a);
                let a = a\<lparr>a_conn := c\<rparr>;
                (case e of
                   Some err \<Rightarrow> ended D err a
                 | None \<Rightarrow> do {
                     r \<leftarrow> deliver D dest p a;
                     (case r of
                        Next a \<Rightarrow> Some (Next (buf, index, n, a))
                      | Ended a \<Rightarrow> Some (Ended a)
                      | Blocked a \<Rightarrow> Some (Blocked a))
                   })
              });
        (case r of
           Next (buf, index, n, a) \<Rightarrow> do {
             (e, buf, index, n, c) \<leftarrow> refill buf index n (a_conn a);
             let a = a\<lparr>a_conn := c\<rparr>;
             (case e of
                Some err \<Rightarrow> ended D err a
              | None \<Rightarrow> Some (Next (buf, index, n, a)))
           }
         | Ended a \<Rightarrow> Some (Ended a)
         | Blocked a \<Rightarrow> Some (Blocked a))
      })
   }"

text \<open>The start of the outer loop.\<close>

definition readLoop_head ::
    "('c, 'q, 'pl, 'bl) deps \<Rightarrow> byte list \<Rightarrow> ('c, 'q, 'pl, 'bl, 'h) async
      \<Rightarrow> (byte list \<times> nat \<times> nat \<times> ('c, 'q, 'pl, 'bl, 'h) async, ('c, 'q, 'pl, 'bl, 'h) async) flow option" where
  "readLoop_head D buf a =
     (if length buf < Size then ended D InvalidBufferLength a
      else do {
        (e, n, buf, c) \<leftarrow> fill 0 Size 0 buf (a_conn a);
        let a = a\<lparr>a_conn := c\<rparr>;
        (case e of
           Some err \<Rightarrow> ended D err a
         | None \<Rightarrow> Some (Next (buf, 0, n, a)))
      })"

text \<open>The two nested loops: inside while \<open>index < n\<close>, otherwise back to the start.\<close>

partial_function (option) readLoop_from ::
    "(nat \<Rightarrow> nat) \<Rightarrow> ('c, 'q, 'pl, 'bl) deps
      \<Rightarrow> (('c, 'q, 'pl, 'bl, 'h) async \<Rightarrow> ('c, 'q, 'pl, 'bl, 'h) async)
      \<Rightarrow> byte list \<Rightarrow> nat \<Rightarrow> nat \<Rightarrow> ('c, 'q, 'pl, 'bl, 'h) async
      \<Rightarrow> (unit, ('c, 'q, 'pl, 'bl, 'h) async) flow option" where
  "readLoop_from slack D race buf index n a = do {
     r \<leftarrow> (if index < n then readLoop_body slack D race buf index n a else readLoop_head D buf a);
     (case r of
        Next (buf, index, n, a) \<Rightarrow> readLoop_from slack D race buf index n a
      | Ended a \<Rightarrow> Some (Ended a)
      | Blocked a \<Rightarrow> Some (Blocked a))
   }"

definition readLoop ::
    "(nat \<Rightarrow> nat) \<Rightarrow> ('c, 'q, 'pl, 'bl) deps
      \<Rightarrow> (('c, 'q, 'pl, 'bl, 'h) async \<Rightarrow> ('c, 'q, 'pl, 'bl, 'h) async)
      \<Rightarrow> ('c, 'q, 'pl, 'bl, 'h) async \<Rightarrow> (unit, ('c, 'q, 'pl, 'bl, 'h) async) flow option" where
  "readLoop slack D race a = readLoop_from slack D race (replicate DefaultBufferSize 0) 0 0 a"

end
