(* ===== verification/Async_Read_Inv.thy ===== *)
theory Async_Read_Inv
  imports Async_Read
begin

text \<open>
  The read loop against any network: its indices stay in range, it never panics and always
  comes to an end, and it keeps the invariant of the connection. The laws of its helpers also
  say where each byte goes, which the delivery theorems are built on.
\<close>

section \<open>Filling the buffer\<close>

text \<open>What reading leaves alone in a connection.\<close>

definition read_frame :: "netconn \<Rightarrow> netconn \<Rightarrow> bool" where
  "read_frame c c' \<longleftrightarrow> sent c' = sent c \<and> shut c' = shut c \<and> writes c' = writes c \<and>
     read_end c' = read_end c \<and> (deadlines c = [] \<longrightarrow> deadlines c' = [])"

lemma read_frame_refl [simp]: "read_frame c c"
  by (simp add: read_frame_def)

lemma read_frame_trans: "read_frame c c' \<Longrightarrow> read_frame c' c'' \<Longrightarrow> read_frame c c''"
  by (simp add: read_frame_def)

text \<open>A network on which only the end of the stream is an error.\<close>

definition healthy :: "netconn \<Rightarrow> bool" where
  "healthy c \<longleftrightarrow> reads_cleanly c \<and> accepts_writes c"

lemma conn_SetDeadline_read:
  assumes "conn_SetDeadline c = (e, c')"
  shows "read_frame c c'" and "unread c' = unread c" and "healthy c \<Longrightarrow> e = None \<and> c' = c"
  using conn_SetDeadline_frame [OF assms] assms
  by (auto simp: read_frame_def unread_def healthy_def accepts_writes_def conn_SetDeadline_def
      split: if_splits list.splits)

lemma conn_Read_read:
  assumes "conn_Read c k = (bs, e, c')"
  shows "read_frame c c'" and "healthy c \<Longrightarrow> healthy c'"
  using conn_Read_frame [OF assms] conn_Read_clean(1) [OF _ assms]
  by (auto simp: read_frame_def healthy_def accepts_writes_def)

definition filled ::
    "nat \<Rightarrow> nat \<Rightarrow> nat \<Rightarrow> byte list \<Rightarrow> netconn \<Rightarrow> goerror option \<Rightarrow> nat \<Rightarrow> byte list \<Rightarrow> netconn \<Rightarrow> bool" where
  "filled off mn n buf c e n' buf' c' \<longleftrightarrow>
     length buf' = length buf \<and> off + n' \<le> length buf \<and> n \<le> n' \<and> (e = None \<longrightarrow> mn \<le> n') \<and>
     take (off + n) buf' = take (off + n) buf \<and>
     drop (off + n) (take (off + n') buf') @ unread c' = unread c \<and> read_frame c c' \<and>
     (healthy c \<longrightarrow> healthy c' \<and> e = (if mn \<le> n + length (unread c) then None else Some (read_end c)))"

lemma fill_step:
  assumes r: "conn_Read c1 (length buf - k) = (bs, e, c2)" and k: "k < length buf"
  defines "buf' \<equiv> take k buf @ bs @ drop (k + length bs) buf"
  shows "length buf' = length buf" and "k + length bs \<le> length buf" and "take k buf' = take k buf"
    and "take (k + length bs) buf' = take k buf @ bs" and "bs @ unread c2 = unread c1"
  using conn_Read_bytes [OF r] k by (simp_all add: buf'_def)

lemma fill_spec:
  assumes "off + mn \<le> length buf" and "off + n \<le> length buf"
  shows "\<exists>e n' buf' c'. fill off mn n buf c = Some (e, n', buf', c') \<and> filled off mn n buf c e n' buf' c'"
  using assms
proof (induction off mn n buf c rule: fill.induct)
  case (1 off mn n buf c)
  obtain d c1 where d: "conn_SetDeadline c = (d, c1)" by (cases "conn_SetDeadline c")
  note sd = conn_SetDeadline_read [OF d]
  show ?case
  proof (cases "n < mn \<and> d = None")
    case False
    then show ?thesis
      using "1.prems" sd d
      by (cases d) (auto simp: fill.simps [of off mn n buf c] filled_def)
  next
    case True
    then have room: "off + n < length buf" "\<not> length buf \<le> off + n" and dn: "d = None" "n < mn"
      using "1.prems" by auto
    obtain bs e c2 where r: "conn_Read c1 (length buf - (off + n)) = (bs, e, c2)"
      by (cases "conn_Read c1 (length buf - (off + n))")
    define buf1 where "buf1 = take (off + n) buf @ bs @ drop (off + n + length bs) buf"
    note st = fill_step [OF r room(1), folded buf1_def]
    note rd = conn_Read_read [OF r] and fr = read_frame_trans [OF sd(1) conn_Read_read(1) [OF r]]
    have hl: "healthy c \<Longrightarrow> healthy c2 \<and> (e \<noteq> None \<longrightarrow> e = Some (read_end c) \<and> bs = [] \<and> unread c = [])"
    proof -
      assume h: "healthy c"
      then have h1: "healthy c1" "c1 = c" using sd(3) by auto
      then have "reads_cleanly c1" by (simp add: healthy_def)
      then show "healthy c2 \<and> (e \<noteq> None \<longrightarrow> e = Some (read_end c) \<and> bs = [] \<and> unread c = [])"
        using conn_Read_clean(2,3) [OF _ r] rd(2) [OF h1(1)] h1(2) by (auto simp: unread_def)
    qed
    show ?thesis
    proof (cases e)
      case (Some err)
      then have "fill off mn n buf c =
          Some (if n + length bs < mn then Some err else None, n + length bs, buf1, c2)"
        using dn room d r by (simp add: fill.simps [of off mn n buf c] buf1_def)
      moreover have "filled off mn n buf c (if n + length bs < mn then Some err else None)
          (n + length bs) buf1 c2"
        using st fr sd(2) hl Some dn by (auto simp: filled_def add.assoc)
      ultimately show ?thesis
        by blast
    next
      case None
      obtain e2 n2 buf2 c3 where f: "fill off mn (n + length bs) buf1 c2 = Some (e2, n2, buf2, c3)"
          "filled off mn (n + length bs) buf1 c2 e2 n2 buf2 c3"
        using "1.IH" [OF dn(2) d [symmetric] dn(1) room(2) r [symmetric] refl buf1_def refl None] "1.prems" st(1,2)
        by (auto simp: add.assoc)
      have "fill off mn n buf c = Some (e2, n2, buf2, c3)"
        using dn room d r None f(1) by (simp add: fill.simps [of off mn n buf c] buf1_def)
      moreover have "filled off mn n buf c e2 n2 buf2 c3"
      proof -
        note g = f(2) [unfolded filled_def]
        have t: "take (off + n + length bs) buf2 = take (off + n) buf @ bs"
          using g st(4) by (simp add: add.assoc)
        have "take (off + n) buf2 = take (off + n) (take (off + n + length bs) buf2)"
          by (simp add: min_def)
        then have t1: "take (off + n) buf2 = take (off + n) buf"
          using t st(2) by simp
        have "drop (off + n) (take (off + n2) buf2) =
            drop (off + n) (take (off + n + length bs) buf2) @ drop (off + n + length bs) (take (off + n2) buf2)"
          using g take_drop_split [of "off + n" "off + n + length bs" "take (off + n2) buf2"]
          by (simp add: min_def)
        then have "drop (off + n) (take (off + n2) buf2) @ unread c3 = unread c"
          using t g st(2,5) sd(2) by (simp add: add.assoc)
        moreover have "healthy c3 \<and> e2 = (if mn \<le> n + length (unread c) then None else Some (read_end c))"
          if h: "healthy c"
        proof -
          have "length (unread c) = length bs + length (unread c2)" "read_end c2 = read_end c"
            using arg_cong [OF st(5), of length] sd(2) fr by (simp_all add: read_frame_def)
          then show ?thesis
            using g hl [OF h] by (simp add: add.assoc)
        qed
        moreover have "read_frame c c3"
          using read_frame_trans [OF fr] g by blast
        ultimately show ?thesis
          using t1 g st(1) by (simp add: filled_def)
      qed
      ultimately show ?thesis
        by blast
    qed
  qed
qed

lemma grow_length: "mn \<le> length (grow slack buf mn)" "length buf \<le> length (grow slack buf mn)"
  by (induction slack buf mn rule: grow.induct)
    (subst grow.simps, auto, subst grow.simps, auto dest: order_trans [rotated])

section \<open>Where the bytes go\<close>

text \<open>The bytes of the stream that no packet was made of yet: in the buffer, then on the network.\<close>

definition pend :: "byte list \<Rightarrow> nat \<Rightarrow> nat \<Rightarrow> netconn \<Rightarrow> byte list" where
  "pend buf index n c = drop index (take n buf) @ unread c"

text \<open>The indices at the top of the inner loop and after a packet.\<close>

definition rl_ok :: "byte list \<Rightarrow> nat \<Rightarrow> nat \<Rightarrow> bool" where
  "rl_ok buf index n \<longleftrightarrow> Size \<le> length buf \<and> index + Size \<le> n \<and> n \<le> length buf"

definition rl_mid :: "byte list \<Rightarrow> nat \<Rightarrow> nat \<Rightarrow> bool" where
  "rl_mid buf index n \<longleftrightarrow> Size \<le> length buf \<and> index \<le> n \<and> n \<le> length buf"

lemma length_pend:
  "rl_mid buf index n \<Longrightarrow> length (pend buf index n c) = (n - index) + length (unread c)"
  by (simp add: pend_def rl_mid_def)

definition content_read ::
    "'c polyglot \<Rightarrow> 'c packet \<Rightarrow> byte list \<Rightarrow> nat \<Rightarrow> nat \<Rightarrow> netconn
      \<Rightarrow> goerror option \<Rightarrow> 'c packet \<Rightarrow> byte list \<Rightarrow> nat \<Rightarrow> nat \<Rightarrow> netconn \<Rightarrow> bool" where
  "content_read P p buf index n c e p' buf' index' n' c' \<longleftrightarrow>
     read_frame c c' \<and> Metadata p' = Metadata p \<and>
     (e = None \<longrightarrow> rl_mid buf' index' n' \<and>
        pg_bytes P (Content p') @ pend buf' index' n' c' = pend buf index n c \<and>
        length (pg_bytes P (Content p')) = unat (ContentLength (Metadata p))) \<and>
     (healthy c \<longrightarrow> healthy c' \<and>
        e = (if unat (ContentLength (Metadata p)) \<le> length (pend buf index n c) then None
             else Some (read_end c)))"

lemma read_content_spec:
  assumes P: "polyglot_ok P" and p: "pg_bytes P (Content p) = []" and m: "rl_mid buf index n"
  shows "\<exists>e p' buf' index' n' c'. read_content slack P p buf index n c = Some (e, p', buf', index', n', c') \<and>
    content_read P p buf index n c e p' buf' index' n' c'"
proof -
  define len where "len = unat (ContentLength (Metadata p))"
  note m' = m [unfolded rl_mid_def]
  consider (none) "len = 0" | (buffered) "0 < len" "index + len \<le> n" | (short) "0 < len" "n < index + len"
    by linarith
  then show ?thesis
  proof cases
    case none
    then show ?thesis
      using m p by (simp add: read_content_def len_def content_read_def)
  next
    case buffered
    have s: "go_slice buf index (index + len) = Some (take len (drop index buf))"
      using buffered m' by simp
    have l: "length (take len (drop index buf)) = len"
      using buffered m' by auto
    obtain ct where w: "pg_write P (Content p) (take len (drop index buf)) = (len, ct)"
        "pg_bytes P ct = take len (drop index buf)"
      by (rule pg_writeE [OF P, of "Content p" "take len (drop index buf)"]) (use p l in simp)
    have "read_content slack P p buf index n c = Some (None, p\<lparr>Content := ct\<rparr>, buf, index + len, n, c)"
      using buffered s w(1) by (simp add: read_content_def len_def [symmetric])
    moreover have "content_read P p buf index n c None (p\<lparr>Content := ct\<rparr>) buf (index + len) n c"
    proof -
      have "take len (drop index buf) @ drop (index + len) (take n buf) = drop index (take n buf)"
        using buffered take_drop_split [of index "index + len" "take n buf"] by (simp add: drop_take min_def)
      then show ?thesis
        using m' buffered w(2) l length_pend [OF m, of c]
        by (auto simp: content_read_def len_def [symmetric] rl_mid_def pend_def)
    qed
    ultimately show ?thesis
      by blast
  next
    case short
    let ?a = "drop index (take n buf)"
    have s: "go_slice buf index n = Some ?a"
      using m' by (simp add: drop_take)
    obtain ct where w: "pg_write P (Content p) ?a = (n - index, ct)" "pg_bytes P ct = ?a"
      by (rule pg_writeE [OF P, of "Content p" ?a]) (use p m' in simp)
    define mn where "mn = len - (n - index)"
    define b1 where "b1 = grow slack buf mn"
    have b1: "mn \<le> length b1" "length buf \<le> length b1" and mn: "0 < mn" "len = (n - index) + mn"
      using grow_length [where mn = mn and slack = slack and buf = buf] short m' by (simp_all add: b1_def mn_def)
    obtain e n2 b2 c2 where f: "fill 0 mn 0 b1 c = Some (e, n2, b2, c2)" "filled 0 mn 0 b1 c e n2 b2 c2"
      using fill_spec [of 0 mn b1 0 c] b1 by auto
    note g = f(2) [unfolded filled_def]
    obtain ct2 where w2: "pg_write P ct (take mn b2) = (length (take mn b2), ct2)" "pg_bytes P ct2 = ?a @ take mn b2"
      by (rule pg_writeE [OF P, of ct "take mn b2"]) (use w(2) in simp)
    have s2: "go_slice b2 0 mn = Some (take mn b2)"
      using g b1 by simp
    have eq: "read_content slack P p buf index n c =
        Some (case e of Some err \<Rightarrow> (e, p\<lparr>Content := ct\<rparr>, b2, index, n2, c2)
              | None \<Rightarrow> (e, p\<lparr>Content := ct2\<rparr>, b2, mn, n2, c2))"
      using short s w(1) f(1) s2 w2(1)
      by (simp add: read_content_def len_def [symmetric] mn_def [symmetric] b1_def [symmetric]
          split: option.split)
    have hl: "healthy c2 \<and> e = (if len \<le> length (pend buf index n c) then None else Some (read_end c))"
      if "healthy c"
      using g that mn(2) length_pend [OF m, of c] by simp
    show ?thesis
    proof (cases e)
      case (Some err)
      then show ?thesis
        using eq g hl by (simp add: content_read_def len_def [symmetric])
    next
      case None
      have "take mn b2 @ drop mn (take n2 b2) @ unread c2 = unread c"
        using g None append_take_drop_id [of mn "take n2 b2"] by (simp add: min_def flip: append_assoc)
      then have "pg_bytes P ct2 @ pend b2 mn n2 c2 = pend buf index n c"
        using w2(2) by (simp add: pend_def)
      moreover have "length (pg_bytes P ct2) = len"
        using w2(2) g None m' mn(2) b1 by simp
      moreover have "rl_mid b2 mn n2"
        using g None b1 m' by (simp add: rl_mid_def)
      ultimately have "content_read P p buf index n c None (p\<lparr>Content := ct2\<rparr>) b2 mn n2 c2"
        using None g hl by (simp add: content_read_def len_def [symmetric])
      then show ?thesis
        using eq None by simp
    qed
  qed
qed

definition refilled ::
    "byte list \<Rightarrow> nat \<Rightarrow> nat \<Rightarrow> netconn \<Rightarrow> goerror option \<Rightarrow> byte list \<Rightarrow> nat \<Rightarrow> nat \<Rightarrow> netconn \<Rightarrow> bool" where
  "refilled buf index n c e buf' index' n' c' \<longleftrightarrow> read_frame c c' \<and>
     (e = None \<longrightarrow> rl_ok buf' index' n' \<and> pend buf' index' n' c' = pend buf index n c) \<and>
     (healthy c \<longrightarrow> healthy c' \<and>
        e = (if Size \<le> length (pend buf index n c) then None else Some (read_end c)))"

lemma refill_spec:
  assumes m: "rl_mid buf index n"
  shows "\<exists>e buf' index' n' c'. refill buf index n c = Some (e, buf', index', n', c') \<and>
    refilled buf index n c e buf' index' n' c'"
proof -
  note m' = m [unfolded rl_mid_def] and lp = length_pend [OF m, of c]
  have sz: "0 < Size" by (simp add: Size_def)
  consider (empty) "n = index" | (part) "index < n" "n < index + Size" | (full) "index + Size \<le> n" "n \<noteq> index"
    using m' sz by linarith
  then show ?thesis
  proof cases
    case empty
    obtain e n2 b2 c2 where f: "fill 0 Size 0 buf c = Some (e, n2, b2, c2)" "filled 0 Size 0 buf c e n2 b2 c2"
      using fill_spec [of 0 Size buf 0 c] m' by auto
    then show ?thesis
      using empty m' lp by (auto simp: refill_def refilled_def filled_def rl_ok_def pend_def)
  next
    case part
    let ?r = "drop index (take n buf)" and ?k = "n - index"
    define b1 where "b1 = go_copy buf ?r"
    have s: "go_slice buf index n = Some ?r"
      using m' by (simp add: drop_take)
    have b1: "length b1 = length buf" "take ?k b1 = ?r"
      using m' by (simp_all add: b1_def go_copy_def drop_take min_def)
    have "?k + (Size - ?k) \<le> length b1" "?k + 0 \<le> length b1"
      using part m' b1(1) by auto
    then obtain e n2 b2 c2 where f: "fill ?k (Size - ?k) 0 b1 c = Some (e, n2, b2, c2)"
        "filled ?k (Size - ?k) 0 b1 c e n2 b2 c2"
      using fill_spec by blast
    note g = f(2) [unfolded filled_def]
    have eq: "refill buf index n c = Some (e, b2, 0, n2 + ?k, c2)"
      using part s f(1) b1(1) m' by (auto simp: refill_def Let_def b1_def [symmetric])
    have "take (?k + n2) b2 = ?r @ drop ?k (take (?k + n2) b2)"
      using g b1(2) append_take_drop_id [of ?k "take (?k + n2) b2"] by (simp add: min_def)
    then have "pend b2 0 (n2 + ?k) c2 = pend buf index n c"
      using g by (simp add: pend_def add.commute [of n2]) (metis append_assoc)
    then have "refilled buf index n c e b2 0 (n2 + ?k) c2"
      using g part m' b1(1) lp by (auto simp: refilled_def rl_ok_def)
    then show ?thesis
      using eq by blast
  next
    case full
    then show ?thesis
      using m' lp by (auto simp: refill_def refilled_def rl_ok_def)
  qed
qed

section \<open>Leaving the loop\<close>

lemma ended_leave [simp]: "leave_with D err a = Some (Left, a') \<Longrightarrow> ended D err a = Some (Ended a')"
  by (simp add: ended_def)

lemma ended_spec:
  assumes "deps_ok D V I J" and "async_inv V I J a" and "0 < a_wg a"
  obtains a' where "leave_with D err a = Some (Left, a')" and "async_inv V I J a'" and "a_closed a'"
    and "a_out a' = a_out a"
proof -
  obtain a' where "leave_with D err a = Some (Left, a')" "async_inv V I J a'" "a_closed a'" "a_out a' = a_out a"
    by (rule leave_with_spec [OF assms(1) async_inv_pre [OF assms(2)] assms(3) assms(2)])
  then show thesis
    by (rule that)
qed

text \<open>On an open connection the error is recorded and the queued packets are kept.\<close>

lemma ended_open:
  assumes "deps_ok D V I J" and "async_inv V I J a" and "0 < a_wg a" and "\<not> a_closed a"
  obtains a' where "leave_with D err a = Some (Left, a')" and "async_inv V I J a'" and "a_closed a'"
    and "a_out a' = a_out a" and "a_error a' = Some err" and "a_stale a' = items V (incoming a)"
    and "shut (a_conn a')"
proof -
  let ?b = "a\<lparr>a_wg := a_wg a - 1\<rparr>"
  have b: "wg_Done a = Some ?b" "pre_inv V I J ?b" "\<not> a_closed ?b" "a_out ?b = a_out a"
      "incoming ?b = incoming a"
    using assms(2-4) by (simp_all add: wg_Done_def inv_defs a_out_def)
  obtain a' where c: "closeWithError D err ?b = Some (Some err, a')" "async_inv V I J a'" "a_closed a'"
      "a_error a' = Some err" "shut (a_conn a')" "a_out a' = a_out ?b" "a_stale a' = items V (incoming ?b)"
    by (rule closeWithError_open [OF assms(1) b(2,3)])
  show thesis
    by (rule that) (use b c in \<open>simp_all add: leave_with_def\<close>)
qed

section \<open>Delivering a packet\<close>

lemma inv_spawned [simp]: "async_inv V I J (a\<lparr>spawned := x\<rparr>) = async_inv V I J a"
  by (simp add: inv_defs)

lemma inv_register:
  assumes "async_inv V I J a" and "stream_inv V st" and "st_id st = sid"
  shows "async_inv V I J (a\<lparr>stream_objs := stream_objs a @ [st],
           streams := AList.update sid (length (stream_objs a)) (streams a)\<rparr>)"
  using streams_inv_register [of V a st sid] assms by (simp add: inv_defs)

lemma inv_incoming:
  assumes "async_inv V I J a" and "\<not> q_closed V (incoming a)" and "\<not> q_closed V q"
  shows "async_inv V I J (a\<lparr>incoming := q\<rparr>)"
  using assms by (simp add: inv_defs)

definition flow_ok ::
    "('q, 'c packet) queue_view \<Rightarrow> ('pl \<Rightarrow> bool) \<Rightarrow> ('bl \<Rightarrow> bool)
      \<Rightarrow> ('s \<Rightarrow> bool) \<Rightarrow> ('s, ('c, 'q, 'pl, 'bl, 'h) async) flow \<Rightarrow> bool" where
  "flow_ok V I J good r \<longleftrightarrow>
     (case r of Next s \<Rightarrow> good s | Ended a \<Rightarrow> async_inv V I J a \<and> a_closed a | Blocked a \<Rightarrow> async_inv V I J a)"

lemma flow_ok_simps [simp]:
  "flow_ok V I J good (Next s) = good s"
  "flow_ok V I J good (Ended a) = (async_inv V I J a \<and> a_closed a)"
  "flow_ok V I J good (Blocked a) = async_inv V I J a"
  by (simp_all add: flow_ok_def)

lemma ended_flow:
  "deps_ok D V I J \<Longrightarrow> async_inv V I J a \<Longrightarrow> 0 < a_wg a \<Longrightarrow> \<exists>r. ended D err a = Some r \<and> flow_ok V I J good r"
  by (rule ended_spec [of D V I J a err]) auto

text \<open>Putting a packet on a stream of the store.\<close>

lemma push_stream:
  assumes ok: "deps_ok D V I J" and inv: "async_inv V I J a" and wg: "0 < a_wg a" and st: "stream_at a s = Some st"
  shows "\<exists>r. (case q_push (circ D) p (st_queue st) of
        Blocks \<Rightarrow> Some (Blocked a)
      | Returns (None, q) \<Rightarrow> Some (Next (set_stream s (st\<lparr>st_queue := q\<rparr>) a))
      | Returns (Some err, q) \<Rightarrow> ended D err (set_stream s (st\<lparr>st_queue := q\<rparr>) a)) = Some r \<and>
    flow_ok V I J (\<lambda>a'. async_inv V I J a' \<and> a_conn a' = a_conn a \<and> a_wg a' = a_wg a) r"
proof -
  have si: "stream_inv V st"
    using inv st by (auto simp: inv_defs stream_at_Some)
  show ?thesis
  proof (cases rule: circular_push_cases [OF deps_okD(4) [OF ok], of p "st_queue st", case_names refused full queued])
    case (refused e)
    have "set_stream s (st\<lparr>st_queue := st_queue st\<rparr>) a = a"
      using st by (simp add: set_stream_def stream_at_Some)
    then show ?thesis
      using refused ended_flow [OF ok inv wg] by simp
  next
    case full
    then show ?thesis using inv by simp
  next
    case (queued q')
    then have "stream_inv V (st\<lparr>st_queue := q'\<rparr>)"
      using si by (simp add: stream_inv_def)
    then have "async_inv V I J (set_stream s (st\<lparr>st_queue := q'\<rparr>) a)"
      by (rule inv_set_stream [OF inv st]) simp
    then show ?thesis
      using queued by (simp add: set_stream_def)
  qed
qed

lemma deliver_safe:
  assumes ok: "deps_ok D V I J" and inv: "async_inv V I J a" and wg: "0 < a_wg a"
    and str: "\<And>s. snd (snd dest) = Some s \<Longrightarrow> s < length (stream_objs a)"
  shows "\<exists>r. deliver D dest p a = Some r \<and>
    flow_ok V I J (\<lambda>a'. async_inv V I J a' \<and> a_conn a' = a_conn a \<and> a_wg a' = a_wg a) r"
proof -
  obtain isStream handler stream where dest: "dest = (isStream, handler, stream)" by (cases dest)
  have put: "async_inv V I J (b\<lparr>packets := Put (poly D) (pkt_pool D) p (packets b)\<rparr>)"
    if "async_inv V I J b" for b :: "('a, 'b, 'c, 'd, 'e) async"
    using inv_packets [OF that] Put_keeps [OF deps_okD(1,2) [OF ok]] that by (simp add: inv_defs)
  consider (app) "\<not> isStream" | (close) "isStream" "ContentLength (Metadata p) = 0"
    | (discard) "isStream" "ContentLength (Metadata p) \<noteq> 0" "handler = None"
    | (data) h where "isStream" "ContentLength (Metadata p) \<noteq> 0" "handler = Some h"
    by (cases handler) auto
  then show ?thesis
  proof cases
    case app
    show ?thesis
    proof (cases rule: circular_push_cases [OF deps_okD(4) [OF ok], of p "incoming a", case_names refused full queued])
      case (refused e)
      then show ?thesis
        using app dest ended_flow [OF ok, of "a\<lparr>incoming := incoming a\<rparr>"] inv wg by (simp add: deliver_def)
    next
      case full
      then show ?thesis using app dest inv by (simp add: deliver_def)
    next
      case (queued q')
      then show ?thesis
        using app dest inv_incoming [OF inv, of q'] by (simp add: deliver_def)
    qed
  next
    case close
    show ?thesis
    proof (cases stream)
      case None
      then show ?thesis using close dest put [OF inv] by (simp add: deliver_def)
    next
      case (Some s)
      then have "stream_at a s = Some (stream_objs a ! s)"
        using str dest by (simp add: stream_at_def)
      then obtain a' where c: "Stream_close D s a = Some a'" "async_inv V I J a'"
          "a' = a\<lparr>stream_objs := (stream_objs a)[s := (if st_closed (stream_objs a ! s) then stream_objs a ! s
             else shut_stream D (stream_objs a ! s))]\<rparr>"
        by (rule Stream_close_spec [OF ok inv])
      have "a_conn a' = a_conn a" "a_wg a' = a_wg a"
        by (subst c(3), simp)+
      then show ?thesis
        using close dest Some c(1) put [OF inv_delete [OF c(2)]] by (simp add: deliver_def)
    qed
  next
    case discard
    then show ?thesis using dest put [OF inv] by (simp add: deliver_def)
  next
    case data
    show ?thesis
    proof (cases stream)
      case (Some s)
      then have "stream_at a s = Some (stream_objs a ! s)"
        using str dest by (simp add: stream_at_def)
      then show ?thesis
        using push_stream [OF ok inv wg, of s] data dest Some by (simp add: deliver_def)
    next
      case None
      let ?sid = "PacketId (Metadata p)"
      let ?st = "\<lparr>st_id = ?sid, st_closed = False, st_queue = q_new (circ D) DefaultStreamBufferSize, st_stale = []\<rparr>"
      let ?b = "a\<lparr>stream_objs := stream_objs a @ [?st],
        streams := AList.update ?sid (length (stream_objs a)) (streams a),
        spawned := spawned a @ [(h, length (stream_objs a))]\<rparr>"
      have "async_inv V I J ?b"
        using inv_register [OF inv, of ?st ?sid]
        by (simp add: stream_inv_def circular_simps [OF deps_okD(4) [OF ok]])
      then show ?thesis
        using push_stream [OF ok, of ?b "length (stream_objs a)" ?st p] data dest None wg
        by (simp add: deliver_def newStream_def stream_at_def Let_def)
    qed
  qed
qed

section \<open>One iteration\<close>

lemma destination_valid:
  assumes "async_inv V I J a" and "snd (snd (destination m a)) = Some s"
  shows "s < length (stream_objs a)"
proof -
  have "(PacketId m, s) \<in> set (streams a)"
    using assms(2) by (auto simp: destination_def Let_def split: if_splits dest: map_of_SomeD)
  then show ?thesis
    using assms(1) by (auto simp: inv_defs)
qed

lemma a_out_read:
  "read_frame (a_conn a) c \<Longrightarrow> a_out (a\<lparr>a_conn := c\<rparr>) = a_out a"
  by (simp add: read_frame_def a_out_conn)

text \<open>The state after an iteration is good when the indices are, and bytes were used up.\<close>

definition iter_ok ::
    "('q, 'c packet) queue_view \<Rightarrow> ('pl \<Rightarrow> bool) \<Rightarrow> ('bl \<Rightarrow> bool) \<Rightarrow> nat
      \<Rightarrow> byte list \<times> nat \<times> nat \<times> ('c, 'q, 'pl, 'bl, 'h) async \<Rightarrow> bool" where
  "iter_ok V I J k = (\<lambda>(buf, index, n, a). rl_ok buf index n \<and> async_inv V I J a \<and> 0 < a_wg a \<and>
     length (pend buf index n (a_conn a)) < k)"

lemma refill_iter:
  assumes ok: "deps_ok D V I J" and m: "rl_mid buf index n" and inv: "async_inv V I J a" and wg: "0 < a_wg a"
    and k: "length (pend buf index n (a_conn a)) < k"
  shows "\<exists>r. (do {
      (e, buf, index, n, c) \<leftarrow> refill buf index n (a_conn a);
      (case e of Some err \<Rightarrow> ended D err (a\<lparr>a_conn := c\<rparr>) | None \<Rightarrow> Some (Next (buf, index, n, a\<lparr>a_conn := c\<rparr>)))
    }) = Some r \<and> flow_ok V I J (iter_ok V I J k) r"
proof -
  obtain e buf' index' n' c where r: "refill buf index n (a_conn a) = Some (e, buf', index', n', c)"
      "refilled buf index n (a_conn a) e buf' index' n' c"
    using refill_spec [OF m] by blast
  show ?thesis
  proof (cases e)
    case None
    then show ?thesis
      using r inv wg k by (simp add: iter_ok_def refilled_def)
  next
    case (Some err)
    then show ?thesis
      using r(1) ended_flow [OF ok, of "a\<lparr>a_conn := c\<rparr>"] inv wg by simp
  qed
qed

lemma pend_header:
  assumes "rl_ok buf index n" and "get_fields buf index = Some m"
  shows "pend buf index n c = header_bytes m @ pend buf (index + Size) n c" and "rl_mid buf (index + Size) n"
proof -
  note a = assms(1) [unfolded rl_ok_def]
  have "take Size (drop index buf) = header_bytes m"
    using assms(2) a get_fields_Some_iff [of index buf m] by simp
  then have "drop index (take (index + Size) (take n buf)) = header_bytes m"
    using a by (simp add: drop_take)
  then have "header_bytes m @ drop (index + Size) (take n buf) = drop index (take n buf)"
    using take_drop_split [of index "index + Size" "take n buf"] by simp
  then show "pend buf index n c = header_bytes m @ pend buf (index + Size) n c"
    by (simp add: pend_def flip: append_assoc)
  show "rl_mid buf (index + Size) n"
    using a by (simp add: rl_mid_def)
qed

lemma readLoop_body_safe:
  assumes ok: "deps_ok D V I J" and rc: "race_closes V I J race" and rw: "\<forall>b. a_wg (race b) = a_wg b"
    and inv: "async_inv V I J a" and wg: "0 < a_wg a" and rl: "rl_ok buf index n"
  shows "\<exists>r. readLoop_body slack D race buf index n a = Some r \<and>
    flow_ok V I J (iter_ok V I J (length (pend buf index n (a_conn a)))) r"
proof -
  let ?k = "length (pend buf index n (a_conn a))"
  obtain p pl where g: "Get (pkt_pool D) (packets a) = (p, pl)" by (cases "Get (pkt_pool D) (packets a)")
  define b where "b = a\<lparr>packets := pl\<rparr>"
  have pl: "I pl" "clean_packet (poly D) p"
    using Get_clean [OF deps_okD(2) [OF ok] _ g] inv by (auto simp: inv_defs)
  have b: "async_inv V I J b" "0 < a_wg b" "a_conn b = a_conn a"
    using inv_packets [OF inv pl(1)] wg by (simp_all add: b_def)
  obtain m where m: "get_fields buf index = Some m"
    using get_fields_total [of index buf] rl by (auto simp: rl_ok_def)
  note hd = pend_header [OF rl m]
  define q where "q = p\<lparr>Metadata := m\<rparr>"
  have less: "length (pend buf (index + Size) n (a_conn a)) < ?k"
    using hd(1) by (simp add: Size_def)
  have put: "async_inv V I J (d\<lparr>packets := Put (poly D) (pkt_pool D) q (packets d)\<rparr>)"
    if "async_inv V I J d" for d :: "('a, 'b, 'c, 'd, 'e) async"
    using inv_packets [OF that] Put_keeps [OF deps_okD(1,2) [OF ok]] that by (simp add: inv_defs)
  note start = readLoop_body_def [of slack D race buf index n a] g m Let_def b_def [symmetric] q_def [symmetric]
  consider (magic) "Magic m \<noteq> PacketMagicHeader" | (big) "Magic m = PacketMagicHeader" "exceeds_max (maxLen D) (ContentLength m)"
    | (ping) "Magic m = PacketMagicHeader" "\<not> exceeds_max (maxLen D) (ContentLength m)" "Operation m = PING"
    | (pong) "Magic m = PacketMagicHeader" "\<not> exceeds_max (maxLen D) (ContentLength m)" "Operation m = PONG" "Operation m \<noteq> PING"
    | (other) "Magic m = PacketMagicHeader" "\<not> exceeds_max (maxLen D) (ContentLength m)"
        "Operation m \<noteq> PING" "Operation m \<noteq> PONG"
    by blast
  then show ?thesis
  proof cases
    case magic
    then show ?thesis using ended_flow [OF ok b(1,2)] by (simp add: start)
  next
    case big
    then show ?thesis using ended_flow [OF ok b(1,2)] by (simp add: start)
  next
    case ping
    obtain e d where w: "writePacket D race False (PONGPacket (poly D)) b = Some (e, d)" "async_inv V I J d"
        "write_outcome D False (PONGPacket (poly D)) b e d"
      using writePacket_spec [OF ok rc b(1)] by blast
    have dw: "0 < a_wg d"
      using writePacket_wg [OF ok _ w(1) rw] b by (simp add: inv_defs)
    show ?thesis
    proof (cases e)
      case (Some err)
      show ?thesis
        by (rule ended_spec [OF ok w(2) dw, of err]) (use Some ping w(1) in \<open>auto simp: start\<close>)
    next
      case None
      have "same_reads (a_conn a) (a_conn d)"
        using w(3) None b(3) by (simp add: write_outcome_def wrote_def)
      then have "length (pend buf (index + Size) n (a_conn d)) < ?k"
        using less by (simp add: pend_def same_reads_def unread_def)
      then show ?thesis
        using refill_iter [OF ok hd(2) put [OF w(2)], where k = ?k] dw ping w(1) None by (simp add: start)
    qed
  next
    case pong
    then show ?thesis
      using refill_iter [OF ok hd(2) put [OF b(1)], where k = ?k] b less
      unfolding b_def q_def by (simp add: readLoop_body_def g m Let_def)
  next
    case other
    obtain e p' buf' index' n' c where r:
        "read_content slack (poly D) q buf (index + Size) n (a_conn b) = Some (e, p', buf', index', n', c)"
        "content_read (poly D) q buf (index + Size) n (a_conn b) e p' buf' index' n' c"
      using read_content_spec [OF deps_okD(1) [OF ok] _ hd(2), of q slack "a_conn b"] clean_packetD [OF pl(2)]
      by (auto simp: q_def)
    let ?b = "b\<lparr>a_conn := c\<rparr>"
    have ib: "async_inv V I J ?b" "0 < a_wg ?b"
      using b by simp_all
    show ?thesis
    proof (cases e)
      case (Some err)
      show ?thesis
        by (rule ended_spec [OF ok ib, of err]) (use Some other r(1) in \<open>auto simp: start b(3)\<close>)
    next
      case None
      obtain fl where fl: "deliver D (destination m b) p' ?b = Some fl"
          "flow_ok V I J (\<lambda>a'. async_inv V I J a' \<and> a_conn a' = a_conn ?b \<and> a_wg a' = a_wg ?b) fl"
        using deliver_safe [OF ok ib, of "destination m b" p'] destination_valid [OF b(1)] by auto
      have mid: "rl_mid buf' index' n'"
        and pd: "pg_bytes (poly D) (Content p') @ pend buf' index' n' c = pend buf (index + Size) n (a_conn a)"
        using r(2) None b(3) by (simp_all add: content_read_def)
      have "length (pend buf' index' n' c) < ?k"
        using less arg_cong [OF pd, of length] by simp
      then have next_ok: "\<exists>r. (do {
            (e, buf, index, n, c) \<leftarrow> refill buf' index' n' (a_conn d);
            (case e of Some err \<Rightarrow> ended D err (d\<lparr>a_conn := c\<rparr>)
             | None \<Rightarrow> Some (Next (buf, index, n, d\<lparr>a_conn := c\<rparr>)))
          }) = Some r \<and> flow_ok V I J (iter_ok V I J ?k) r" if "fl = Next d" for d
        using refill_iter [OF ok mid, of d ?k] fl(2) that b(2) by simp
      show ?thesis
        using other r(1) None fl b next_ok by (cases fl) (simp_all add: start)
    qed
  qed
qed

section \<open>The whole loop\<close>

lemma readLoop_head_spec:
  assumes "Size \<le> length buf"
  obtains e n buf' c where "readLoop_head D buf a =
      (case e of Some err \<Rightarrow> ended D err (a\<lparr>a_conn := c\<rparr>) | None \<Rightarrow> Some (Next (buf', 0, n, a\<lparr>a_conn := c\<rparr>)))"
    and "refilled buf 0 0 (a_conn a) e buf' 0 n c"
proof -
  obtain e n buf' c where f: "fill 0 Size 0 buf (a_conn a) = Some (e, n, buf', c)"
      "filled 0 Size 0 buf (a_conn a) e n buf' c"
    using fill_spec [of 0 Size buf 0 "a_conn a"] assms by auto
  show thesis
    by (rule that [where e = e and n = n and buf' = buf' and c = c])
      (use f assms in \<open>auto simp: readLoop_head_def Let_def refilled_def filled_def rl_ok_def pend_def\<close>)
qed

lemma rl_ok_less: "rl_ok buf index n \<Longrightarrow> index < n"
  by (simp add: rl_ok_def Size_def)

lemma readLoop_from_safe:
  assumes ok: "deps_ok D V I J" and rc: "race_closes V I J race" and rw: "\<forall>b. a_wg (race b) = a_wg b"
  shows "async_inv V I J a \<Longrightarrow> 0 < a_wg a \<Longrightarrow> rl_ok buf index n \<Longrightarrow>
    \<exists>r. readLoop_from slack D race buf index n a = Some r \<and> flow_ok V I J (\<lambda>_. False) r"
proof (induction "length (pend buf index n (a_conn a))" arbitrary: buf index n a rule: less_induct)
  case less
  obtain r where r: "readLoop_body slack D race buf index n a = Some r"
      "flow_ok V I J (iter_ok V I J (length (pend buf index n (a_conn a)))) r"
    using readLoop_body_safe [OF ok rc rw less.prems] by blast
  have eq: "readLoop_from slack D race buf index n a =
      (case r of Next (buf, index, n, a) \<Rightarrow> readLoop_from slack D race buf index n a
       | Ended a \<Rightarrow> Some (Ended a) | Blocked a \<Rightarrow> Some (Blocked a))"
    using rl_ok_less [OF less.prems(3)] r(1) by (subst readLoop_from.simps) simp
  show ?case
  proof (cases r)
    case (Next s)
    obtain buf' index' n' a' where s: "s = (buf', index', n', a')" by (cases s)
    then show ?thesis
      using less.hyps [of buf' index' n' a'] r(2) Next eq by (simp add: iter_ok_def)
  qed (use r(2) eq in auto)
qed

lemma readLoop_safe:
  assumes "deps_ok D V I J" and "race_closes V I J race" and "\<forall>b. a_wg (race b) = a_wg b"
    and "async_inv V I J a" and "0 < a_wg a"
  shows "\<exists>r. readLoop slack D race a = Some r \<and> flow_ok V I J (\<lambda>_. False) r"
proof -
  have "Size \<le> length (replicate DefaultBufferSize (0 :: byte))"
    by (simp add: Size_def DefaultBufferSize_def)
  then obtain e n buf c where h: "readLoop_head D (replicate DefaultBufferSize 0) a =
      (case e of Some err \<Rightarrow> ended D err (a\<lparr>a_conn := c\<rparr>) | None \<Rightarrow> Some (Next (buf, 0, n, a\<lparr>a_conn := c\<rparr>)))"
      "refilled (replicate DefaultBufferSize 0) 0 0 (a_conn a) e buf 0 n c"
    by (rule readLoop_head_spec)
  have eq: "readLoop slack D race a = (case e of
        Some err \<Rightarrow> ended D err (a\<lparr>a_conn := c\<rparr>)
      | None \<Rightarrow> readLoop_from slack D race buf 0 n (a\<lparr>a_conn := c\<rparr>))"
    unfolding readLoop_def
    by (subst readLoop_from.simps)
      (simp add: h(1) ended_def bind_assoc case_prod_unfold split: option.split)
  show ?thesis
  proof (cases e)
    case None
    then show ?thesis
      using eq readLoop_from_safe [OF assms(1-3), of "a\<lparr>a_conn := c\<rparr>" buf 0 n] h(2) assms(4,5)
      by (simp add: refilled_def)
  next
    case (Some err)
    then show ?thesis
      using eq ended_flow [OF assms(1), of "a\<lparr>a_conn := c\<rparr>" err] assms(4,5) by simp
  qed
qed

end
