(* ===== verification/Async_Delivery.thy ===== *)
theory Async_Delivery
  imports Async_Read_Inv
begin

text \<open>
  What the read loop delivers. The reference is a parser of whole byte strings and a small
  state of queues; the loop, with its buffer, its partial reads and the stores of the
  connection, refines it on a network where only the end of the stream is an error.
\<close>

section \<open>The reference\<close>

text \<open>
  The units of a byte string: packets, and bare headers for pings and pongs, up to the first
  header that is refused (then with the error) or incomplete.
\<close>

function parse :: "uint32 \<Rightarrow> byte list \<Rightarrow> (metadata \<times> byte list) list \<times> goerror option" where
  "parse mx bs =
     (case (if Size \<le> length bs then get_fields bs 0 else None) of
        None \<Rightarrow> ([], None)
      | Some m \<Rightarrow>
          (let len = (if Operation m = PING \<or> Operation m = PONG then 0 else unat (ContentLength m)) in
           if Magic m \<noteq> PacketMagicHeader then ([], Some InvalidMagicHeader)
           else if exceeds_max mx (ContentLength m) then ([], Some ContentLengthExceeded)
           else if length bs < Size + len then ([], None)
           else (let (ws, e) = parse mx (drop (Size + len) bs)
                 in ((m, take len (drop Size bs)) # ws, e))))"
  by pat_completeness auto
termination
  by (relation "measure (\<lambda>(mx, bs). length bs)") (auto simp: Size_def split: if_splits)

declare parse.simps [simp del]

record rx =
  rx_app :: "(metadata \<times> byte list) list"
  rx_streams :: "uint16 \<rightharpoonup> (metadata \<times> byte list) list"
  rx_opened :: "uint16 list"
  rx_out :: "byte list"

text \<open>
  The effect of one unit, where \<open>h\<close> says whether there is a handler for new streams and \<open>pong\<close>
  is the frame that answers a ping.
\<close>

definition rx_step :: "byte list \<Rightarrow> bool \<Rightarrow> metadata \<times> byte list \<Rightarrow> rx \<Rightarrow> rx" where
  "rx_step pong h w x =
     (let (m, bs) = w; sid = PacketId m in
      if Operation m = PING then x\<lparr>rx_out := rx_out x @ pong\<rparr>
      else if Operation m = PONG then x
      else if Operation m = STREAM
      then if ContentLength m = 0 then x\<lparr>rx_streams := (rx_streams x)(sid := None)\<rparr>
        else if \<not> h then x
        else (case rx_streams x sid of
                Some q \<Rightarrow> x\<lparr>rx_streams := (rx_streams x)(sid \<mapsto> q @ [w])\<rparr>
              | None \<Rightarrow> x\<lparr>rx_streams := (rx_streams x)(sid \<mapsto> [w]), rx_opened := rx_opened x @ [sid]\<rparr>)
      else x\<lparr>rx_app := rx_app x @ [w]\<rparr>)"

section \<open>Abstraction\<close>

definition queue_of ::
    "('c, 'q, 'pl, 'bl) deps \<Rightarrow> ('q, 'c packet) queue_view \<Rightarrow> ('c, 'q, 'pl, 'bl, 'h) async
      \<Rightarrow> uint16 \<rightharpoonup> (metadata \<times> byte list) list" where
  "queue_of D V a = (\<lambda>k. map_option
     (\<lambda>s. map (view (poly D)) (items V (st_queue (stream_objs a ! s)))) (map_of (streams a) k))"

definition rx_of ::
    "('c, 'q, 'pl, 'bl) deps \<Rightarrow> ('q, 'c packet) queue_view \<Rightarrow> ('c, 'q, 'pl, 'bl, 'h) async \<Rightarrow> rx" where
  "rx_of D V a = \<lparr>rx_app = map (view (poly D)) (items V (incoming a)), rx_streams = queue_of D V a,
     rx_opened = map (\<lambda>(h, s). st_id (stream_objs a ! s)) (spawned a), rx_out = a_out a\<rparr>"

text \<open>An open connection with a healthy network, whose registered streams are open.\<close>

definition good ::
    "('q, 'c packet) queue_view \<Rightarrow> ('pl \<Rightarrow> bool) \<Rightarrow> ('bl \<Rightarrow> bool) \<Rightarrow> ('c, 'q, 'pl, 'bl, 'h) async \<Rightarrow> bool" where
  "good V I J a \<longleftrightarrow> async_inv V I J a \<and> 0 < a_wg a \<and> \<not> a_closed a \<and> healthy (a_conn a) \<and>
     werr (a_writer a) = None \<and>
     (\<forall>(k, s)\<in>set (streams a). \<not> st_closed (stream_objs a ! s)) \<and>
     (\<forall>(h, s)\<in>set (spawned a). s < length (stream_objs a))"

text \<open>The queue that a packet goes to is full.\<close>

definition blocked_on ::
    "('q, 'c packet) queue_view \<Rightarrow> ('c, 'q, 'pl, 'bl, 'h) async \<Rightarrow> metadata \<Rightarrow> bool" where
  "blocked_on V a m \<longleftrightarrow> Operation m \<noteq> PING \<and> Operation m \<noteq> PONG \<and>
     (if Operation m = STREAM
      then \<exists>s. map_of (streams a) (PacketId m) = Some s \<and> room V (st_queue (stream_objs a ! s)) = 0
      else room V (incoming a) = 0)"

lemma goodD:
  assumes "good V I J a"
  shows "async_inv V I J a" and "0 < a_wg a" and "\<not> a_closed a" and "healthy (a_conn a)"
    and "werr (a_writer a) = None"
  using assms by (simp_all add: good_def)

lemma good_stream:
  assumes "good V I J a" and "map_of (streams a) k = Some s"
  shows "s < length (stream_objs a)" and "st_id (stream_objs a ! s) = k" and "\<not> st_closed (stream_objs a ! s)"
    and "stream_inv V (stream_objs a ! s)" and "stream_at a s = Some (stream_objs a ! s)"
  using assms map_of_SomeD [OF assms(2)] by (auto simp: good_def inv_defs stream_at_def)

lemma good_pool:
  assumes "good V I J a" and "I pl"
  shows "good V I J (a\<lparr>packets := pl\<rparr>)"
  using assms inv_packets by (auto simp: good_def)

lemma good_conn: "good V I J a \<Longrightarrow> healthy c \<Longrightarrow> good V I J (a\<lparr>a_conn := c\<rparr>)"
  by (simp add: good_def)

lemma destination_conn [simp]: "destination m (a\<lparr>a_conn := c\<rparr>) = destination m a"
  by (auto simp: destination_def Let_def)

lemma rx_of_packets [simp]: "rx_of D V (a\<lparr>packets := pl\<rparr>) = rx_of D V a"
  by (simp add: rx_of_def queue_of_def a_out_def)

lemma rx_of_conn: "read_frame (a_conn a) c \<Longrightarrow> rx_of D V (a\<lparr>a_conn := c\<rparr>) = rx_of D V a"
  by (simp add: rx_of_def queue_of_def a_out_read)

section \<open>Delivering refines the reference\<close>

text \<open>Changing one stream object shows only under its own identifier.\<close>

lemma queue_of_set_stream:
  assumes "good V I J a" and "map_of (streams a) k = Some s" and "st_id st = k"
  shows "queue_of D V (set_stream s st a) = (queue_of D V a)(k \<mapsto> map (view (poly D)) (items V (st_queue st)))"
proof
  fix j
  have "j \<noteq> k \<Longrightarrow> map_of (streams a) j = Some i \<Longrightarrow> i \<noteq> s" for i
    using good_stream(2) [OF assms(1)] assms(2) by blast
  then show "queue_of D V (set_stream s st a) j =
      ((queue_of D V a)(k \<mapsto> map (view (poly D)) (items V (st_queue st)))) j"
    using assms(2) good_stream(1) [OF assms(1,2)]
    by (cases "j = k"; cases "map_of (streams a) j") (auto simp: queue_of_def set_stream_def)
qed

lemma nth_set_stream:
  "stream_at a s = Some st \<Longrightarrow> stream_objs (set_stream s st' a) ! i = (if i = s then st' else stream_objs a ! i)"
  by (simp add: set_stream_def stream_at_Some nth_list_update)

lemma set_stream_frame [simp]:
  "streams (set_stream s st a) = streams a" "spawned (set_stream s st a) = spawned a"
  "incoming (set_stream s st a) = incoming a" "a_conn (set_stream s st a) = a_conn a"
  "newStreamHandler (set_stream s st a) = newStreamHandler a" "a_out (set_stream s st a) = a_out a"
  "length (stream_objs (set_stream s st a)) = length (stream_objs a)"
  "a_wg (set_stream s st a) = a_wg a" "a_closed (set_stream s st a) = a_closed a"
  "a_writer (set_stream s st a) = a_writer a" "packets (set_stream s st a) = packets a"
  by (simp_all add: set_stream_def a_out_def)

lemma opened_set_stream:
  assumes "stream_at a s = Some st" and "st_id st' = st_id st"
  shows "map (\<lambda>(h, i). st_id (stream_objs (set_stream s st' a) ! i)) xs =
    map (\<lambda>(h, i). st_id (stream_objs a ! i)) xs"
  using assms(2) assms(1) [unfolded stream_at_Some] by (auto simp: nth_set_stream [OF assms(1)])

lemma good_set_stream:
  assumes "good V I J a" and "map_of (streams a) k = Some s" and "st_id st = k" and "stream_inv V st"
    and "\<not> st_closed st"
  shows "good V I J (set_stream s st a)"
proof -
  note at = good_stream(5) [OF assms(1,2)]
  have "async_inv V I J (set_stream s st a)"
    by (rule inv_set_stream [OF goodD(1) [OF assms(1)] at assms(4)])
      (simp add: assms(3) good_stream(2) [OF assms(1,2)])
  moreover have "\<forall>(j, i)\<in>set (streams a). \<not> st_closed (stream_objs (set_stream s st a) ! i)"
    using assms(1,5) by (auto simp: good_def nth_set_stream [OF at])
  ultimately show ?thesis
    using assms(1) by (simp add: good_def)
qed

text \<open>The peer closes a stream: it is shut and forgotten.\<close>

lemma deliver_close:
  assumes ok: "deps_ok D V I J" and g: "good V I J a" and s: "map_of (streams a) k = Some s"
  obtains b where "Stream_close D s a = Some b" and "good V I J (b\<lparr>streams := AList.delete k (streams b)\<rparr>)"
    and "rx_of D V (b\<lparr>streams := AList.delete k (streams b)\<rparr>) =
      (rx_of D V a)\<lparr>rx_streams := (rx_streams (rx_of D V a))(k := None)\<rparr>"
    and "a_conn b = a_conn a" and "newStreamHandler b = newStreamHandler a"
proof -
  let ?st = "stream_objs a ! s"
  let ?b = "set_stream s (shut_stream D ?st) a"
  note at = good_stream(5) [OF g s] and sh = shut_stream_inv [OF deps_okD(4) [OF ok]]
  have c: "Stream_close D s a = Some ?b"
    using at good_stream(3) [OF g s] by (simp add: Stream_close_def)
  have inv: "async_inv V I J (?b\<lparr>streams := AList.delete k (streams a)\<rparr>)"
    using inv_delete [OF inv_set_stream [OF goodD(1) [OF g] at sh(1,2)], of k] by simp
  have other: "i \<noteq> s" if "(j, i) \<in> set (AList.delete k (streams a))" for i j
  proof -
    have "distinct (map fst (streams a))"
      using g by (simp add: good_def inv_defs)
    then have "map_of (streams a) j = Some i" "j \<noteq> k"
      using that by (auto simp: AList.delete_eq)
    then show ?thesis
      using good_stream(2) [OF g] s by blast
  qed
  have sub: "set (AList.delete k (streams a)) \<subseteq> set (streams a)"
    by (auto simp: AList.delete_eq)
  have "\<forall>(j, i)\<in>set (AList.delete k (streams a)). \<not> st_closed (stream_objs ?b ! i)"
    using g sub other by (fastforce simp: good_def nth_set_stream [OF at])
  then have gb: "good V I J (?b\<lparr>streams := AList.delete k (streams a)\<rparr>)"
    using g inv by (simp add: good_def)
  have "queue_of D V (?b\<lparr>streams := AList.delete k (streams a)\<rparr>) = (queue_of D V a)(k := None)"
  proof
    fix j
    show "queue_of D V (?b\<lparr>streams := AList.delete k (streams a)\<rparr>) j = ((queue_of D V a)(k := None)) j"
      using good_stream(2) [OF g] s
      by (cases "map_of (streams a) j") (auto simp: queue_of_def delete_conv' nth_set_stream [OF at])
  qed
  then have "rx_of D V (?b\<lparr>streams := AList.delete k (streams a)\<rparr>) =
      (rx_of D V a)\<lparr>rx_streams := (rx_streams (rx_of D V a))(k := None)\<rparr>"
    using opened_set_stream [OF at sh(2), of "spawned a"] by (simp add: rx_of_def a_out_def)
  then show thesis
    using that [of ?b] c gb by simp
qed

text \<open>A packet for a registered stream, and one that opens a stream.\<close>

lemma deliver_queued:
  assumes g: "good V I J a" and s: "map_of (streams a) k = Some s"
    and q: "items V q = items V (st_queue (stream_objs a ! s)) @ [p]" "\<not> q_closed V q"
  shows "good V I J (set_stream s ((stream_objs a ! s)\<lparr>st_queue := q\<rparr>) a)"
    and "rx_of D V (set_stream s ((stream_objs a ! s)\<lparr>st_queue := q\<rparr>) a) =
      (rx_of D V a)\<lparr>rx_streams := (queue_of D V a)(k \<mapsto>
         map (view (poly D)) (items V (st_queue (stream_objs a ! s))) @ [view (poly D) p])\<rparr>"
proof -
  let ?st = "(stream_objs a ! s)\<lparr>st_queue := q\<rparr>"
  note st = good_stream [OF g s]
  show "good V I J (set_stream s ?st a)"
    by (rule good_set_stream [OF g s]) (use st q in \<open>simp_all add: stream_inv_def\<close>)
  show "rx_of D V (set_stream s ?st a) =
      (rx_of D V a)\<lparr>rx_streams := (queue_of D V a)(k \<mapsto>
         map (view (poly D)) (items V (st_queue (stream_objs a ! s))) @ [view (poly D) p])\<rparr>"
    using opened_set_stream [OF st(5), of ?st "spawned a"] queue_of_set_stream [OF g s, of ?st] st(2) q(1)
    by (simp add: rx_of_def)
qed

lemma deliver_opens:
  fixes a :: "('c, 'q, 'pl, 'bl, 'h) async" and h :: 'h
  assumes ok: "deps_ok D V I J" and g: "good V I J a" and s: "map_of (streams a) k = None"
  defines "st \<equiv> \<lparr>st_id = k, st_closed = False, st_queue = q_new (circ D) DefaultStreamBufferSize, st_stale = []\<rparr>"
  defines "b \<equiv> a\<lparr>stream_objs := stream_objs a @ [st],
      streams := AList.update k (length (stream_objs a)) (streams a),
      spawned := spawned a @ [(h, length (stream_objs a))]\<rparr>"
  shows "good V I J b" and "map_of (streams b) k = Some (length (stream_objs a))"
    and "stream_objs b ! length (stream_objs a) = st"
    and "rx_of D V b = (rx_of D V a)\<lparr>rx_streams := (queue_of D V a)(k \<mapsto> []),
      rx_opened := rx_opened (rx_of D V a) @ [k]\<rparr>"
proof -
  note circ = circular_simps [OF deps_okD(4) [OF ok]]
  have inv: "async_inv V I J b"
    unfolding b_def using inv_register [OF goodD(1) [OF g], of st k] by (simp add: st_def stream_inv_def circ)
  have lt: "i < length (stream_objs a)" if "map_of (streams a) j = Some i" for i j
    using good_stream(1) [OF g that] .
  have sp: "\<forall>(h, i)\<in>set (spawned a). i < length (stream_objs a)"
    using g by (simp add: good_def)
  have "\<not> st_closed (stream_objs b ! i)" if "(j, i) \<in> set (streams b)" for j i
  proof -
    have "map_of (streams b) j = Some i"
      using inv that by (simp add: inv_defs)
    then show ?thesis
      using good_stream(3) [OF g] lt by (auto simp: b_def st_def update_conv' nth_append split: if_splits)
  qed
  then show "good V I J b"
    using g inv sp by (auto simp: good_def b_def)
  show "map_of (streams b) k = Some (length (stream_objs a))" and "stream_objs b ! length (stream_objs a) = st"
    by (simp_all add: b_def update_conv')
  have "queue_of D V b = (queue_of D V a)(k \<mapsto> [])"
  proof
    fix j
    show "queue_of D V b j = ((queue_of D V a)(k \<mapsto> [])) j"
      using lt [of j] by (cases "map_of (streams a) j") (auto simp: queue_of_def b_def update_conv' nth_append st_def circ)
  qed
  moreover have "map (\<lambda>(h, s). st_id (stream_objs b ! s)) (spawned a) =
      map (\<lambda>(h, s). st_id (stream_objs a ! s)) (spawned a)"
    using sp by (auto simp: b_def nth_append)
  ultimately show "rx_of D V b = (rx_of D V a)\<lparr>rx_streams := (queue_of D V a)(k \<mapsto> []),
      rx_opened := rx_opened (rx_of D V a) @ [k]\<rparr>"
    by (simp add: rx_of_def) (simp add: b_def st_def a_out_def)
qed

lemma good_put:
  assumes "deps_ok D V I J" and "good V I J a"
  shows "good V I J (a\<lparr>packets := Put (poly D) (pkt_pool D) p (packets a)\<rparr>)"
proof -
  have "I (Put (poly D) (pkt_pool D) p (packets a))"
    using Put_keeps [OF deps_okD(1,2) [OF assms(1)]] goodD(1) [OF assms(2)] by (simp add: inv_defs)
  then show ?thesis
    using good_pool [OF assms(2)] by simp
qed

definition delivered ::
    "('c, 'q, 'pl, 'bl) deps \<Rightarrow> ('q, 'c packet) queue_view \<Rightarrow> ('pl \<Rightarrow> bool) \<Rightarrow> ('bl \<Rightarrow> bool)
      \<Rightarrow> metadata \<times> byte list \<Rightarrow> ('c, 'q, 'pl, 'bl, 'h) async \<Rightarrow> ('c, 'q, 'pl, 'bl, 'h) async \<Rightarrow> bool" where
  "delivered D V I J w a b \<longleftrightarrow> good V I J b \<and> newStreamHandler b = newStreamHandler a \<and>
     read_end (a_conn b) = read_end (a_conn a) \<and>
     rx_of D V b = rx_step (frame (poly D) (PONGPacket (poly D))) (newStreamHandler a \<noteq> None) w (rx_of D V a)"

lemma rx_step_data:
  assumes "Operation m = STREAM" and "ContentLength m \<noteq> 0"
  shows "rx_streams x (PacketId m) = Some q \<Longrightarrow>
      rx_step pong True (m, bs) x = x\<lparr>rx_streams := (rx_streams x)(PacketId m \<mapsto> q @ [(m, bs)])\<rparr>"
    and "rx_streams x (PacketId m) = None \<Longrightarrow>
      rx_step pong True (m, bs) x = x\<lparr>rx_streams := (rx_streams x)(PacketId m \<mapsto> [(m, bs)]),
        rx_opened := rx_opened x @ [PacketId m]\<rparr>"
  using assms by (simp_all add: rx_step_def Let_def guard_simps)

lemma rx_of_sel: "rx_streams (rx_of D V a) = queue_of D V a"
  by (simp add: rx_of_def)

lemma deliver_stream_rx:
  fixes a :: "('c, 'q, 'pl, 'bl, 'h) async"
  assumes ok: "deps_ok D V I J" and g: "good V I J a" and m: "Metadata p = m" and op: "Operation m = STREAM"
    and len: "ContentLength m \<noteq> 0" and h: "newStreamHandler a = Some h"
  shows "(\<exists>b. deliver D (destination m a) p a = Some (Next b) \<and> a_conn b = a_conn a \<and>
      delivered D V I J (view (poly D) p) a b) \<or>
    (deliver D (destination m a) p a = Some (Blocked a) \<and> blocked_on V a m)"
proof -
  let ?k = "PacketId m"
  show ?thesis
  proof (cases "map_of (streams a) ?k")
    case (Some s)
    note st = good_stream [OF g Some]
    have d: "destination m a = (True, Some h, Some s)"
      using op h Some by (simp add: destination_def)
    show ?thesis
    proof (cases rule: circular_push_cases [OF deps_okD(4) [OF ok], of p "st_queue (stream_objs a ! s)",
          case_names refused full queued])
      case (refused e)
      then show ?thesis using st(3,4) by (simp add: stream_inv_def)
    next
      case full
      then show ?thesis
        using d m len st(5) op Some by (simp add: deliver_def blocked_on_def guard_simps)
    next
      case (queued q')
      have "deliver D (destination m a) p a =
          Some (Next (set_stream s ((stream_objs a ! s)\<lparr>st_queue := q'\<rparr>) a))"
        using d m len st(5) queued by (simp add: deliver_def)
      moreover have "queue_of D V a ?k = Some (map (view (poly D)) (items V (st_queue (stream_objs a ! s))))"
        using Some by (simp add: queue_of_def)
      ultimately show ?thesis
        using deliver_queued(1) [OF g Some queued(2,4)] deliver_queued(2) [OF g Some queued(2,4), of D] rx_step_data(1) [OF op len, of "rx_of D V a"] m h
        by (simp add: delivered_def view_def rx_of_sel)
    qed
  next
    case None
    define st :: "('c, 'q) stream" where "st = \<lparr>st_id = ?k, st_closed = False,
      st_queue = q_new (circ D) DefaultStreamBufferSize, st_stale = []\<rparr>"
    define b where "b = a\<lparr>stream_objs := stream_objs a @ [st],
      streams := AList.update ?k (length (stream_objs a)) (streams a),
      spawned := spawned a @ [(h, length (stream_objs a))]\<rparr>"
    note b = deliver_opens [OF ok g None, of h, folded st_def, folded b_def]
    have sb: "streams b = AList.update ?k (length (stream_objs a)) (streams a)" "a_conn b = a_conn a"
        "newStreamHandler b = newStreamHandler a"
      by (simp_all add: b_def)
    have room: "0 < room V (st_queue st)" "\<not> q_closed V (st_queue st)" "items V (st_queue st) = []"
      using circular_new [OF deps_okD(4) [OF ok]] by (simp_all add: st_def DefaultStreamBufferSize_def)
    obtain q' where q': "q_push (circ D) p (st_queue st) = Returns (None, q')"
        "items V q' = items V (st_queue st) @ [p]" "\<not> q_closed V q'"
      by (rule circular_push_room [OF deps_okD(4) [OF ok] room(2,1)])
    let ?b = "set_stream (length (stream_objs a)) (st\<lparr>st_queue := q'\<rparr>) b"
    have "deliver D (destination m a) p a = Some (Next ?b)"
      using op h None m len q'(1) b(3) good_stream(5) [OF b(1,2)]
      by (simp add: deliver_def destination_def newStream_def Let_def st_def [symmetric])
        (simp add: b_def [symmetric])
    moreover have "delivered D V I J (view (poly D) p) a ?b"
      using deliver_queued(1) [OF b(1,2), of q' p] deliver_queued(2) [OF b(1,2), of q' p D] b(3,4) q'(2,3) room(3) m h sb
        rx_step_data(2) [OF op len, of "rx_of D V a"] None
      by (simp add: delivered_def view_def rx_of_sel queue_of_def [of D V a]) (simp add: rx_of_sel [of D V b, symmetric] rx_of_sel)
    ultimately show ?thesis
      using sb(2) by (metis set_stream_frame(4))
  qed
qed

lemma deliver_rx:
  assumes ok: "deps_ok D V I J" and g: "good V I J a" and m: "Metadata p = m"
    and op: "Operation m \<noteq> PING" "Operation m \<noteq> PONG"
  shows "(\<exists>b. deliver D (destination m a) p a = Some (Next b) \<and> a_conn b = a_conn a \<and>
      delivered D V I J (view (poly D) p) a b) \<or>
    (deliver D (destination m a) p a = Some (Blocked a) \<and> blocked_on V a m)"
proof -
  consider (app) "Operation m \<noteq> STREAM" | (close) "Operation m = STREAM" "ContentLength m = 0"
    | (discard) "Operation m = STREAM" "ContentLength m \<noteq> 0" "newStreamHandler a = None"
    | (data) h where "Operation m = STREAM" "ContentLength m \<noteq> 0" "newStreamHandler a = Some h"
    by (cases "newStreamHandler a") auto
  then show ?thesis
  proof cases
    case app
    then have d: "destination m a = (False, None, None)"
      by (simp add: destination_def)
    show ?thesis
    proof (cases rule: circular_push_cases [OF deps_okD(4) [OF ok], of p "incoming a",
          case_names refused full queued])
      case (refused e)
      then show ?thesis using g by (auto simp: good_def inv_defs)
    next
      case full
      then show ?thesis using d app op by (simp add: deliver_def blocked_on_def)
    next
      case (queued q')
      have "good V I J (a\<lparr>incoming := q'\<rparr>)"
        using g inv_incoming [OF goodD(1) [OF g] queued(3,4)] by (simp add: good_def)
      then show ?thesis
        using d app queued op m
        by (simp add: deliver_def delivered_def rx_step_def view_def rx_of_def queue_of_def a_out_def)
    qed
  next
    case close
    have d: "destination m a = (True, newStreamHandler a, map_of (streams a) (PacketId m))"
      using close by (simp add: destination_def)
    show ?thesis
    proof (cases "map_of (streams a) (PacketId m)")
      case None
      then have "queue_of D V a (PacketId m) = None"
        by (simp add: queue_of_def)
      then have "(queue_of D V a)(PacketId m := None) = queue_of D V a"
        by (simp add: fun_upd_idem)
      then have "rx_step pong h (view (poly D) p) (rx_of D V a) = rx_of D V a" for pong h
        using close op m by (simp add: rx_step_def view_def rx_of_def)
      then show ?thesis
        using d None close m good_put [OF ok g, of p] by (simp add: deliver_def delivered_def)
    next
      case (Some s)
      obtain b where b: "Stream_close D s a = Some b" "good V I J (b\<lparr>streams := AList.delete (PacketId m) (streams b)\<rparr>)"
        "rx_of D V (b\<lparr>streams := AList.delete (PacketId m) (streams b)\<rparr>) =
          (rx_of D V a)\<lparr>rx_streams := (rx_streams (rx_of D V a))(PacketId m := None)\<rparr>"
        "a_conn b = a_conn a" "newStreamHandler b = newStreamHandler a"
        by (rule deliver_close [OF ok g Some])
      then show ?thesis
        using d Some close m op good_put [OF ok b(2), of p]
        by (simp add: deliver_def delivered_def rx_step_def view_def)
    qed
  next
    case discard
    then show ?thesis
      using m op good_put [OF ok g, of p]
      by (simp add: deliver_def destination_def delivered_def rx_step_def view_def)
  next
    case data
    then show ?thesis
      by (intro deliver_stream_rx [OF ok g m])
  qed
qed

section \<open>Answering a ping\<close>

lemma writePacket_accepts:
  assumes ok: "deps_ok D V I J" and rc: "race_closes V I J race" and inv: "async_inv V I J a"
    and op: "\<not> a_closed a" and acc: "accepts_writes (a_conn a)" and we: "werr (a_writer a) = None"
    and se: "sendable (poly D) (maxLen D) p"
  shows "\<exists>a'. writePacket D race closeOnErr p a = Some (None, a') \<and> async_inv V I J a' \<and> wrote D p a a' \<and>
    accepts_writes (a_conn a') \<and> werr (a_writer a') = None"
proof -
  let ?h = "header_bytes (wire_metadata (Metadata p))" and ?b = "pg_bytes (poly D) (Content p)"
  obtain e1 w1 c1 where 1: "bufw_Write ?h (a_writer a, a_conn a) = (e1, w1, c1)"
    by (cases "bufw_Write ?h (a_writer a, a_conn a)")
  obtain e2 w2 c2 where 2: "bufw_Write ?b (w1, c1) = (e2, w2, c2)" by (cases "bufw_Write ?b (w1, c1)")
  have a1: "e1 = None" "accepts_writes c1" "werr w1 = None"
    using bufw_Write_accepts [OF acc we 1] bufw_Write_spec [OF 1] by auto
  have a2: "e2 = None" "accepts_writes c2" "werr w2 = None"
    using bufw_Write_accepts [OF a1(2,3) 2] bufw_Write_spec [OF 2] by auto
  have J: "J (buffers a)" and fc: "\<not> flushCh_closed a"
    using inv op by (simp_all add: inv_defs)
  obtain bl where eq: "writePacket D race closeOnErr p a =
      map_option (Pair None) (signal_flush (a\<lparr>buffers := bl, a_writer := w2, a_conn := c2\<rparr>))"
    by (rule writePacket_open [OF ok J se op, of "closeWithError D" race closeOnErr, folded writePacket_def])
      (use conn_SetDeadline_accepts [OF acc] 1 2 a1 a2 in simp)
  obtain n where "signal_flush (a\<lparr>buffers := bl, a_writer := w2, a_conn := c2\<rparr>) =
      Some (a\<lparr>buffers := bl, a_writer := w2, a_conn := c2, flushCh := n\<rparr>)"
    by (rule signal_flush_open [of "a\<lparr>buffers := bl, a_writer := w2, a_conn := c2\<rparr>"]) (use fc in auto)
  then have w: "writePacket D race closeOnErr p a =
      Some (None, a\<lparr>buffers := bl, a_writer := w2, a_conn := c2, flushCh := n\<rparr>)"
    using eq by simp
  then show ?thesis
    using writePacket_spec [OF ok rc inv, of closeOnErr p] a2 by (auto simp: write_outcome_def)
qed

lemma healthy_accepts: "healthy c \<Longrightarrow> accepts_writes c"
  by (simp add: healthy_def)

lemma ping_delivered:
  assumes ok: "deps_ok D V I J" and rc: "race_closes V I J race" and g: "good V I J a"
    and op: "Operation m = PING"
  obtains b where "writePacket D race False (PONGPacket (poly D)) a = Some (None, b)"
    and "delivered D V I J (m, bs) a b" and "unread (a_conn b) = unread (a_conn a)"
proof -
  obtain b where w: "writePacket D race False (PONGPacket (poly D)) a = Some (None, b)" "async_inv V I J b"
      "wrote D (PONGPacket (poly D)) a b" "accepts_writes (a_conn b)" "werr (a_writer b) = None"
    using writePacket_accepts [OF ok rc goodD(1,3) [OF g] healthy_accepts [OF goodD(4) [OF g]] goodD(5) [OF g]]
      sendable_PONG [OF deps_okD(1) [OF ok]] by blast
  note fr = wrote_frame [OF w(3)]
  have rd: "same_reads (a_conn a) (a_conn b)" "a_out b = a_out a @ frame (poly D) (PONGPacket (poly D))"
    using w(3) by (simp_all add: wrote_def)
  then have "healthy (a_conn b)"
    using goodD(4) [OF g] w(4) by (auto simp: healthy_def reads_cleanly_def same_reads_def)
  then have "good V I J b"
    using g w(2,5) by (simp add: good_def fr)
  then show thesis
    using that [of b] w(1) rd op
    by (simp add: delivered_def rx_step_def rx_of_def queue_of_def fr same_reads_def unread_def)
qed

section \<open>One iteration refines one unit\<close>

text \<open>What an iteration does after the packet has gone to its place.\<close>

definition continue ::
    "('c, 'q, 'pl, 'bl) deps \<Rightarrow> byte list \<Rightarrow> nat \<Rightarrow> nat \<Rightarrow> ('c, 'q, 'pl, 'bl, 'h) async
      \<Rightarrow> (byte list \<times> nat \<times> nat \<times> ('c, 'q, 'pl, 'bl, 'h) async, ('c, 'q, 'pl, 'bl, 'h) async) flow option" where
  "continue D buf index n a = do {
     (e, buf, index, n, c) \<leftarrow> refill buf index n (a_conn a);
     (case e of Some err \<Rightarrow> ended D err (a\<lparr>a_conn := c\<rparr>) | None \<Rightarrow> Some (Next (buf, index, n, a\<lparr>a_conn := c\<rparr>)))
   }"

text \<open>Two states that show the same to the reference.\<close>

definition same_rx ::
    "('c, 'q, 'pl, 'bl) deps \<Rightarrow> ('q, 'c packet) queue_view
      \<Rightarrow> ('c, 'q, 'pl, 'bl, 'h) async \<Rightarrow> ('c, 'q, 'pl, 'bl, 'h) async \<Rightarrow> bool" where
  "same_rx D V a b \<longleftrightarrow> rx_of D V b = rx_of D V a \<and> newStreamHandler b = newStreamHandler a \<and>
     read_end (a_conn b) = read_end (a_conn a)"

lemma continue_spec:
  assumes g: "good V I J a" and m: "rl_mid buf index n"
  shows "if Size \<le> length (pend buf index n (a_conn a))
    then \<exists>buf' index' n' b. continue D buf index n a = Some (Next (buf', index', n', b)) \<and> good V I J b \<and>
      same_rx D V a b \<and> rl_ok buf' index' n' \<and> pend buf' index' n' (a_conn b) = pend buf index n (a_conn a)
    else \<exists>b. continue D buf index n a = ended D (read_end (a_conn a)) b \<and> good V I J b \<and> same_rx D V a b"
proof -
  obtain e buf' index' n' c where r: "refill buf index n (a_conn a) = Some (e, buf', index', n', c)"
      "refilled buf index n (a_conn a) e buf' index' n' c"
    using refill_spec [OF m] by blast
  have c: "healthy c" "e = (if Size \<le> length (pend buf index n (a_conn a)) then None else Some (read_end (a_conn a)))"
      "read_frame (a_conn a) c"
    using r(2) goodD(4) [OF g] by (simp_all add: refilled_def)
  have b: "good V I J (a\<lparr>a_conn := c\<rparr>)" "same_rx D V a (a\<lparr>a_conn := c\<rparr>)"
    using good_conn [OF g c(1)] rx_of_conn [OF c(3)] c(3) by (simp_all add: same_rx_def read_frame_def)
  show ?thesis
    using r c(2) b by (auto simp: continue_def refilled_def)
qed

lemma get_fields_pend:
  assumes "rl_ok buf index n"
  shows "get_fields (pend buf index n c) 0 = get_fields buf index" and "Size \<le> length (pend buf index n c)"
proof -
  obtain m where m: "get_fields buf index = Some m"
    using get_fields_total [of index buf] assms by (auto simp: rl_ok_def)
  show "get_fields (pend buf index n c) 0 = get_fields buf index"
    using pend_header(1) [OF assms m] m by simp
  show "Size \<le> length (pend buf index n c)"
    using pend_header(1) [OF assms m] by simp
qed

text \<open>A delivery that starts from a state showing the same.\<close>

lemma delivered_same:
  "same_rx D V a a1 \<Longrightarrow> delivered D V I J w a1 b \<Longrightarrow> delivered D V I J w a b"
  by (simp add: delivered_def same_rx_def)

lemma delivered_put:
  assumes "deps_ok D V I J" and "delivered D V I J w a b"
  shows "delivered D V I J w a (b\<lparr>packets := Put (poly D) (pkt_pool D) q (packets b)\<rparr>)"
  using assms(2) good_put [OF assms(1), of b q] by (simp add: delivered_def)

text \<open>The length of what follows the header in a unit.\<close>

definition unit_len :: "metadata \<Rightarrow> nat" where
  "unit_len m = (if Operation m = PING \<or> Operation m = PONG then 0 else unat (ContentLength m))"

definition iterated ::
    "('c, 'q, 'pl, 'bl) deps \<Rightarrow> ('q, 'c packet) queue_view \<Rightarrow> ('pl \<Rightarrow> bool) \<Rightarrow> ('bl \<Rightarrow> bool)
      \<Rightarrow> byte list \<Rightarrow> metadata \<Rightarrow> ('c, 'q, 'pl, 'bl, 'h) async
      \<Rightarrow> (byte list \<times> nat \<times> nat \<times> ('c, 'q, 'pl, 'bl, 'h) async, ('c, 'q, 'pl, 'bl, 'h) async) flow option \<Rightarrow> bool" where
  "iterated D V I J bs m a r \<longleftrightarrow>
     (if Magic m \<noteq> PacketMagicHeader
      then \<exists>b. r = ended D InvalidMagicHeader b \<and> good V I J b \<and> same_rx D V a b
      else if exceeds_max (maxLen D) (ContentLength m)
      then \<exists>b. r = ended D ContentLengthExceeded b \<and> good V I J b \<and> same_rx D V a b
      else if length bs < Size + unit_len m
      then \<exists>b. r = ended D (read_end (a_conn a)) b \<and> good V I J b \<and> same_rx D V a b
      else (\<exists>b buf index n. r = continue D buf index n b \<and>
              delivered D V I J (m, take (unit_len m) (drop Size bs)) a b \<and> rl_mid buf index n \<and>
              pend buf index n (a_conn b) = drop (Size + unit_len m) bs) \<or>
           (\<exists>b. r = Some (Blocked b) \<and> good V I J b \<and> same_rx D V a b \<and> blocked_on V b m))"

lemma iterated_short:
  assumes "Magic m = PacketMagicHeader" and "\<not> exceeds_max (maxLen D) (ContentLength m)"
    and "length bs < Size + unit_len m" and "r = ended D (read_end (a_conn a)) b" and "good V I J b"
    and "same_rx D V a b"
  shows "iterated D V I J bs m a r"
  using assms by (auto simp: iterated_def)

lemma iterated_next:
  assumes "Magic m = PacketMagicHeader" and "\<not> exceeds_max (maxLen D) (ContentLength m)"
    and "\<not> length bs < Size + unit_len m" and "r = continue D buf index n b"
    and "delivered D V I J (m, take (unit_len m) (drop Size bs)) a b" and "rl_mid buf index n"
    and "pend buf index n (a_conn b) = drop (Size + unit_len m) bs"
  shows "iterated D V I J bs m a r"
  unfolding iterated_def using assms by (metis (no_types, lifting))

lemma iterated_blocked:
  assumes "Magic m = PacketMagicHeader" and "\<not> exceeds_max (maxLen D) (ContentLength m)"
    and "\<not> length bs < Size + unit_len m" and "r = Some (Blocked b)" and "good V I J b"
    and "same_rx D V a b" and "blocked_on V b m"
  shows "iterated D V I J bs m a r"
  unfolding iterated_def using assms by (metis (no_types, lifting))

lemma iterated_content:
  assumes ok: "deps_ok D V I J" and g: "good V I J b" and mid: "rl_mid buf index n"
    and p: "pg_bytes (poly D) (Content p) = []" "Metadata p = m"
    and op: "Operation m \<noteq> PING" "Operation m \<noteq> PONG"
    and acc: "Magic m = PacketMagicHeader" "\<not> exceeds_max (maxLen D) (ContentLength m)"
    and ab: "same_rx D V a b" and bs: "drop Size bs = pend buf index n (a_conn b)" "Size \<le> length bs"
  shows "iterated D V I J bs m a (do {
       (e, p, buf, index, n, c) \<leftarrow> read_content slack (poly D) p buf index n (a_conn b);
       (case e of
          Some err \<Rightarrow> ended D err (b\<lparr>a_conn := c\<rparr>)
        | None \<Rightarrow> do {
            r \<leftarrow> deliver D (destination m b) p (b\<lparr>a_conn := c\<rparr>);
            (case r of Next a \<Rightarrow> continue D buf index n a | Ended a \<Rightarrow> Some (Ended a) | Blocked a \<Rightarrow> Some (Blocked a))
          })
     })" (is "iterated D V I J bs m a ?r")
proof -
  let ?bs = "pend buf index n (a_conn b)"
  obtain e p' buf' index' n' c where r: "read_content slack (poly D) p buf index n (a_conn b) = Some (e, p', buf', index', n', c)"
      "content_read (poly D) p buf index n (a_conn b) e p' buf' index' n' c"
    using read_content_spec [OF deps_okD(1) [OF ok] p(1) mid] by blast
  have len: "unit_len m = unat (ContentLength m)" "length bs = Size + length ?bs"
    using op bs by (simp_all add: unit_len_def bs(1) [symmetric])
  have c: "healthy c" "read_frame (a_conn b) c" "Metadata p' = m"
      "e = (if length ?bs < unit_len m then Some (read_end (a_conn b)) else None)"
    using r(2) goodD(4) [OF g] p(2) len(1) by (auto simp: content_read_def)
  let ?d = "b\<lparr>a_conn := c\<rparr>"
  have gd: "good V I J ?d" "same_rx D V a ?d" "read_end (a_conn b) = read_end (a_conn a)"
    using good_conn [OF g c(1)] rx_of_conn [OF c(2)] c(2) ab by (simp_all add: same_rx_def read_frame_def)
  show ?thesis
  proof (cases "length ?bs < unit_len m")
    case True
    then have eq: "?r = ended D (read_end (a_conn a)) ?d"
      using r(1) c(4) gd(3) by simp
    show ?thesis
      by (rule iterated_short [OF acc _ eq gd(1,2)]) (use True len(2) in simp)
  next
    case False
    have k: "rl_mid buf' index' n'" "pg_bytes (poly D) (Content p') @ pend buf' index' n' c = ?bs"
        "length (pg_bytes (poly D) (Content p')) = unit_len m"
      using r(2) c(4) False p(2) len(1) by (auto simp: content_read_def)
    have v: "view (poly D) p' = (m, take (unit_len m) (drop Size bs))"
      and rest: "pend buf' index' n' c = drop (Size + unit_len m) bs" and l: "\<not> length bs < Size + unit_len m"
      using k(2) [symmetric] k(3) c(3) bs(1) len(2) False
      by (simp_all add: view_def drop_drop [symmetric] add.commute [of Size] del: drop_drop)
    consider (queued) d where "deliver D (destination m b) p' ?d = Some (Next d)" "a_conn d = c"
        "delivered D V I J (m, take (unit_len m) (drop Size bs)) ?d d"
      | (blocked) "deliver D (destination m b) p' ?d = Some (Blocked ?d)" "blocked_on V ?d m"
      using deliver_rx [OF ok gd(1) c(3) op] v by auto
    then show ?thesis
    proof cases
      case queued
      then have eq: "?r = continue D buf' index' n' d"
        using r(1) c(4) False by simp
      show ?thesis
        by (rule iterated_next [OF acc l eq delivered_same [OF gd(2) queued(3)] k(1)]) (use queued(2) rest in simp)
    next
      case blocked
      then have eq: "?r = Some (Blocked ?d)"
        using r(1) c(4) False by simp
      show ?thesis
        by (rule iterated_blocked [OF acc l eq gd(1,2) blocked(2)])
    qed
  qed
qed

lemma readLoop_body_iterated:
  assumes ok: "deps_ok D V I J" and rc: "race_closes V I J race" and g: "good V I J a"
    and rl: "rl_ok buf index n" and m: "get_fields buf index = Some m"
  shows "iterated D V I J (pend buf index n (a_conn a)) m a (readLoop_body slack D race buf index n a)"
proof -
  let ?bs = "pend buf index n (a_conn a)"
  obtain p pl where gp: "Get (pkt_pool D) (packets a) = (p, pl)" by (cases "Get (pkt_pool D) (packets a)")
  define b where "b = a\<lparr>packets := pl\<rparr>"
  have pl: "I pl" "clean_packet (poly D) p"
    using Get_clean [OF deps_okD(2) [OF ok] _ gp] goodD(1) [OF g] by (auto simp: inv_defs)
  have gb: "good V I J b" "same_rx D V a b" "a_conn b = a_conn a"
    using good_pool [OF g pl(1)] by (simp_all add: b_def same_rx_def)
  define q where "q = p\<lparr>Metadata := m\<rparr>"
  note hd = pend_header(1) [OF rl m, of "a_conn a"] pend_header(2) [OF rl m]
  have bs: "drop Size ?bs = pend buf (index + Size) n (a_conn a)" "Size \<le> length ?bs"
      "length ?bs = Size + length (pend buf (index + Size) n (a_conn a))"
    using hd(1) by simp_all
  note start = readLoop_body_def [of slack D race buf index n a] gp m Let_def b_def [symmetric] q_def [symmetric]
    continue_def [symmetric]
  consider (refused) "Magic m \<noteq> PacketMagicHeader \<or> exceeds_max (maxLen D) (ContentLength m)"
    | (ping) "Magic m = PacketMagicHeader" "\<not> exceeds_max (maxLen D) (ContentLength m)" "Operation m = PING"
    | (pong) "Magic m = PacketMagicHeader" "\<not> exceeds_max (maxLen D) (ContentLength m)" "Operation m = PONG" "Operation m \<noteq> PING"
    | (other) "Magic m = PacketMagicHeader" "\<not> exceeds_max (maxLen D) (ContentLength m)"
        "Operation m \<noteq> PING" "Operation m \<noteq> PONG"
    by blast
  then show ?thesis
  proof cases
    case refused
    then show ?thesis
      using gb by (auto simp: iterated_def start)
  next
    case ping
    obtain d where d: "writePacket D race False (PONGPacket (poly D)) b = Some (None, d)"
        "delivered D V I J (m, []) b d" "unread (a_conn d) = unread (a_conn b)"
      by (rule ping_delivered [OF ok rc gb(1) ping(3)])
    let ?d = "d\<lparr>packets := Put (poly D) (pkt_pool D) q (packets d)\<rparr>"
    have eq: "readLoop_body slack D race buf index n a = continue D buf (index + Size) n ?d"
      using ping d(1) by (simp add: start)
    have del: "delivered D V I J (m, []) a ?d"
      by (rule delivered_put [OF ok delivered_same [OF gb(2) d(2)]])
    have "pend buf (index + Size) n (a_conn ?d) = drop Size ?bs"
      using d(3) gb(3) bs(1) by (simp add: pend_def)
    then show ?thesis
      by (intro iterated_next [OF ping(1,2) _ eq _ hd(2)]) (use ping(3) bs(2) del in \<open>simp_all add: unit_len_def\<close>)
  next
    case pong
    let ?d = "b\<lparr>packets := Put (poly D) (pkt_pool D) q (packets b)\<rparr>"
    have eq: "readLoop_body slack D race buf index n a = continue D buf (index + Size) n ?d"
      using pong unfolding b_def q_def
      by (simp add: readLoop_body_def gp m Let_def continue_def cong: option.case_cong)
    have del: "delivered D V I J (m, []) a ?d"
      by (rule delivered_put [OF ok])
        (use pong gb in \<open>simp add: delivered_def same_rx_def rx_step_def\<close>)
    show ?thesis
      by (intro iterated_next [OF pong(1,2) _ eq _ hd(2)]) (use pong(3) bs gb(3) del in \<open>simp_all add: unit_len_def\<close>)
  next
    case other
    have p: "pg_bytes (poly D) (Content q) = []" "Metadata q = m"
      using clean_packetD [OF pl(2)] by (simp_all add: q_def)
    have "readLoop_body slack D race buf index n a = (do {
       (e, p, buf, index, n, c) \<leftarrow> read_content slack (poly D) q buf (index + Size) n (a_conn b);
       (case e of
          Some err \<Rightarrow> ended D err (b\<lparr>a_conn := c\<rparr>)
        | None \<Rightarrow> do {
            r \<leftarrow> deliver D (destination m b) p (b\<lparr>a_conn := c\<rparr>);
            (case r of Next a \<Rightarrow> continue D buf index n a | Ended a \<Rightarrow> Some (Ended a) | Blocked a \<Rightarrow> Some (Blocked a))
          })
     })"
      using other unfolding b_def q_def
      by (auto simp: readLoop_body_def gp m Let_def continue_def ended_def bind_assoc case_prod_unfold
          intro!: Option.bind_cong split: option.split flow.split)
    then show ?thesis
      using iterated_content [OF ok gb(1) hd(2) p other(3,4,1,2) gb(2), of ?bs slack] gb(3) bs by simp
  qed
qed

section \<open>The whole loop refines the reference\<close>

text \<open>
  The outcome of a run against the units \<open>ws\<close> of the byte stream and the reason \<open>e\<close> for stopping:
  the loop leaves in a state where all of them took effect, or it waits with the next one for
  room in a full queue.
\<close>

definition stop_reason :: "goerror option \<Rightarrow> goerror \<Rightarrow> goerror" where
  "stop_reason e at_end = (case e of None \<Rightarrow> at_end | Some err \<Rightarrow> err)"

definition run_outcome ::
    "('c, 'q, 'pl, 'bl) deps \<Rightarrow> ('q, 'c packet) queue_view \<Rightarrow> ('pl \<Rightarrow> bool) \<Rightarrow> ('bl \<Rightarrow> bool)
      \<Rightarrow> (metadata \<times> byte list) list \<Rightarrow> goerror option \<Rightarrow> ('c, 'q, 'pl, 'bl, 'h) async
      \<Rightarrow> (unit, ('c, 'q, 'pl, 'bl, 'h) async) flow option \<Rightarrow> bool" where
  "run_outcome D V I J ws e a r \<longleftrightarrow>
     (let step = rx_step (frame (poly D) (PONGPacket (poly D))) (newStreamHandler a \<noteq> None);
          reason = stop_reason e (read_end (a_conn a)) in
      (\<exists>b a'. r = Some (Ended a') \<and> good V I J b \<and> rx_of D V b = fold step ws (rx_of D V a) \<and>
         leave_with D reason b = Some (Left, a')) \<or>
      (\<exists>b k. r = Some (Blocked b) \<and> k < length ws \<and> good V I J b \<and>
         rx_of D V b = fold step (take k ws) (rx_of D V a) \<and> blocked_on V b (fst (ws ! k))))"

lemma run_outcome_same:
  "same_rx D V a b \<Longrightarrow> run_outcome D V I J ws e b r \<Longrightarrow> run_outcome D V I J ws e a r"
  by (simp add: run_outcome_def same_rx_def Let_def)

lemma run_outcome_stop:
  assumes "deps_ok D V I J" and "good V I J b" and "same_rx D V a b"
    and "reason = stop_reason e (read_end (a_conn a))"
  shows "run_outcome D V I J [] e a (ended D reason b)"
proof -
  obtain a' where "leave_with D reason b = Some (Left, a')"
    by (rule ended_spec [OF assms(1) goodD(1,2) [OF assms(2)]])
  then show ?thesis
    using assms by (auto simp: run_outcome_def same_rx_def Let_def)
qed

lemma run_outcome_Cons:
  assumes "delivered D V I J w a b" and "run_outcome D V I J ws e b r"
  shows "run_outcome D V I J (w # ws) e a r"
proof -
  let ?step = "rx_step (frame (poly D) (PONGPacket (poly D))) (newStreamHandler a \<noteq> None)"
  have eq: "rx_of D V b = ?step w (rx_of D V a)" "newStreamHandler b = newStreamHandler a"
      "read_end (a_conn b) = read_end (a_conn a)"
    using assms(1) by (simp_all add: delivered_def)
  from assms(2) consider
      (ended) d a' where "r = Some (Ended a')" "good V I J d" "rx_of D V d = fold ?step ws (rx_of D V b)"
        "leave_with D (stop_reason e (read_end (a_conn a))) d = Some (Left, a')"
    | (blocked) d k where "r = Some (Blocked d)" "k < length ws" "good V I J d"
        "rx_of D V d = fold ?step (take k ws) (rx_of D V b)" "blocked_on V d (fst (ws ! k))"
    by (auto simp: run_outcome_def Let_def eq)
  then show ?thesis
  proof cases
    case ended
    then show ?thesis
      using eq by (auto simp: run_outcome_def Let_def)
  next
    case blocked
    have "Suc k < length (w # ws) \<and> rx_of D V d = fold ?step (take (Suc k) (w # ws)) (rx_of D V a) \<and>
        blocked_on V d (fst ((w # ws) ! Suc k))"
      using blocked eq by simp
    then show ?thesis
      using blocked(1,3) by (auto simp: run_outcome_def Let_def)
  qed
qed

lemma run_outcome_blocked:
  assumes "good V I J b" and "same_rx D V a b" and "blocked_on V b m"
  shows "run_outcome D V I J ((m, bs) # ws) e a (Some (Blocked b))"
  using assms by (auto simp: run_outcome_def same_rx_def Let_def intro!: exI [of _ "0 :: nat"])

lemma parse_short: "length bs < Size \<Longrightarrow> parse mx bs = ([], None)"
  by (simp add: parse.simps)

lemma parse_unit:
  assumes "Size \<le> length bs" and "get_fields bs 0 = Some m"
  shows "parse mx bs =
    (if Magic m \<noteq> PacketMagicHeader then ([], Some InvalidMagicHeader)
     else if exceeds_max mx (ContentLength m) then ([], Some ContentLengthExceeded)
     else if length bs < Size + unit_len m then ([], None)
     else (let (ws, e) = parse mx (drop (Size + unit_len m) bs)
           in ((m, take (unit_len m) (drop Size bs)) # ws, e)))"
  using assms by (subst parse.simps) (simp add: unit_len_def Let_def)

lemma readLoop_from_refines:
  assumes ok: "deps_ok D V I J" and rc: "race_closes V I J race"
  shows "good V I J a \<Longrightarrow> rl_ok buf index n \<Longrightarrow> parse (maxLen D) (pend buf index n (a_conn a)) = (ws, e) \<Longrightarrow>
    run_outcome D V I J ws e a (readLoop_from slack D race buf index n a)"
proof (induction "length (pend buf index n (a_conn a))" arbitrary: buf index n a ws rule: less_induct)
  case less
  let ?bs = "pend buf index n (a_conn a)"
  note rl = less.prems(2) and g = less.prems(1)
  obtain m where m: "get_fields buf index = Some m"
    using get_fields_total [of index buf] rl by (auto simp: rl_ok_def)
  note gf = get_fields_pend [OF rl, of "a_conn a"]
  note it = readLoop_body_iterated [OF ok rc g rl m, of slack]
  note pu = parse_unit [OF gf(2), of m "maxLen D"]
  have from_body: "readLoop_from slack D race buf index n a = do {
      r \<leftarrow> readLoop_body slack D race buf index n a;
      (case r of Next (buf, index, n, a) \<Rightarrow> readLoop_from slack D race buf index n a
       | Ended a \<Rightarrow> Some (Ended a) | Blocked a \<Rightarrow> Some (Blocked a)) }"
    using rl_ok_less [OF rl] by (subst readLoop_from.simps) simp
  have leave: "readLoop_from slack D race buf index n a = ended D err b"
    if "readLoop_body slack D race buf index n a = ended D err b" for err b
    unfolding from_body that by (simp add: ended_def bind_assoc case_prod_unfold)
  show ?case
  proof (cases "Magic m \<noteq> PacketMagicHeader \<or> exceeds_max (maxLen D) (ContentLength m) \<or> length ?bs < Size + unit_len m")
    case True
    then have ws: "ws = []" and e: "e = (if Magic m \<noteq> PacketMagicHeader then Some InvalidMagicHeader
        else if exceeds_max (maxLen D) (ContentLength m) then Some ContentLengthExceeded else None)"
      using less.prems(3) pu m gf(1) by (auto split: if_splits)
    obtain b where "readLoop_body slack D race buf index n a =
        ended D (stop_reason e (read_end (a_conn a))) b" "good V I J b" "same_rx D V a b"
      using it True e by (auto simp: iterated_def stop_reason_def split: if_splits)
    then show ?thesis
      using run_outcome_stop [OF ok, of b a _ e] leave ws by simp
  next
    case False
    let ?w = "(m, take (unit_len m) (drop Size ?bs))" and ?rest = "drop (Size + unit_len m) ?bs"
    obtain ws' where p: "parse (maxLen D) ?rest = (ws', e)" "ws = ?w # ws'"
      using less.prems(3) pu m gf(1) False by (auto split: prod.splits)
    consider (more) b buf' index' n' where "readLoop_body slack D race buf index n a = continue D buf' index' n' b"
        "delivered D V I J ?w a b" "rl_mid buf' index' n'" "pend buf' index' n' (a_conn b) = ?rest"
      | (blocked) b where "readLoop_body slack D race buf index n a = Some (Blocked b)" "good V I J b"
        "same_rx D V a b" "blocked_on V b m"
      using it False by (auto simp: iterated_def)
    then show ?thesis
    proof cases
      case blocked
      then show ?thesis
        using run_outcome_blocked [OF blocked(2-4)] p(2) by (simp add: from_body)
    next
      case more
      have gb: "good V I J b"
        using more(2) by (simp add: delivered_def)
      note c = continue_spec [OF gb more(3), of D, unfolded more(4)]
      show ?thesis
      proof (cases "Size \<le> length ?rest")
        case True
        then obtain buf2 index2 n2 d where d: "continue D buf' index' n' b = Some (Next (buf2, index2, n2, d))"
            "good V I J d" "same_rx D V b d" "rl_ok buf2 index2 n2" "pend buf2 index2 n2 (a_conn d) = ?rest"
          using c by auto
        have "length ?rest < length ?bs"
          using gf(2) by (simp add: Size_def)
        then have "run_outcome D V I J ws' e d (readLoop_from slack D race buf2 index2 n2 d)"
          using less.hyps [of buf2 index2 n2 d ws'] d p(1) by simp
        then show ?thesis
          using run_outcome_Cons [OF more(2) run_outcome_same [OF d(3)]] p(2) more(1) d(1) by (simp add: from_body)
      next
        case False
        then obtain d where d: "continue D buf' index' n' b = ended D (read_end (a_conn b)) d" "good V I J d"
            "same_rx D V b d"
          using c by auto
        have "ws' = []" "e = None"
          using parse_short [of ?rest "maxLen D"] False p(1) by auto
        then show ?thesis
          using run_outcome_Cons [OF more(2) run_outcome_stop [OF ok d(2,3), of _ None]] p(2) stop_reason_def [of None] leave more(1) d(1) by simp
      qed
    qed
  qed
qed

lemma readLoop_refines:
  assumes ok: "deps_ok D V I J" and rc: "race_closes V I J race" and g: "good V I J a"
    and p: "parse (maxLen D) (unread (a_conn a)) = (ws, e)"
  shows "run_outcome D V I J ws e a (readLoop slack D race a)"
proof -
  let ?buf = "replicate DefaultBufferSize (0 :: byte)"
  have "Size \<le> length ?buf"
    by (simp add: Size_def DefaultBufferSize_def)
  then obtain r n buf c where h: "readLoop_head D ?buf a =
      (case r of Some err \<Rightarrow> ended D err (a\<lparr>a_conn := c\<rparr>) | None \<Rightarrow> Some (Next (buf, 0, n, a\<lparr>a_conn := c\<rparr>)))"
      "refilled ?buf 0 0 (a_conn a) r buf 0 n c"
    by (rule readLoop_head_spec)
  have c: "healthy c" "read_frame (a_conn a) c"
      "r = (if Size \<le> length (unread (a_conn a)) then None else Some (read_end (a_conn a)))"
    using h(2) goodD(4) [OF g] by (simp_all add: refilled_def pend_def)
  let ?b = "a\<lparr>a_conn := c\<rparr>"
  have b: "good V I J ?b" "same_rx D V a ?b"
    using good_conn [OF g c(1)] rx_of_conn [OF c(2)] c(2) by (simp_all add: same_rx_def read_frame_def)
  show ?thesis
  proof (cases "Size \<le> length (unread (a_conn a))")
    case True
    then have n: "rl_ok buf 0 n" "pend buf 0 n c = unread (a_conn a)"
      using h(2) c(3) by (simp_all add: refilled_def pend_def)
    then have "readLoop slack D race a = readLoop_from slack D race buf 0 n ?b"
      unfolding readLoop_def using h(1) c(3) True by (subst readLoop_from.simps) simp
    then show ?thesis
      using run_outcome_same [OF b(2) readLoop_from_refines [OF ok rc b(1) n(1)]] n(2) p by simp
  next
    case False
    then have "readLoop slack D race a = ended D (read_end (a_conn a)) ?b"
      unfolding readLoop_def using h(1) c(3)
      by (subst readLoop_from.simps) (simp add: ended_def bind_assoc case_prod_unfold)
    moreover have "ws = []" "e = None"
      using parse_short [of "unread (a_conn a)" "maxLen D"] False p by auto
    ultimately show ?thesis
      using run_outcome_stop [OF ok b, of _ None] by (simp add: stop_reason_def)
  qed
qed

section \<open>Frames parse back\<close>

text \<open>The units of the frames of packets that may be sent; pings and pongs have no content.\<close>

lemma parse_frame:
  assumes "polyglot_ok P" and "sendable P mx p"
    and "Operation (Metadata p) \<in> {PING, PONG} \<Longrightarrow> ContentLength (Metadata p) = 0"
    and "parse mx bs = (ws, e)"
  shows "parse mx (frame P p @ bs) = (received P p # ws, e)"
proof -
  let ?m = "wire_metadata (Metadata p)" and ?c = "pg_bytes P (Content p)"
  have l: "length ?c = unit_len ?m"
    using sendable_bytes [OF assms(1,2)] assms(3) by (auto simp: unit_len_def)
  have "get_fields (frame P p @ bs) 0 = Some ?m" "Size \<le> length (frame P p @ bs)"
    by (simp_all add: frame_def)
  then show ?thesis
    using parse_unit [of "frame P p @ bs" ?m mx] assms(2,4) l
    by (simp add: sendable_def frame_def received_def)
qed

lemma parse_frames:
  assumes "polyglot_ok P" and "parse mx tail = (ws, e)"
    and "\<forall>p\<in>set ps. sendable P mx p \<and> (Operation (Metadata p) \<in> {PING, PONG} \<longrightarrow> ContentLength (Metadata p) = 0)"
  shows "parse mx (concat (map (frame P) ps) @ tail) = (map (received P) ps @ ws, e)"
  using assms(3)
proof (induction ps)
  case (Cons p ps)
  then show ?case
    using parse_frame [OF assms(1), of mx p "concat (map (frame P) ps) @ tail" "map (received P) ps @ ws" e] by auto
qed (simp add: assms(2))

end
