(* ===== verification/Async_Read_Props.thy ===== *)
theory Async_Read_Props
  imports Async_Delivery
begin

text \<open>
  The properties of the read loop: safety against any network, refinement of the reference
  parser, delivery of what a peer wrote, and what refused and unusual headers lead to.
\<close>

section \<open>Consequences of the refinement\<close>

lemma fold_rx_app:
  "\<forall>w\<in>set ws. Operation (fst w) \<notin> {PING, PONG, STREAM} \<Longrightarrow>
     fold (rx_step pong h) ws x = x\<lparr>rx_app := rx_app x @ ws\<rparr>"
proof (induction ws arbitrary: x)
  case (Cons w ws)
  then show ?case by (cases w) (auto simp: rx_step_def)
qed simp

text \<open>A run that ends on an open connection keeps the queued packets and records the reason.\<close>

lemma run_ended:
  assumes "deps_ok D V I J" and "good V I J b" and "leave_with D err b = Some (Left, a')"
  shows "async_inv V I J a' \<and> a_closed a' \<and> a_error a' = Some err \<and> a_out a' = rx_out (rx_of D V b) \<and>
    map (view (poly D)) (a_stale a') = rx_app (rx_of D V b)"
proof -
  obtain c where "leave_with D err b = Some (Left, c)" "async_inv V I J c" "a_closed c" "a_out c = a_out b"
      "a_error c = Some err" "a_stale c = items V (incoming b)" "shut (a_conn c)"
    by (rule ended_open [OF assms(1) goodD(1-3) [OF assms(2)]])
  then show ?thesis
    using assms(3) by (simp add: rx_of_def)
qed

lemma run_cases:
  assumes ok: "deps_ok D V I J" and rc: "race_closes V I J race" and g: "good V I J a"
    and p: "parse (maxLen D) (unread (a_conn a)) = (ws, e)"
  defines "step \<equiv> rx_step (frame (poly D) (PONGPacket (poly D))) (newStreamHandler a \<noteq> None)"
  obtains (ended) a' where "readLoop slack D race a = Some (Ended a')" and "async_inv V I J a'" and "a_closed a'"
      and "a_error a' = Some (stop_reason e (read_end (a_conn a)))"
      and "map (view (poly D)) (a_stale a') = rx_app (fold step ws (rx_of D V a))"
      and "a_out a' = rx_out (fold step ws (rx_of D V a))"
    | (blocked) a' k where "readLoop slack D race a = Some (Blocked a')" and "k < length ws" and "good V I J a'"
      and "rx_of D V a' = fold step (take k ws) (rx_of D V a)" and "blocked_on V a' (fst (ws ! k))"
  using readLoop_refines [OF ok rc g p, of slack] run_ended [OF ok]
  unfolding run_outcome_def Let_def step_def by metis

text \<open>Application packets in a row, whatever ends the run.\<close>

lemma reads_app:
  assumes ok: "deps_ok D V I J" and g: "good V I J r"
    and parse: "parse (maxLen D) (unread (a_conn r)) = (map (received (poly D)) ps, e)"
    and ops: "\<forall>p\<in>set ps. Operation (Metadata p) \<notin> {PING, PONG, STREAM}"
  shows "(\<exists>r'. readLoop slack D id r = Some (Ended r') \<and> a_closed r' \<and>
      a_error r' = Some (stop_reason e (read_end (a_conn r))) \<and>
      map (view (poly D)) (a_stale r') = map (view (poly D)) (items V (incoming r)) @ map (received (poly D)) ps) \<or>
    (\<exists>r' k. readLoop slack D id r = Some (Blocked r') \<and> k < length ps \<and> \<not> a_closed r' \<and> room V (incoming r') = 0 \<and>
      map (view (poly D)) (items V (incoming r')) =
        map (view (poly D)) (items V (incoming r)) @ map (received (poly D)) (take k ps))"
proof -
  have app: "rx_app (fold (rx_step pong h) (map (received (poly D)) qs) x) = rx_app x @ map (received (poly D)) qs"
    if "set qs \<subseteq> set ps" for qs pong h x
  proof -
    have "\<forall>w\<in>set (map (received (poly D)) qs). Operation (fst w) \<notin> {PING, PONG, STREAM}"
      using that ops by (auto simp: received_def)
    then show ?thesis
      using fold_rx_app by simp
  qed
  show ?thesis
  proof (cases rule: run_cases [OF ok race_closes_id g parse, of slack, case_names ended blocked])
    case (ended a')
    then show ?thesis
      using app [of ps] by (auto simp: rx_of_def)
  next
    case (blocked a' k)
    have op: "Operation (fst (map (received (poly D)) ps ! k)) \<noteq> STREAM"
      using blocked(2) ops by (simp add: received_def)
    have "rx_app (rx_of D V a') = rx_app (rx_of D V r) @ map (received (poly D)) (take k ps)"
      using blocked(4) app [of "take k ps"] set_take_subset [of k ps] by (simp add: take_map)
    then show ?thesis
      using blocked(1,2,5) op goodD(3) [OF blocked(3)] by (auto simp: rx_of_def blocked_on_def)
  qed
qed

lemma list_async_good:
  assumes "\<forall>r\<in>set rs. snd r = None"
  shows "good list_view good_packets good_buffers (list_async rs h)"
  using assms list_async_inv [of rs h]
  by (auto simp: good_def healthy_def reads_cleanly_def accepts_writes_def quiet_conn_def NewWriterSize_def list_all_iff)

lemma list_rx_of [simp]:
  "rx_of (list_deps 0) list_view (list_async rs h) =
     \<lparr>rx_app = [], rx_streams = Map.empty, rx_opened = [], rx_out = []\<rparr>"
  by (simp add: rx_of_def queue_of_def list_view_def list_circular_def fun_eq_iff)

section \<open>Properties\<close>

text \<open>
  C3: the read loop is safe against any network. Whatever chunks, errors and deadline failures
  the network produces and whatever the bytes are, the loop never indexes outside its buffer,
  never spins, and comes to an end: it leaves with the connection closed, or it waits for room
  in a packet queue; the invariant of the connection holds throughout.
\<close>

theorem readLoop_total:
  assumes "deps_ok D V I J" and "race_closes V I J race" and "\<forall>b. a_wg (race b) = a_wg b"
    and "async_inv V I J a" and "0 < a_wg a"
  shows "\<exists>a'. async_inv V I J a' \<and>
    (readLoop slack D race a = Some (Ended a') \<and> a_closed a' \<or> readLoop slack D race a = Some (Blocked a'))"
proof -
  obtain r where "readLoop slack D race a = Some r" "flow_ok V I J (\<lambda>_. False) r"
    using readLoop_safe [OF assms] by blast
  then show ?thesis
    by (cases r) auto
qed

text \<open>Witness: garbage in two chunks, the second together with an error.\<close>

theorem readLoop_total_witness:
  "\<exists>a'. readLoop (\<lambda>_. 7) (list_deps 0) id (list_async [([1, 2, 3], None), ([4], Some (NetError 2))] None) = Some (Ended a') \<or>
    readLoop (\<lambda>_. 7) (list_deps 0) id (list_async [([1, 2, 3], None), ([4], Some (NetError 2))] None) = Some (Blocked a')"
  using readLoop_total [of "list_deps 0" list_view good_packets good_buffers id
      "list_async [([1, 2, 3], None), ([4], Some (NetError 2))] None" "\<lambda>_. 7",
      OF list_deps_ok race_closes_id _ list_async_inv]
  by auto

text \<open>
  C2: the read loop refines the reference parser. On a network whose only error is the end of
  the stream, the effect of the loop depends on the bytes alone and not on how they were cut into
  chunks: the units of the byte stream take effect one after the other (packets to the incoming
  queue, stream packets to their streams, pongs written for pings), then the connection closes
  with the reason the parser gives; unless a queue is full, in which case exactly the units
  before the one that waits have taken effect.
\<close>

theorem readLoop_refines_parser:
  assumes "deps_ok D V I J" and "race_closes V I J race" and "good V I J a"
    and "parse (maxLen D) (unread (a_conn a)) = (ws, e)"
  shows "let step = rx_step (frame (poly D) (PONGPacket (poly D))) (newStreamHandler a \<noteq> None) in
    (\<exists>b a'. readLoop slack D race a = Some (Ended a') \<and> good V I J b \<and>
       rx_of D V b = fold step ws (rx_of D V a) \<and>
       leave_with D (stop_reason e (read_end (a_conn a))) b = Some (Left, a') \<and>
       a_closed a' \<and> a_error a' = Some (stop_reason e (read_end (a_conn a))) \<and>
       map (view (poly D)) (a_stale a') = rx_app (rx_of D V b)) \<or>
    (\<exists>b k. readLoop slack D race a = Some (Blocked b) \<and> k < length ws \<and>
       rx_of D V b = fold step (take k ws) (rx_of D V a) \<and> blocked_on V b (fst (ws ! k)))"
  using readLoop_refines [OF assms, of slack] run_ended [OF assms(1)]
  unfolding run_outcome_def Let_def by metis

text \<open>Witness: a ping and a packet, cut into three chunks.\<close>

theorem readLoop_refines_parser_witness:
  "\<exists>a'. readLoop (\<lambda>_. 0) (list_deps 0) id
       (list_async [([0, 15, 0, 0, 0, 0], None), ([0, 0, 0, 0, 0, 15, 0, 1], None), ([0, 12, 0, 0, 0, 1, 7], None)] None)
       = Some (Ended a') \<and> a_error a' = Some IoEOF \<or>
    readLoop (\<lambda>_. 0) (list_deps 0) id
       (list_async [([0, 15, 0, 0, 0, 0], None), ([0, 0, 0, 0, 0, 15, 0, 1], None), ([0, 12, 0, 0, 0, 1, 7], None)] None)
       = Some (Blocked a')"
proof -
  let ?a = "list_async [([0, 15, 0, 0, 0, 0], None), ([0, 0, 0, 0, 0, 15, 0, 1], None), ([0, 12, 0, 0, 0, 1, 7], None)] None"
  have "good list_view good_packets good_buffers ?a"
    by (rule list_async_good) simp
  moreover have "parse (maxLen (list_deps 0)) (unread (a_conn ?a)) =
      ([(\<lparr>Magic = 15, PacketId = 0, Operation = 0, ContentLength = 0\<rparr>, []),
        (\<lparr>Magic = 15, PacketId = 1, Operation = 12, ContentLength = 1\<rparr>, [7])], None)"
    by (simp add: unread_def quiet_conn_def parse.simps get_fields_def Size_def list_deps_def
        PacketMagicHeader_def guard_simps exceeds_max_def Let_def)
  ultimately show ?thesis
    using readLoop_refines_parser [of "list_deps 0" list_view good_packets good_buffers id ?a,
        OF list_deps_ok race_closes_id]
    by (fastforce simp: Let_def stop_reason_def quiet_conn_def)
qed

lemma writes_arrive:
  assumes ok: "deps_ok D V I J" and inv: "async_inv V I J w" and out: "a_out w = []"
    and wr: "write_all (Async_WritePacket D id) ps w = Some (es, w1)" "set es \<subseteq> {None}"
    and fl: "Async_Flush D w1 = Some (None, w2)"
    and g: "good V I J r" and net: "unread (a_conn r) = sent (a_conn w2)"
  shows "(\<exists>r'. readLoop slack D id r = Some (Ended r') \<and> a_closed r' \<and> a_error r' = Some (read_end (a_conn r)) \<and>
      map (view (poly D)) (a_stale r') = map (view (poly D)) (items V (incoming r)) @ map (received (poly D)) ps) \<or>
    (\<exists>r' k. readLoop slack D id r = Some (Blocked r') \<and> k < length ps \<and> \<not> a_closed r' \<and> room V (incoming r') = 0 \<and>
      map (view (poly D)) (items V (incoming r')) =
        map (view (poly D)) (items V (incoming r)) @ map (received (poly D)) (take k ps))"
proof -
  note fr = write_all_frames [OF ok inv wr]
  have "a_out w2 = a_out w1" "wbuf (a_writer w2) = []"
    using Async_Flush_spec [OF ok, of w1] fr fl by auto
  then have bytes: "unread (a_conn r) = concat (map (frame (poly D)) ps)"
    using fr out net by (simp add: a_out_def bufw_out_def)
  have ops: "\<forall>p\<in>set ps. Operation (Metadata p) \<notin> {PING, PONG, STREAM}"
    using fr by (auto simp: guard_simps)
  have parse: "parse (maxLen D) (unread (a_conn r)) = (map (received (poly D)) ps, None)"
    using parse_frames [OF deps_okD(1) [OF ok], of "maxLen D" "[]" "[]" None ps] fr ops bytes
    by (auto simp: parse_short Size_def)
  show ?thesis
    using reads_app [OF ok g parse ops, of slack] by (simp add: stop_reason_def)
qed

text \<open>
  C4: what a peer writes arrives. When a peer's writes and its flush succeeded and the network
  carries what was sent, in any chunks, then the read loop queues exactly those packets, in
  order and with their metadata and contents, behind what was queued before; when the stream
  ends, the packets are all kept for the reader and the connection closes with the end of the
  stream as its error. If the incoming queue fills up first, the packets up to that point are
  queued.
\<close>

theorem async_end_to_end:
  assumes ok: "deps_ok D V I J" and inv: "async_inv V I J w" and out: "a_out w = []"
    and wr: "write_all (Async_WritePacket D id) ps w = Some (es, w1)" "set es \<subseteq> {None}"
    and fl: "Async_Flush D w1 = Some (None, w2)"
    and g: "good V I J r" and net: "unread (a_conn r) = sent (a_conn w2)"
  shows "(\<exists>r'. readLoop slack D id r = Some (Ended r') \<and> a_closed r' \<and> a_error r' = Some (read_end (a_conn r)) \<and>
      map (view (poly D)) (a_stale r') = map (view (poly D)) (items V (incoming r)) @ map (received (poly D)) ps) \<or>
    (\<exists>r' k. readLoop slack D id r = Some (Blocked r') \<and> k < length ps \<and> \<not> a_closed r' \<and> room V (incoming r') = 0 \<and>
      map (view (poly D)) (items V (incoming r')) =
        map (view (poly D)) (items V (incoming r)) @ map (received (poly D)) (take k ps))"
  by (rule writes_arrive [OF assms])

text \<open>Witness: the two example packets, delivered in two chunks that cut through a header.\<close>

theorem async_end_to_end_witness:
  "\<exists>r'. readLoop (\<lambda>_. 0) (list_deps 0) id (list_async [(take 14 example_bytes, None), (drop 14 example_bytes, None)] None)
      = Some (Ended r') \<and> map (view list_polyglot) (a_stale r') = map (received list_polyglot) example_packets \<or>
    readLoop (\<lambda>_. 0) (list_deps 0) id (list_async [(take 14 example_bytes, None), (drop 14 example_bytes, None)] None)
      = Some (Blocked r')"
proof -
  let ?r = "list_async [(take 14 example_bytes, None), (drop 14 example_bytes, None)] None"
  obtain b c where bc: "write_all (Async_WritePacket (list_deps 0) id) example_packets (list_async [] None)
      = Some ([None, None], b)" "Async_Flush (list_deps 0) b = Some (None, c)" "sent (a_conn c) = example_bytes"
    using example_written by blast
  have g: "good list_view good_packets good_buffers ?r"
    by (rule list_async_good) simp
  have "unread (a_conn ?r) = sent (a_conn c)" "items list_view (incoming ?r) = []" "poly (list_deps 0) = list_polyglot"
    using bc(3) by (simp_all add: unread_def quiet_conn_def list_view_def list_circular_def list_deps_def)
  then show ?thesis
    using async_end_to_end [OF list_deps_ok list_async_inv _ bc(1) _ bc(2) g, of "\<lambda>_. 0"] by auto
qed

text \<open>
  C26: a refused header closes the connection after everything before it was delivered. When
  frames of packets are followed by a header with a wrong magic number or with a content length
  above the limit, the read loop queues the packets and closes with \<open>InvalidMagicHeader\<close> or
  \<open>ContentLengthExceeded\<close>; no byte after that header is interpreted.
\<close>

theorem readLoop_refuses_header:
  assumes ok: "deps_ok D V I J" and g: "good V I J r"
    and net: "unread (a_conn r) = concat (map (frame (poly D)) ps) @ header_bytes m @ rest"
    and ps: "\<forall>p\<in>set ps. sendable (poly D) (maxLen D) p \<and> RESERVED9 < Operation (Metadata p)"
    and m: "Magic m \<noteq> PacketMagicHeader \<or> exceeds_max (maxLen D) (ContentLength m)"
  shows "(\<exists>r'. readLoop slack D id r = Some (Ended r') \<and> a_closed r' \<and>
      a_error r' = Some (if Magic m \<noteq> PacketMagicHeader then InvalidMagicHeader else ContentLengthExceeded) \<and>
      map (view (poly D)) (a_stale r') = map (view (poly D)) (items V (incoming r)) @ map (received (poly D)) ps) \<or>
    (\<exists>r' k. readLoop slack D id r = Some (Blocked r') \<and> k < length ps \<and> room V (incoming r') = 0)"
proof -
  let ?e = "if Magic m \<noteq> PacketMagicHeader then InvalidMagicHeader else ContentLengthExceeded"
  have ops: "\<forall>p\<in>set ps. Operation (Metadata p) \<notin> {PING, PONG, STREAM}"
    using ps by (auto simp: guard_simps)
  have "parse (maxLen D) (header_bytes m @ rest) = ([], Some ?e)"
    using m by (subst parse_unit [of _ m]) auto
  then have "parse (maxLen D) (unread (a_conn r)) = (map (received (poly D)) ps, Some ?e)"
    unfolding net using parse_frames [OF deps_okD(1) [OF ok], of _ _ "[]"] ps ops by fastforce
  then show ?thesis
    using reads_app [OF ok g _ ops, of "Some ?e" slack] by (auto simp: stop_reason_def)
qed

text \<open>Witness: a header with the wrong magic number right at the start.\<close>

theorem readLoop_refuses_header_witness:
  "\<exists>r'. readLoop (\<lambda>_. 0) (list_deps 0) id (list_async [([1, 1, 1, 1, 1, 1, 1, 1, 1, 1, 1, 1], None)] None) = Some (Ended r') \<and>
    a_error r' = Some InvalidMagicHeader"
proof -
  let ?m = "\<lparr>Magic = 257, PacketId = 257, Operation = 257, ContentLength = 16843009\<rparr>"
  have "unread (a_conn (list_async [([1, 1, 1, 1, 1, 1, 1, 1, 1, 1, 1, 1], None)] None)) =
      concat (map (frame (poly (list_deps 0))) []) @ header_bytes ?m @ [1, 1]"
    by (simp add: unread_def quiet_conn_def header_bytes_def)
  then show ?thesis
    using readLoop_refuses_header [of "list_deps 0" list_view good_packets good_buffers
        "list_async [([1, 1, 1, 1, 1, 1, 1, 1, 1, 1, 1, 1], None)] None" "[]" ?m "[1, 1]" "\<lambda>_. 0",
        OF list_deps_ok list_async_good]
    by (auto simp: PacketMagicHeader_def)
qed

text \<open>
  C39: the content of a ping is not skipped. A ping header that announces content is answered,
  and the bytes after the header are then taken for the next header: when they do not start with
  the magic number, the connection is closed with \<open>InvalidMagicHeader\<close>.
\<close>

theorem ping_content_not_skipped:
  assumes ok: "deps_ok D V I J" and g: "good V I J r"
    and net: "unread (a_conn r) = header_bytes m @ header_bytes content @ rest"
    and m: "Magic m = PacketMagicHeader" "Operation m = PING" "\<not> exceeds_max (maxLen D) (ContentLength m)"
    and content: "Magic content \<noteq> PacketMagicHeader"
  shows "\<exists>r'. readLoop slack D id r = Some (Ended r') \<and> a_error r' = Some InvalidMagicHeader \<and>
    a_out r' = a_out r @ frame (poly D) (PONGPacket (poly D))"
proof -
  have "parse (maxLen D) (header_bytes content @ rest) = ([], Some InvalidMagicHeader)"
    using content by (subst parse_unit [of _ content]) auto
  then have parse: "parse (maxLen D) (unread (a_conn r)) = ([(m, [])], Some InvalidMagicHeader)"
    unfolding net using m by (subst parse_unit [of _ m]) (auto simp: unit_len_def)
  show ?thesis
    by (cases rule: run_cases [OF ok race_closes_id g parse, of slack, case_names ended blocked])
      (use m(2) in \<open>auto simp: stop_reason_def rx_step_def rx_of_def blocked_on_def\<close>)
qed

text \<open>Witness: a ping with a content of four bytes.\<close>

theorem ping_content_not_skipped_witness:
  "\<exists>r'. readLoop (\<lambda>_. 0) (list_deps 0) id
      (list_async [([0, 15, 0, 0, 0, 0, 0, 0, 0, 4, 1, 1, 1, 1, 0, 15, 0, 1, 0, 12, 0, 0, 0, 0], None)] None)
      = Some (Ended r') \<and> a_error r' = Some InvalidMagicHeader"
proof -
  let ?bs = "[0, 15, 0, 0, 0, 0, 0, 0, 0, 4, 1, 1, 1, 1, 0, 15, 0, 1, 0, 12, 0, 0, 0, 0] :: byte list"
  let ?m = "\<lparr>Magic = 15, PacketId = 0, Operation = 0, ContentLength = 4\<rparr>"
  let ?c = "\<lparr>Magic = 257, PacketId = 257, Operation = 15, ContentLength = 65548\<rparr>"
  have "unread (a_conn (list_async [(?bs, None)] None)) = header_bytes ?m @ header_bytes ?c @ [0, 0, 0, 0]"
    by (simp add: unread_def quiet_conn_def header_bytes_def)
  then show ?thesis
    using ping_content_not_skipped [of "list_deps 0" list_view good_packets good_buffers
        "list_async [(?bs, None)] None" ?m ?c "[0, 0, 0, 0]" "\<lambda>_. 0", OF list_deps_ok list_async_good]
    by (auto simp: PacketMagicHeader_def guard_simps list_deps_def)
qed

end
