(* ===== verification/Transitions.thy ===== *)
theory Transitions
  imports Main
begin

text \<open>
  State machines for the goroutines of a component: reachable states, invariants, and states that
  a system cannot leave. The two locales are the proof interface of every step relation of the
  development.
\<close>

inductive reachable :: "('s \<Rightarrow> bool) \<Rightarrow> ('s \<Rightarrow> 's \<Rightarrow> bool) \<Rightarrow> 's \<Rightarrow> bool" for init step where
  start: "init s \<Longrightarrow> reachable init step s"
| more: "reachable init step s \<Longrightarrow> step s t \<Longrightarrow> reachable init step t"

locale invariant_system =
  fixes init :: "'s \<Rightarrow> bool" and step :: "'s \<Rightarrow> 's \<Rightarrow> bool" and inv :: "'s \<Rightarrow> bool"
  assumes inv_init: "init s \<Longrightarrow> inv s"
    and inv_step: "inv s \<Longrightarrow> step s t \<Longrightarrow> inv t"
begin

lemma always: "reachable init step s \<Longrightarrow> inv s"
  by (induction rule: reachable.induct) (auto intro: inv_init inv_step)

end

text \<open>A trap: once inside, no sequence of steps leads out.\<close>

locale trap =
  fixes step :: "'s \<Rightarrow> 's \<Rightarrow> bool" and stuck :: "'s \<Rightarrow> bool"
  assumes stuck_step: "stuck s \<Longrightarrow> step s t \<Longrightarrow> stuck t"
begin

lemma forever: "stuck s \<Longrightarrow> step\<^sup>*\<^sup>* s t \<Longrightarrow> stuck t"
  by (rotate_tac, induction rule: rtranclp_induct) (auto intro: stuck_step)

end

text \<open>Progress towards a goal: in every good state outside the goal some step lowers the rank.\<close>

locale ranked_progress =
  fixes step :: "'s \<Rightarrow> 's \<Rightarrow> bool" and good :: "'s \<Rightarrow> bool" and goal :: "'s \<Rightarrow> bool" and rank :: "'s \<Rightarrow> nat"
  assumes progress: "good s \<Longrightarrow> \<not> goal s \<Longrightarrow> \<exists>t. step s t \<and> good t \<and> rank t < rank s"
begin

lemma reaches: "good s \<Longrightarrow> \<exists>t. step\<^sup>*\<^sup>* s t \<and> good t \<and> goal t"
proof (induction "rank s" arbitrary: s rule: less_induct)
  case less
  show ?case
  proof (cases "goal s")
    case False
    then obtain t where t: "step s t" "good t" "rank t < rank s"
      using progress less.prems by blast
    then obtain u where "step\<^sup>*\<^sup>* t u" "good u" "goal u"
      using less.hyps by blast
    then show ?thesis
      using converse_rtranclp_into_rtranclp [of step s t] t(1) by blast
  qed (use less.prems in blast)
qed

end

lemma reachable_steps: "reachable init step s \<Longrightarrow> step\<^sup>*\<^sup>* s t \<Longrightarrow> reachable init step t"
  by (rotate_tac, induction rule: rtranclp_induct) (auto intro: reachable.more)

section \<open>Counting goroutines by their program point\<close>

definition number :: "('w \<Rightarrow> bool) \<Rightarrow> 'w list \<Rightarrow> nat" where
  "number P ws = length (filter P ws)"

lemma number_Nil [simp]: "number P [] = 0"
  by (simp add: number_def)

lemma number_snoc [simp]: "number P (ws @ [w]) = number P ws + (if P w then 1 else 0)"
  by (simp add: number_def)

lemma number_update:
  "i < length ws \<Longrightarrow>
     number P (ws[i := w]) + (if P (ws ! i) then 1 else 0) = number P ws + (if P w then 1 else 0)"
proof (induction ws arbitrary: i)
  case (Cons v ws)
  then show ?case
    by (cases i) (auto simp: number_def)
qed simp

lemma number_pos: "i < length ws \<Longrightarrow> P (ws ! i) \<Longrightarrow> 0 < number P ws"
  by (simp add: number_def filter_empty_conv) (metis nth_mem)

lemma number_0: "number P ws = 0 \<longleftrightarrow> (\<forall>w\<in>set ws. \<not> P w)"
  by (simp add: number_def filter_empty_conv)

lemma number_mono: "(\<And>w. P w \<Longrightarrow> Q w) \<Longrightarrow> number P ws \<le> number Q ws"
  by (induction ws) (auto simp: number_def)

lemma in_set_update: "w \<in> set ws \<Longrightarrow> ws ! i \<noteq> w \<Longrightarrow> w \<in> set (ws[i := v])"
  by (metis in_set_conv_nth length_list_update nth_list_update_neq)

text \<open>A goroutine's move changes the sum of the ranks by the difference of its ranks.\<close>

lemma rank_update:
  fixes f :: "'w \<Rightarrow> nat"
  assumes "i < length ws"
  shows "sum_list (map f (ws[i := w])) + f (ws ! i) = sum_list (map f ws) + f w"
  using assms
proof (induction ws arbitrary: i)
  case (Cons v ws)
  then show ?case by (cases i) (simp, force)
qed simp

end
