(* ===== verification/Async_Locks.thy ===== *)
theory Async_Locks
  imports Async_Conn Transitions
begin

text \<open>
  The synchronisation of an asynchronous connection: its read, flush and ping goroutines, the writers,
  the users of the stream table and the callers of \<open>close\<close>, with the mutexes \<open>c.Mutex\<close>, \<open>staleMu\<close> and
  \<open>streamsMu\<close>, the channels \<open>flushCh\<close> and \<open>closeCh\<close>, the \<open>closed\<close> flag and the wait group. All goroutines
  are in one list, each at its program point. What they read from the network and whether a
  network call fails is left open: such a point has a step for each outcome. The mutexes of the
  error value and of the handler for new streams are left out; the code holds them only around
  calls that are modelled here, so the model has every interleaving the code has.
\<close>

section \<open>Program points and state\<close>

text \<open>Who is writing a packet: a user, the read loop answering a ping, or the ping loop.\<close>

datatype writer = User | Reader | Pinger

datatype point =
    \<comment> \<open>\<open>readLoop\<close>: reading, looking a stream up, delivering, registering a new stream\<close>
    Reading_net
  | Look_lock
  | Look_held
  | Delivering
  | Reg_lock
  | Reg_held
  | Drop_lock
  | Drop_held
    \<comment> \<open>\<open>flushLoop\<close>\<close>
  | Flush_recv
  | Flush_lock
  | Flush_held
    \<comment> \<open>\<open>pingLoop\<close>\<close>
  | Ping_select
    \<comment> \<open>\<open>writePacket\<close>\<close>
  | Write_lock writer
  | Write_check writer
  | Write_send writer
  | Write_unlock writer
  | Write_error writer
    \<comment> \<open>the end of a goroutine: \<open>wg.Done\<close>, with \<open>closeWithError\<close> or without\<close>
  | Leaving_close
  | Leaving
    \<comment> \<open>\<open>close\<close>\<close>
  | Close_stale
  | Close_streams
  | Close_swap
  | Close_lock
  | Close_closeCh
  | Close_flushCh
  | Close_unlock
  | Close_wait
  | Close_drain
  | Close_each
  | Close_relock
  | Close_flush
  | Close_done
  | Lost_stale
  | Lost_streams
    \<comment> \<open>\<open>NewStream\<close> and the end of \<open>closeSend\<close>\<close>
  | Stream_lock
  | Stream_held
    \<comment> \<open>\<open>ReadPacket\<close> on a closed connection\<close>
  | Stale_lock
  | Stale_held
  | Gone

record sync =
  k_closed :: bool
  k_mu :: bool
  k_stale :: bool
  k_streams :: bool
  k_flush :: nat
  k_flush_closed :: bool
  k_close_closed :: bool
  k_wg :: nat
  k_threads :: "point list"

section \<open>Steps\<close>

definition at_point :: "sync \<Rightarrow> nat \<Rightarrow> point \<Rightarrow> bool" where
  "at_point x i p \<longleftrightarrow> i < length (k_threads x) \<and> k_threads x ! i = p"

definition go :: "nat \<Rightarrow> point \<Rightarrow> sync \<Rightarrow> sync" where
  "go i p x = x\<lparr>k_threads := (k_threads x)[i := p]\<rparr>"

text \<open>Where the writer goes on after a packet was written, and after it was refused or failed.\<close>

definition resume :: "writer \<Rightarrow> point" where
  "resume w = (case w of User \<Rightarrow> Gone | Reader \<Rightarrow> Reading_net | Pinger \<Rightarrow> Ping_select)"

definition give_up :: "writer \<Rightarrow> point" where
  "give_up w = (case w of User \<Rightarrow> Gone | _ \<Rightarrow> Leaving_close)"

inductive sync_step :: "sync \<Rightarrow> sync \<Rightarrow> bool" where
  read_data: "at_point x i Reading_net \<Longrightarrow>
    p \<in> {Reading_net, Delivering, Look_lock, Write_lock Reader, Leaving_close} \<Longrightarrow> sync_step x (go i p x)"
| look_lock: "at_point x i Look_lock \<Longrightarrow> \<not> k_streams x \<Longrightarrow> sync_step x ((go i Look_held x)\<lparr>k_streams := True\<rparr>)"
| look_unlock: "at_point x i Look_held \<Longrightarrow> sync_step x ((go i Delivering x)\<lparr>k_streams := False\<rparr>)"
| deliver: "at_point x i Delivering \<Longrightarrow> p \<in> {Reading_net, Reg_lock, Drop_lock, Leaving_close} \<Longrightarrow> sync_step x (go i p x)"
| reg_lock: "at_point x i Reg_lock \<Longrightarrow> \<not> k_streams x \<Longrightarrow> sync_step x ((go i Reg_held x)\<lparr>k_streams := True\<rparr>)"
| reg_unlock: "at_point x i Reg_held \<Longrightarrow> sync_step x ((go i Delivering x)\<lparr>k_streams := False\<rparr>)"
| drop_lock: "at_point x i Drop_lock \<Longrightarrow> \<not> k_streams x \<Longrightarrow> sync_step x ((go i Drop_held x)\<lparr>k_streams := True\<rparr>)"
| drop_unlock: "at_point x i Drop_held \<Longrightarrow> sync_step x ((go i Reading_net x)\<lparr>k_streams := False\<rparr>)"
| flush_recv: "at_point x i Flush_recv \<Longrightarrow> 0 < k_flush x \<Longrightarrow>
    sync_step x ((go i Flush_lock x)\<lparr>k_flush := k_flush x - 1\<rparr>)"
| flush_closed: "at_point x i Flush_recv \<Longrightarrow> k_flush x = 0 \<Longrightarrow> k_flush_closed x \<Longrightarrow> sync_step x (go i Leaving x)"
| flush_lock: "at_point x i Flush_lock \<Longrightarrow> \<not> k_mu x \<Longrightarrow> sync_step x ((go i Flush_held x)\<lparr>k_mu := True\<rparr>)"
| flush_unlock: "at_point x i Flush_held \<Longrightarrow> p = (if k_closed x then Leaving_close else p') \<Longrightarrow>
    p' \<in> {Flush_recv, Leaving_close} \<Longrightarrow> sync_step x ((go i p x)\<lparr>k_mu := False\<rparr>)"
| ping_tick: "at_point x i Ping_select \<Longrightarrow> sync_step x (go i (Write_lock Pinger) x)"
| ping_closed: "at_point x i Ping_select \<Longrightarrow> k_close_closed x \<Longrightarrow> sync_step x (go i Leaving x)"
| write_lock: "at_point x i (Write_lock w) \<Longrightarrow> \<not> k_mu x \<Longrightarrow> sync_step x ((go i (Write_check w) x)\<lparr>k_mu := True\<rparr>)"
| write_refused: "at_point x i (Write_check w) \<Longrightarrow> k_closed x \<Longrightarrow> sync_step x ((go i (give_up w) x)\<lparr>k_mu := False\<rparr>)"
| write_ok: "at_point x i (Write_check w) \<Longrightarrow> \<not> k_closed x \<Longrightarrow> sync_step x (go i (Write_send w) x)"
| write_fails: "at_point x i (Write_check w) \<Longrightarrow> \<not> k_closed x \<Longrightarrow>
    sync_step x ((go i (Write_error w) x)\<lparr>k_mu := False\<rparr>)"
| write_send: "at_point x i (Write_send w) \<Longrightarrow>
    sync_step x ((go i (Write_unlock w) x)\<lparr>k_flush := if k_flush x = 0 then 1 else k_flush x\<rparr>)"
| write_unlock: "at_point x i (Write_unlock w) \<Longrightarrow> sync_step x ((go i (resume w) x)\<lparr>k_mu := False\<rparr>)"
| write_error: "at_point x i (Write_error w) \<Longrightarrow>
    sync_step x (go i (if k_closed x \<or> w \<noteq> User then give_up w else Close_stale) x)"
| leave_close: "at_point x i Leaving_close \<Longrightarrow> 0 < k_wg x \<Longrightarrow> sync_step x ((go i Close_stale x)\<lparr>k_wg := k_wg x - 1\<rparr>)"
| leave: "at_point x i Leaving \<Longrightarrow> 0 < k_wg x \<Longrightarrow> sync_step x ((go i Gone x)\<lparr>k_wg := k_wg x - 1\<rparr>)"
| close_stale: "at_point x i Close_stale \<Longrightarrow> \<not> k_stale x \<Longrightarrow> sync_step x ((go i Close_streams x)\<lparr>k_stale := True\<rparr>)"
| close_streams: "at_point x i Close_streams \<Longrightarrow> \<not> k_streams x \<Longrightarrow>
    sync_step x ((go i Close_swap x)\<lparr>k_streams := True\<rparr>)"
| close_swap: "at_point x i Close_swap \<Longrightarrow>
    sync_step x (if k_closed x then go i Lost_stale x else (go i Close_lock x)\<lparr>k_closed := True\<rparr>)"
| close_lock: "at_point x i Close_lock \<Longrightarrow> \<not> k_mu x \<Longrightarrow> sync_step x ((go i Close_closeCh x)\<lparr>k_mu := True\<rparr>)"
| close_closeCh: "at_point x i Close_closeCh \<Longrightarrow> sync_step x ((go i Close_flushCh x)\<lparr>k_close_closed := True\<rparr>)"
| close_flushCh: "at_point x i Close_flushCh \<Longrightarrow> sync_step x ((go i Close_unlock x)\<lparr>k_flush_closed := True\<rparr>)"
| close_unlock: "at_point x i Close_unlock \<Longrightarrow> sync_step x ((go i Close_wait x)\<lparr>k_mu := False\<rparr>)"
| close_wait: "at_point x i Close_wait \<Longrightarrow> k_wg x = 0 \<Longrightarrow> sync_step x (go i Close_drain x)"
| close_drain: "at_point x i Close_drain \<Longrightarrow> sync_step x ((go i Close_each x)\<lparr>k_stale := False\<rparr>)"
| close_each: "at_point x i Close_each \<Longrightarrow> \<not> k_mu x \<Longrightarrow> sync_step x x"
| close_all: "at_point x i Close_each \<Longrightarrow> sync_step x ((go i Close_relock x)\<lparr>k_streams := False\<rparr>)"
| close_relock: "at_point x i Close_relock \<Longrightarrow> \<not> k_mu x \<Longrightarrow> sync_step x ((go i Close_flush x)\<lparr>k_mu := True\<rparr>)"
| close_flush: "at_point x i Close_flush \<Longrightarrow> sync_step x ((go i Close_done x)\<lparr>k_mu := False\<rparr>)"
| lost_stale: "at_point x i Lost_stale \<Longrightarrow> sync_step x ((go i Lost_streams x)\<lparr>k_stale := False\<rparr>)"
| lost_streams: "at_point x i Lost_streams \<Longrightarrow> sync_step x ((go i Gone x)\<lparr>k_streams := False\<rparr>)"
| stream_lock: "at_point x i Stream_lock \<Longrightarrow> \<not> k_streams x \<Longrightarrow> sync_step x ((go i Stream_held x)\<lparr>k_streams := True\<rparr>)"
| stream_unlock: "at_point x i Stream_held \<Longrightarrow> sync_step x ((go i Gone x)\<lparr>k_streams := False\<rparr>)"
| stale_lock: "at_point x i Stale_lock \<Longrightarrow> \<not> k_stale x \<Longrightarrow> sync_step x ((go i Stale_held x)\<lparr>k_stale := True\<rparr>)"
| stale_unlock: "at_point x i Stale_held \<Longrightarrow> sync_step x ((go i Gone x)\<lparr>k_stale := False\<rparr>)"
| user_call: "p \<in> {Write_lock User, Close_stale, Stream_lock, Stale_lock} \<Longrightarrow> sync_step x (x\<lparr>k_threads := k_threads x @ [p]\<rparr>)"

text \<open>The connection as \<open>NewAsync\<close> leaves it, with its three goroutines.\<close>

definition sync_start :: sync where
  "sync_start = \<lparr>k_closed = False, k_mu = False, k_stale = False, k_streams = False, k_flush = 0, k_flush_closed = False,
     k_close_closed = False, k_wg = 3, k_threads = [Flush_recv, Reading_net, Ping_select]\<rparr>"

section \<open>Invariant\<close>

fun goroutine :: "point \<Rightarrow> bool" where
  "goroutine (Write_lock w) = (w \<noteq> User)"
| "goroutine (Write_check w) = (w \<noteq> User)"
| "goroutine (Write_send w) = (w \<noteq> User)"
| "goroutine (Write_unlock w) = (w \<noteq> User)"
| "goroutine (Write_error w) = (w \<noteq> User)"
| "goroutine p = (p \<in> {Reading_net, Look_lock, Look_held, Delivering, Reg_lock, Reg_held, Drop_lock, Drop_held,
     Flush_recv, Flush_lock, Flush_held, Ping_select, Leaving_close, Leaving})"

fun has_mu :: "point \<Rightarrow> bool" where
  "has_mu (Write_check w) = True"
| "has_mu (Write_send w) = True"
| "has_mu (Write_unlock w) = True"
| "has_mu p = (p \<in> {Flush_held, Close_closeCh, Close_flushCh, Close_unlock, Close_flush})"

definition has_stale :: "point \<Rightarrow> bool" where
  "has_stale p \<longleftrightarrow> p \<in> {Close_streams, Close_swap, Close_lock, Close_closeCh, Close_flushCh, Close_unlock, Close_wait,
     Close_drain, Lost_stale, Stale_held}"

definition has_streams :: "point \<Rightarrow> bool" where
  "has_streams p \<longleftrightarrow> p \<in> {Look_held, Reg_held, Drop_held, Stream_held, Close_swap, Close_lock, Close_closeCh, Close_flushCh,
     Close_unlock, Close_wait, Close_drain, Close_each, Lost_stale, Lost_streams}"

definition closer :: "point \<Rightarrow> bool" where
  "closer p \<longleftrightarrow> p \<in> {Close_lock, Close_closeCh, Close_flushCh, Close_unlock, Close_wait, Close_drain, Close_each,
     Close_relock, Close_flush, Close_done}"

definition past_flushCh :: "point \<Rightarrow> bool" where
  "past_flushCh p \<longleftrightarrow> p \<in> {Close_unlock, Close_wait, Close_drain, Close_each, Close_relock, Close_flush, Close_done}"

definition past_closeCh :: "point \<Rightarrow> bool" where
  "past_closeCh p \<longleftrightarrow> p = Close_flushCh \<or> past_flushCh p"

fun sending :: "point \<Rightarrow> bool" where
  "sending (Write_send w) = True"
| "sending _ = False"

lemmas point_defs = has_stale_def has_streams_def closer_def past_flushCh_def past_closeCh_def

text \<open>The flag \<open>b\<close> is up exactly when one goroutine is at a point of \<open>P\<close>, and never two are.\<close>

definition counts :: "(point \<Rightarrow> bool) \<Rightarrow> bool \<Rightarrow> sync \<Rightarrow> bool" where
  "counts P b x \<longleftrightarrow> number P (k_threads x) = (if b then 1 else 0)"

definition sync_inv :: "sync \<Rightarrow> bool" where
  "sync_inv x \<longleftrightarrow> k_wg x = number goroutine (k_threads x) \<and>
     counts has_mu (k_mu x) x \<and> counts has_stale (k_stale x) x \<and> counts has_streams (k_streams x) x \<and>
     counts closer (k_closed x) x \<and> counts past_closeCh (k_close_closed x) x \<and> counts past_flushCh (k_flush_closed x) x \<and>
     (0 < number sending (k_threads x) \<longrightarrow> \<not> k_flush_closed x)"

lemma move_point:
  assumes "at_point x i p"
  shows "number P ((k_threads x)[i := q]) + (if P p then 1 else 0) = number P (k_threads x) + (if P q then 1 else 0)"
  using number_update [of i "k_threads x" P q] assms by (simp add: at_point_def)

lemma counts_other [simp]:
  "counts P b (x\<lparr>k_mu := v\<rparr>) = counts P b x" "counts P b (x\<lparr>k_stale := v\<rparr>) = counts P b x"
  "counts P b (x\<lparr>k_streams := v\<rparr>) = counts P b x" "counts P b (x\<lparr>k_closed := v\<rparr>) = counts P b x"
  "counts P b (x\<lparr>k_close_closed := v\<rparr>) = counts P b x" "counts P b (x\<lparr>k_flush_closed := v\<rparr>) = counts P b x"
  "counts P b (x\<lparr>k_wg := n\<rparr>) = counts P b x" "counts P b (x\<lparr>k_flush := n\<rparr>) = counts P b x"
  by (simp_all add: counts_def)

lemma go_fields [simp]:
  "k_mu (go i q x) = k_mu x" "k_stale (go i q x) = k_stale x" "k_streams (go i q x) = k_streams x"
  "k_closed (go i q x) = k_closed x" "k_close_closed (go i q x) = k_close_closed x"
  "k_flush_closed (go i q x) = k_flush_closed x" "k_wg (go i q x) = k_wg x" "k_flush (go i q x) = k_flush x"
  "k_threads (go i q x) = (k_threads x)[i := q]"
  by (simp_all add: go_def)

lemma counts_same: "at_point x i p \<Longrightarrow> P p = P q \<Longrightarrow> counts P b (go i q x) = counts P b x"
  and counts_up: "at_point x i p \<Longrightarrow> \<not> P p \<Longrightarrow> P q \<Longrightarrow> counts P True (go i q x) = counts P False x"
  and counts_down: "at_point x i p \<Longrightarrow> P p \<Longrightarrow> \<not> P q \<Longrightarrow> counts P b x \<Longrightarrow> counts P False (go i q x)"
  using move_point [of x i p P q] by (auto simp: counts_def split: if_splits)

lemma counts_at: "at_point x i p \<Longrightarrow> P p \<Longrightarrow> counts P b x \<Longrightarrow> b"
  using number_pos [of i "k_threads x" P] by (auto simp: counts_def at_point_def split: if_splits)

lemma counts_snoc [simp]: "\<not> P p \<Longrightarrow> counts P b (x\<lparr>k_threads := k_threads x @ [p]\<rparr>) = counts P b x"
  by (simp add: counts_def)

lemma wg_same: "at_point x i p \<Longrightarrow> P p = P q \<Longrightarrow> number P ((k_threads x)[i := q]) = number P (k_threads x)"
  and wg_more: "at_point x i p \<Longrightarrow> \<not> P p \<Longrightarrow> P q \<Longrightarrow> number P ((k_threads x)[i := q]) = Suc (number P (k_threads x))"
  and wg_less: "at_point x i p \<Longrightarrow> P p \<Longrightarrow> \<not> P q \<Longrightarrow> number P ((k_threads x)[i := q]) = number P (k_threads x) - 1"
  using move_point [of x i p P q] by auto

lemmas point_moves = counts_same counts_up counts_down wg_same wg_more wg_less

text \<open>Two points of \<open>Q\<close> are never taken at once, so a goroutine at one of them keeps the others out.\<close>

lemma counts_alone:
  assumes at: "at_point x i p" "Q p" "\<not> P p" and PQ: "\<And>q. P q \<Longrightarrow> Q q" "\<not> Q Gone" and c: "counts Q b x"
  shows "number P (k_threads x) = 0"
proof -
  have "number Q ((k_threads x)[i := Gone]) = 0"
    using move_point [OF at(1), of Q Gone] at(2) PQ(2) c by (auto simp: counts_def split: if_splits)
  then have "number P ((k_threads x)[i := Gone]) = 0"
    using number_mono [of P Q "(k_threads x)[i := Gone]"] PQ(1) by simp
  then show ?thesis
    using wg_same [OF at(1), of P Gone] at(3) PQ by metis
qed

lemmas step_simps = point_moves point_defs resume_def give_up_def

lemma mu_step: "sync_step x y \<Longrightarrow> counts has_mu (k_mu x) x \<Longrightarrow> counts has_mu (k_mu y) y"
  by (induction rule: sync_step.induct) (auto simp: step_simps split: writer.splits)

lemma stale_step: "sync_step x y \<Longrightarrow> counts has_stale (k_stale x) x \<Longrightarrow> counts has_stale (k_stale y) y"
  by (induction rule: sync_step.induct) (auto simp: step_simps split: writer.splits)

lemma streams_step: "sync_step x y \<Longrightarrow> counts has_streams (k_streams x) x \<Longrightarrow> counts has_streams (k_streams y) y"
  by (induction rule: sync_step.induct) (auto simp: step_simps split: writer.splits)

lemma closed_step: "sync_step x y \<Longrightarrow> counts closer (k_closed x) x \<Longrightarrow> counts closer (k_closed y) y"
  by (induction rule: sync_step.induct) (auto simp: step_simps split: writer.splits)

lemma wg_step: "sync_step x y \<Longrightarrow> k_wg x = number goroutine (k_threads x) \<Longrightarrow> k_wg y = number goroutine (k_threads y)"
  by (induction rule: sync_step.induct) (auto simp: step_simps split: writer.splits)

lemma closeCh_step:
  "sync_step x y \<Longrightarrow> counts closer (k_closed x) x \<Longrightarrow> counts past_closeCh (k_close_closed x) x \<Longrightarrow>
     counts past_closeCh (k_close_closed y) y"
proof (induction rule: sync_step.induct)
  case (close_closeCh x i)
  have "number past_closeCh (k_threads x) = 0"
    by (rule counts_alone [OF close_closeCh(1) _ _ _ _ close_closeCh(2)]) (auto simp: point_defs)
  moreover have "\<not> past_closeCh Close_closeCh" "past_closeCh Close_flushCh"
    by (simp_all add: point_defs)
  ultimately show ?case
    using wg_more [OF close_closeCh(1), of past_closeCh Close_flushCh] by (simp add: counts_def)
qed (auto simp: step_simps split: writer.splits)

lemma flushCh_step:
  "sync_step x y \<Longrightarrow> counts closer (k_closed x) x \<Longrightarrow> counts past_flushCh (k_flush_closed x) x \<Longrightarrow>
     counts past_flushCh (k_flush_closed y) y"
proof (induction rule: sync_step.induct)
  case (close_flushCh x i)
  have "number past_flushCh (k_threads x) = 0"
    by (rule counts_alone [OF close_flushCh(1) _ _ _ _ close_flushCh(2)]) (auto simp: point_defs)
  moreover have "\<not> past_flushCh Close_flushCh" "past_flushCh Close_unlock"
    by (simp_all add: point_defs)
  ultimately show ?case
    using wg_more [OF close_flushCh(1), of past_flushCh Close_unlock] by (simp add: counts_def)
qed (auto simp: step_simps split: writer.splits)

text \<open>A writer that is about to signal holds the mutex since before the channel could be closed.\<close>

lemma sending_step:
  "sync_step x y \<Longrightarrow> counts has_mu (k_mu x) x \<Longrightarrow> counts closer (k_closed x) x \<Longrightarrow> counts past_flushCh (k_flush_closed x) x \<Longrightarrow>
     (0 < number sending (k_threads x) \<longrightarrow> \<not> k_flush_closed x) \<Longrightarrow> (0 < number sending (k_threads y) \<longrightarrow> \<not> k_flush_closed y)"
proof (induction rule: sync_step.induct)
  case (write_ok x i w)
  have "number past_flushCh (k_threads x) \<le> number closer (k_threads x)"
    by (rule number_mono) (auto simp: point_defs)
  then show ?case
    using write_ok by (auto simp: counts_def split: if_splits)
next
  case (close_flushCh x i)
  have "number sending (k_threads x) = 0"
    by (rule counts_alone [OF close_flushCh(1) _ _ _ _ close_flushCh(2)]) (auto elim: sending.elims)
  then show ?case
    using close_flushCh(1) by (simp add: wg_same)
qed (auto simp: step_simps split: writer.splits)

interpretation sync: invariant_system "\<lambda>x. x = sync_start" sync_step sync_inv
proof
  show "x = sync_start \<Longrightarrow> sync_inv x" for x
    by (simp add: sync_inv_def sync_start_def counts_def number_def point_defs)
  show "sync_inv y" if i: "sync_inv x" and st: "sync_step x y" for x y
    using i mu_step [OF st] stale_step [OF st] streams_step [OF st] closed_step [OF st] wg_step [OF st]
      closeCh_step [OF st] flushCh_step [OF st] sending_step [OF st]
    by (simp add: sync_inv_def)
qed

section \<open>The cycle of \<open>close\<close> and \<open>readLoop\<close>\<close>

text \<open>The points at which the read loop is about to take \<open>streamsMu\<close>.\<close>

definition wants_streams :: "point \<Rightarrow> bool" where
  "wants_streams p \<longleftrightarrow> p = Look_lock \<or> p = Reg_lock \<or> p = Drop_lock"

definition waiting_cycle :: "nat \<Rightarrow> nat \<Rightarrow> sync \<Rightarrow> bool" where
  "waiting_cycle i j x \<longleftrightarrow> sync_inv x \<and> at_point x i Close_wait \<and> (\<exists>p. at_point x j p \<and> wants_streams p)"

lemma at_go: "at_point (go i q x) k p \<longleftrightarrow> (if k = i then i < length (k_threads x) \<and> p = q else at_point x k p)"
  by (auto simp: at_point_def)

lemma at_other [simp]:
  "at_point (x\<lparr>k_mu := v\<rparr>) k p = at_point x k p" "at_point (x\<lparr>k_stale := v\<rparr>) k p = at_point x k p"
  "at_point (x\<lparr>k_streams := v\<rparr>) k p = at_point x k p" "at_point (x\<lparr>k_closed := v\<rparr>) k p = at_point x k p"
  "at_point (x\<lparr>k_close_closed := v\<rparr>) k p = at_point x k p" "at_point (x\<lparr>k_flush_closed := v\<rparr>) k p = at_point x k p"
  "at_point (x\<lparr>k_wg := n\<rparr>) k p = at_point x k p" "at_point (x\<lparr>k_flush := n\<rparr>) k p = at_point x k p"
  by (simp_all add: at_point_def)

lemma at_unique: "at_point x i p \<Longrightarrow> at_point x i q \<Longrightarrow> p = q"
  by (simp add: at_point_def)

lemma stays:
  assumes "sync_step x y" and "at_point x k p" and "p = Close_wait \<and> 0 < k_wg x \<or> wants_streams p \<and> k_streams x"
  shows "at_point y k p"
  using assms
  by (induction rule: sync_step.induct)
    (auto simp: at_go wants_streams_def dest: at_unique, auto simp: at_point_def nth_append)

interpretation cycle: trap sync_step "waiting_cycle i j"
proof
  fix x y
  assume x: "waiting_cycle i j x" and st: "sync_step x y"
  obtain p where p: "at_point x j p" "wants_streams p"
    using x by (auto simp: waiting_cycle_def)
  have inv: "sync_inv x" and i: "at_point x i Close_wait"
    using x by (simp_all add: waiting_cycle_def)
  have "k_streams x"
    using counts_at [OF i, of has_streams "k_streams x"] inv by (simp add: sync_inv_def point_defs)
  moreover have "0 < k_wg x"
    using number_pos [of j "k_threads x" goroutine] p inv by (auto simp: sync_inv_def at_point_def wants_streams_def)
  ultimately have "at_point y i Close_wait" "at_point y j p"
    using stays [OF st i] stays [OF st p(1)] p(2) by auto
  then show "waiting_cycle i j y"
    using sync.inv_step [OF inv st] p(2) by (auto simp: waiting_cycle_def)
qed

section \<open>Closing without the cycle\<close>

fun point_rank :: "point \<Rightarrow> nat" where
  "point_rank (Write_lock w) = 6"
| "point_rank (Write_check w) = 5"
| "point_rank (Write_unlock w) = 4"
| "point_rank (Write_error w) = 3"
| "point_rank Reading_net = 2"
| "point_rank Delivering = 2"
| "point_rank Flush_recv = 5"
| "point_rank Flush_lock = 4"
| "point_rank Flush_held = 3"
| "point_rank Ping_select = 2"
| "point_rank Leaving_close = 1"
| "point_rank Leaving = 1"
| "point_rank Close_wait = 6"
| "point_rank Close_drain = 5"
| "point_rank Close_each = 4"
| "point_rank Close_relock = 3"
| "point_rank Close_flush = 2"
| "point_rank _ = 0"

definition sync_rank :: "sync \<Rightarrow> nat" where
  "sync_rank x = sum_list (map point_rank (k_threads x)) + k_flush x"

definition closing_tail :: "point \<Rightarrow> bool" where
  "closing_tail p \<longleftrightarrow> p \<in> {Close_wait, Close_drain, Close_each, Close_relock, Close_flush, Close_done}"

text \<open>Goroutine \<open>i\<close> is in \<open>close\<close> past the channels, and nobody in the read loop is about to take \<open>streamsMu\<close>.\<close>

definition unobstructed :: "nat \<Rightarrow> sync \<Rightarrow> bool" where
  "unobstructed i x \<longleftrightarrow> sync_inv x \<and> (\<exists>p. at_point x i p \<and> closing_tail p) \<and> (\<forall>q\<in>set (k_threads x). \<not> wants_streams q)"

lemma unobstructed_flags:
  assumes "unobstructed i x"
  shows "k_closed x" and "k_flush_closed x" and "k_close_closed x"
proof -
  obtain p where p: "at_point x i p" "closing_tail p"
    using assms by (auto simp: unobstructed_def)
  have inv: "sync_inv x"
    using assms by (simp add: unobstructed_def)
  show "k_closed x" "k_flush_closed x" "k_close_closed x"
    using inv counts_at [OF p(1), of closer "k_closed x"] counts_at [OF p(1), of past_flushCh "k_flush_closed x"]
      counts_at [OF p(1), of past_closeCh "k_close_closed x"] p(2)
    by (auto simp: sync_inv_def closing_tail_def point_defs)
qed

lemma rank_go:
  assumes "at_point x j p"
  shows "sync_rank (go j q x) + point_rank p = sync_rank x + point_rank q"
  using rank_update [of j "k_threads x" point_rank q] assms by (simp add: sync_rank_def at_point_def)

lemma sync_rank_other [simp]:
  "sync_rank (x\<lparr>k_mu := v\<rparr>) = sync_rank x" "sync_rank (x\<lparr>k_stale := v\<rparr>) = sync_rank x"
  "sync_rank (x\<lparr>k_streams := v\<rparr>) = sync_rank x" "sync_rank (x\<lparr>k_wg := n\<rparr>) = sync_rank x"
  by (simp_all add: sync_rank_def)

definition advances_close :: "nat \<Rightarrow> sync \<Rightarrow> bool" where
  "advances_close i x \<longleftrightarrow> (\<exists>y. sync_step x y \<and> unobstructed i y \<and> sync_rank y < sync_rank x)"

text \<open>A move of a goroutine to a point of lower rank keeps the way free.\<close>

lemma advancesI:
  assumes good: "unobstructed i x" and st: "sync_step x y" and thr: "k_threads y = (k_threads x)[j := q]"
    and at: "at_point x j p" and "closing_tail p \<longrightarrow> closing_tail q" and "\<not> wants_streams q" and "sync_rank y < sync_rank x"
  shows "advances_close i x"
proof -
  obtain t where t: "at_point x i t" "closing_tail t"
    using good by (auto simp: unobstructed_def)
  have "\<exists>t. at_point y i t \<and> closing_tail t"
  proof (cases "i = j")
    case True
    then have "p = t"
      using at_unique [OF at] t(1) by simp
    then show ?thesis
      using True t assms(5) at thr by (simp add: at_point_def)
  next
    case False
    then show ?thesis
      using t thr by (simp add: at_point_def)
  qed
  moreover have "\<forall>r\<in>set (k_threads y). \<not> wants_streams r"
    using good assms(6) set_update_subset_insert [of "k_threads x" j q] unfolding thr unobstructed_def by blast
  ultimately show ?thesis
    using good st assms(7) sync.inv_step [of x y] by (auto simp: advances_close_def unobstructed_def)
qed

lemma not_wants [simp]: "\<not> wants_streams (resume w)" "\<not> wants_streams (give_up w)"
  by (cases w; simp add: wants_streams_def resume_def give_up_def)+

lemma rank_resume: "point_rank (resume w) \<le> 2" "point_rank (give_up w) \<le> 1"
  by (cases w; simp add: resume_def give_up_def)+

text \<open>The holder of \<open>c.Mutex\<close> can go on.\<close>

lemma mu_holder_advances:
  assumes good: "unobstructed i x" and mu: "k_mu x"
  shows "advances_close i x"
proof -
  note flags = unobstructed_flags [OF good]
  have inv: "sync_inv x"
    using good by (simp add: unobstructed_def)
  have "0 < number has_mu (k_threads x)"
    using inv mu by (simp add: sync_inv_def counts_def)
  then obtain j p where p: "at_point x j p" "has_mu p"
    using number_0 [of has_mu "k_threads x"] by (auto simp: at_point_def in_set_conv_nth)
  obtain t where t: "at_point x i t" "closing_tail t"
    using good by (auto simp: unobstructed_def)
  have q: "past_flushCh t"
    using t(2) by (auto simp: closing_tail_def point_defs)
  show ?thesis
  proof (cases p)
    case (Write_check w)
    show ?thesis
      by (rule advancesI [OF good sync_step.write_refused [of x j w], of j "give_up w" p])
        (use Write_check p flags rank_go [OF p(1), of "give_up w"] rank_resume(2) [of w] in \<open>simp_all add: closing_tail_def\<close>)
  next
    case (Write_send w)
    then have "0 < number sending (k_threads x)"
      using p(1) by (auto simp: at_point_def intro: number_pos)
    then show ?thesis
      using inv flags(2) by (simp add: sync_inv_def)
  next
    case (Write_unlock w)
    show ?thesis
      by (rule advancesI [OF good sync_step.write_unlock [of x j w], of j "resume w" p])
        (use Write_unlock p flags rank_go [OF p(1), of "resume w"] rank_resume(1) [of w] in \<open>simp_all add: closing_tail_def\<close>)
  next
    case Flush_held
    show ?thesis
      by (rule advancesI [OF good sync_step.flush_unlock [of x j Leaving_close Leaving_close], of j Leaving_close p])
        (use Flush_held p flags rank_go [OF p(1), of Leaving_close] in \<open>simp_all add: closing_tail_def wants_streams_def\<close>)
  next
    case Close_flush
    show ?thesis
      by (rule advancesI [OF good sync_step.close_flush [of x j], of j Close_done p])
        (use Close_flush p flags rank_go [OF p(1), of Close_done] in \<open>simp_all add: closing_tail_def wants_streams_def\<close>)
  next
    case Close_closeCh
    have "number past_flushCh (k_threads x) = 0"
      by (rule counts_alone [OF p(1), of closer]) (use Close_closeCh inv in \<open>auto simp: sync_inv_def point_defs\<close>)
    then show ?thesis
      using q t(1) by (auto simp: number_0 at_point_def)
  next
    case Close_flushCh
    have "number past_flushCh (k_threads x) = 0"
      by (rule counts_alone [OF p(1), of closer]) (use Close_flushCh inv in \<open>auto simp: sync_inv_def point_defs\<close>)
    then show ?thesis
      using q t(1) by (auto simp: number_0 at_point_def)
  next
    case Close_unlock
    have "number closing_tail (k_threads x) = 0"
      by (rule counts_alone [OF p(1), of closer]) (use Close_unlock inv in \<open>auto simp: sync_inv_def point_defs closing_tail_def\<close>)
    then show ?thesis
      using t by (auto simp: number_0 at_point_def)
  qed (use p(2) in simp_all)
qed

text \<open>While \<open>close\<close> waits, every goroutine of the connection can go on towards its end.\<close>

lemma goroutine_advances:
  assumes good: "unobstructed i x" and i: "at_point x i Close_wait" and p: "at_point x j p" "goroutine p"
  shows "advances_close i x"
proof (cases "k_mu x")
  case True
  then show ?thesis
    by (rule mu_holder_advances [OF good])
next
  case False
  note flags = unobstructed_flags [OF good] False
  have inv: "sync_inv x"
    using good by (simp add: unobstructed_def)
  have wg: "0 < k_wg x"
    using number_pos [of j "k_threads x" goroutine] p inv by (simp add: sync_inv_def at_point_def)
  have held: "\<not> has_streams p"
  proof
    assume h: "has_streams p"
    have ne: "i \<noteq> j"
      using at_unique [OF i, of p] p by (cases "i = j") auto
    have "number has_streams ((k_threads x)[i := Gone]) = 0"
      using move_point [OF i, of has_streams Gone] inv by (auto simp: sync_inv_def counts_def point_defs split: if_splits)
    then show False
      using number_pos [of j "(k_threads x)[i := Gone]" has_streams] h p(1) ne by (auto simp: at_point_def)
  qed
  have mu: "\<not> has_mu p"
    using counts_at [OF p(1), of has_mu "k_mu x"] inv False by (auto simp: sync_inv_def)
  have wants: "\<not> wants_streams p"
    using good p(1) by (auto simp: unobstructed_def at_point_def)
  show ?thesis
  proof (cases p)
    case Reading_net
    show ?thesis
      by (rule advancesI [OF good sync_step.read_data [of x j Leaving_close], of j Leaving_close p])
        (use Reading_net p wg flags rank_go [OF p(1), of Leaving_close] in \<open>simp_all add: closing_tail_def wants_streams_def\<close>)
  next
    case Delivering
    show ?thesis
      by (rule advancesI [OF good sync_step.deliver [of x j Leaving_close], of j Leaving_close p])
        (use Delivering p wg flags rank_go [OF p(1), of Leaving_close] in \<open>simp_all add: closing_tail_def wants_streams_def\<close>)
  next
    case Ping_select
    show ?thesis
      by (rule advancesI [OF good sync_step.ping_closed [of x j], of j Leaving p])
        (use Ping_select p wg flags rank_go [OF p(1), of Leaving] in \<open>simp_all add: closing_tail_def wants_streams_def\<close>)
  next
    case Leaving_close
    show ?thesis
      by (rule advancesI [OF good sync_step.leave_close [of x j], of j Close_stale p])
        (use Leaving_close p wg flags rank_go [OF p(1), of Close_stale] in \<open>simp_all add: closing_tail_def wants_streams_def\<close>)
  next
    case Leaving
    show ?thesis
      by (rule advancesI [OF good sync_step.leave [of x j], of j Gone p])
        (use Leaving p wg flags rank_go [OF p(1), of Gone] in \<open>simp_all add: closing_tail_def wants_streams_def\<close>)
  next
    case Flush_recv
    show ?thesis
    proof (cases "k_flush x")
      case 0
      show ?thesis
        by (rule advancesI [OF good sync_step.flush_closed [of x j], of j Leaving p])
          (use 0 Flush_recv p flags rank_go [OF p(1), of Leaving] in \<open>simp_all add: closing_tail_def wants_streams_def\<close>)
    next
      case (Suc n)
      have "sync_rank ((go j Flush_lock x)\<lparr>k_flush := n\<rparr>) < sync_rank x"
        using rank_go [OF p(1), of Flush_lock] Flush_recv Suc by (simp add: sync_rank_def)
      then show ?thesis
        by (intro advancesI [OF good sync_step.flush_recv [of x j], of j Flush_lock p])
          (use Suc Flush_recv p flags in \<open>simp_all add: closing_tail_def wants_streams_def\<close>)
    qed
  next
    case Flush_lock
    show ?thesis
      by (rule advancesI [OF good sync_step.flush_lock [of x j], of j Flush_held p])
        (use Flush_lock p flags rank_go [OF p(1), of Flush_held] in \<open>simp_all add: closing_tail_def wants_streams_def\<close>)
  next
    case (Write_lock w)
    show ?thesis
      by (rule advancesI [OF good sync_step.write_lock [of x j w], of j "Write_check w" p])
        (use Write_lock p flags rank_go [OF p(1), of "Write_check w"] in \<open>simp_all add: closing_tail_def wants_streams_def\<close>)
  next
    case (Write_error w)
    then have "w \<noteq> User"
      using p(2) by simp
    then show ?thesis
      by (intro advancesI [OF good sync_step.write_error [of x j w], of j "give_up w" p])
        (use Write_error p flags rank_go [OF p(1), of "give_up w"] rank_resume(2) [of w] in \<open>simp_all add: closing_tail_def\<close>)
  qed (use p(2) held wants mu in \<open>simp_all add: point_defs wants_streams_def\<close>)
qed

lemma close_advances:
  assumes good: "unobstructed i x" and open_: "\<not> at_point x i Close_done"
  shows "advances_close i x"
proof -
  obtain p where p: "at_point x i p" "closing_tail p"
    using good by (auto simp: unobstructed_def)
  have inv: "sync_inv x"
    using good by (simp add: unobstructed_def)
  show ?thesis
  proof (cases "p = Close_wait \<and> 0 < k_wg x \<or> p = Close_relock \<and> k_mu x")
    case True
    then show ?thesis
    proof
      assume w: "p = Close_wait \<and> 0 < k_wg x"
      then obtain j q where "at_point x j q" "goroutine q"
        using inv number_0 [of goroutine "k_threads x"] by (auto simp: sync_inv_def at_point_def in_set_conv_nth)
      then show ?thesis
        using goroutine_advances [OF good] w p(1) by blast
    qed (use mu_holder_advances [OF good] in blast)
  next
    case False
    have adv: "sync_step x y \<Longrightarrow> k_threads y = (k_threads x)[i := q] \<Longrightarrow> closing_tail q \<Longrightarrow> sync_rank y < sync_rank x \<Longrightarrow>
        advances_close i x" for y q
      by (rule advancesI [OF good, of y i q p]) (use p in \<open>auto simp: closing_tail_def wants_streams_def\<close>)
    show ?thesis
    proof (cases p)
      case Close_wait
      then show ?thesis
        using False p adv [OF sync_step.close_wait [of x i], of Close_drain] rank_go [OF p(1), of Close_drain]
        by (simp add: closing_tail_def)
    next
      case Close_drain
      then show ?thesis
        using p adv [OF sync_step.close_drain [of x i], of Close_each] rank_go [OF p(1), of Close_each]
        by (simp add: closing_tail_def)
    next
      case Close_each
      then show ?thesis
        using p adv [OF sync_step.close_all [of x i], of Close_relock] rank_go [OF p(1), of Close_relock]
        by (simp add: closing_tail_def)
    next
      case Close_relock
      then show ?thesis
        using False p adv [OF sync_step.close_relock [of x i], of Close_flush] rank_go [OF p(1), of Close_flush]
        by (simp add: closing_tail_def)
    next
      case Close_flush
      then show ?thesis
        using p adv [OF sync_step.close_flush [of x i], of Close_done] rank_go [OF p(1), of Close_done]
        by (simp add: closing_tail_def)
    qed (use p open_ in \<open>simp_all add: closing_tail_def\<close>)
  qed
qed

interpretation close: ranked_progress sync_step "unobstructed i" "\<lambda>x. at_point x i Close_done" sync_rank
  by unfold_locales (use close_advances in \<open>auto simp: advances_close_def\<close>)

section \<open>A concrete run\<close>

text \<open>
  A user closes the connection; \<open>p\<close> is where the read loop is at that time. The flags are those of
  \<open>close\<close> as it proceeds.
\<close>

definition sync_of :: "bool \<Rightarrow> bool \<Rightarrow> bool \<Rightarrow> bool \<Rightarrow> bool \<Rightarrow> bool \<Rightarrow> point \<Rightarrow> point list \<Rightarrow> sync" where
  "sync_of cl mu st ss fc cc p cs = \<lparr>k_closed = cl, k_mu = mu, k_stale = st, k_streams = ss, k_flush = 0, k_flush_closed = fc,
     k_close_closed = cc, k_wg = 3, k_threads = [Flush_recv, p, Ping_select] @ cs\<rparr>"

abbreviation sync_reachable :: "sync \<Rightarrow> bool" where
  "sync_reachable \<equiv> reachable (\<lambda>x. x = sync_start) sync_step"

lemma run_to_wait:
  assumes "sync_reachable (sync_of False False False False False False p [])"
  shows "sync_reachable (sync_of True False True True True True p [Close_wait])"
proof -
  let ?s = "\<lambda>cl mu st ss fc cc q. sync_of cl mu st ss fc cc p [q]"
  note defs = sync_of_def go_def at_point_def
  have s0: "sync_step (sync_of False False False False False False p []) (?s False False False False False False Close_stale)"
    using sync_step.user_call [of Close_stale "sync_of False False False False False False p []"] by (simp add: defs)
  have s1: "sync_step (?s False False False False False False Close_stale) (?s False False True False False False Close_streams)"
    using sync_step.close_stale [of "?s False False False False False False Close_stale" 3] by (simp add: defs)
  have s2: "sync_step (?s False False True False False False Close_streams) (?s False False True True False False Close_swap)"
    using sync_step.close_streams [of "?s False False True False False False Close_streams" 3] by (simp add: defs)
  have s3: "sync_step (?s False False True True False False Close_swap) (?s True False True True False False Close_lock)"
    using sync_step.close_swap [of "?s False False True True False False Close_swap" 3] by (simp add: defs)
  have s4: "sync_step (?s True False True True False False Close_lock) (?s True True True True False False Close_closeCh)"
    using sync_step.close_lock [of "?s True False True True False False Close_lock" 3] by (simp add: defs)
  have s5: "sync_step (?s True True True True False False Close_closeCh) (?s True True True True False True Close_flushCh)"
    using sync_step.close_closeCh [of "?s True True True True False False Close_closeCh" 3] by (simp add: defs)
  have s6: "sync_step (?s True True True True False True Close_flushCh) (?s True True True True True True Close_unlock)"
    using sync_step.close_flushCh [of "?s True True True True False True Close_flushCh" 3] by (simp add: defs)
  have s7: "sync_step (?s True True True True True True Close_unlock) (?s True False True True True True Close_wait)"
    using sync_step.close_unlock [of "?s True True True True True True Close_unlock" 3] by (simp add: defs)
  note more = reachable.more [where init = "\<lambda>x. x = sync_start" and step = sync_step]
  show ?thesis
    by (rule more [OF more [OF more [OF more [OF more [OF more [OF more [OF more [OF assms s0] s1] s2] s3] s4] s5] s6] s7])
qed

lemma start_reachable: "sync_reachable (sync_of False False False False False False Reading_net [])"
  by (intro reachable.start) (simp add: sync_of_def sync_start_def)

lemma look_reachable: "sync_reachable (sync_of False False False False False False Look_lock [])"
  using reachable.more [OF start_reachable, of "sync_of False False False False False False Look_lock []"]
    sync_step.read_data [of "sync_of False False False False False False Reading_net []" 1 Look_lock]
  by (simp add: sync_of_def go_def at_point_def)

section \<open>Properties\<close>

text \<open>
  C11: the channels of a connection are used safely in every interleaving of its goroutines, its users
  and the callers of \<open>close\<close>: no writer sends on \<open>flushCh\<close> after it was closed, neither channel is closed
  twice, no \<open>Done\<close> takes the wait group below zero, at most one goroutine holds each mutex, and
  one caller at most carries out the close.
\<close>

theorem channels_safe:
  assumes "reachable (\<lambda>x. x = sync_start) sync_step x"
  shows "(at_point x i (Write_send w) \<longrightarrow> \<not> k_flush_closed x) \<and>
    (at_point x i Close_closeCh \<longrightarrow> \<not> k_close_closed x) \<and> (at_point x i Close_flushCh \<longrightarrow> \<not> k_flush_closed x) \<and>
    (at_point x i Leaving \<or> at_point x i Leaving_close \<longrightarrow> 0 < k_wg x) \<and>
    number has_mu (k_threads x) \<le> 1 \<and> number has_stale (k_threads x) \<le> 1 \<and> number has_streams (k_threads x) \<le> 1 \<and>
    number closer (k_threads x) \<le> 1"
proof -
  have inv: "sync_inv x"
    by (rule sync.always [OF assms])
  have alone: "number P (k_threads x) = 0" if "at_point x i p" "closer p" "\<not> P p" "\<And>q. P q \<Longrightarrow> closer q" for p P
    by (rule counts_alone [OF that(1), where Q = closer and b = "k_closed x"])
      (use that inv in \<open>auto simp: sync_inv_def closer_def\<close>)
  have pos: "0 < number P (k_threads x)" if "at_point x i p" "P p" for p P
    using number_pos [of i "k_threads x" P] that by (simp add: at_point_def)
  have le: "number P (k_threads x) \<le> 1" if "counts P b x" for P b
    using that by (simp add: counts_def split: if_splits)
  have "at_point x i (Write_send w) \<longrightarrow> \<not> k_flush_closed x"
    using pos [of "Write_send w" sending] inv by (auto simp: sync_inv_def)
  moreover have "at_point x i Close_closeCh \<longrightarrow> \<not> k_close_closed x"
    using alone [of Close_closeCh past_closeCh] inv by (auto simp: sync_inv_def counts_def point_defs)
  moreover have "at_point x i Close_flushCh \<longrightarrow> \<not> k_flush_closed x"
    using alone [of Close_flushCh past_flushCh] inv by (auto simp: sync_inv_def counts_def point_defs)
  moreover have "at_point x i Leaving \<or> at_point x i Leaving_close \<longrightarrow> 0 < k_wg x"
    using pos [of Leaving goroutine] pos [of Leaving_close goroutine] inv by (auto simp: sync_inv_def)
  ultimately show ?thesis
    using inv le [of has_mu "k_mu x"] le [of has_stale "k_stale x"] le [of has_streams "k_streams x"] le [of closer "k_closed x"]
    by (simp add: sync_inv_def)
qed

text \<open>Witness: the run of a user's close up to its wait.\<close>

theorem channels_safe_witness:
  "\<exists>x. sync_reachable x \<and> at_point x 3 Close_wait \<and> number has_mu (k_threads x) \<le> 1"
proof -
  have "at_point (sync_of True False True True True True Reading_net [Close_wait]) 3 Close_wait"
    by (simp add: sync_of_def at_point_def)
  then show ?thesis
    using channels_safe [OF run_to_wait [OF start_reachable]] run_to_wait [OF start_reachable] by blast
qed

text \<open>
  C9: \<open>close\<close> can deadlock with the read loop. It keeps \<open>streamsMu\<close> while it waits for the goroutines; a
  read loop that is about to take this mutex for a stream packet never releases the wait group,
  so from then on neither goroutine ever leaves its place.
\<close>

theorem close_deadlock:
  assumes "reachable (\<lambda>x. x = sync_start) sync_step x" and "at_point x i Close_wait"
    and "at_point x j p" and "p = Look_lock \<or> p = Reg_lock \<or> p = Drop_lock" and "sync_step\<^sup>*\<^sup>* x y"
  shows "at_point y i Close_wait \<and> (\<exists>q. at_point y j q \<and> (q = Look_lock \<or> q = Reg_lock \<or> q = Drop_lock))"
proof -
  have "waiting_cycle i j x"
    using sync.always [OF assms(1)] assms(2-4) by (auto simp: waiting_cycle_def wants_streams_def)
  then show ?thesis
    using cycle.forever [OF _ assms(5)] by (auto simp: waiting_cycle_def wants_streams_def)
qed

text \<open>Witness: a stream packet arrives while a user calls \<open>Close\<close>; no continuation lets it return.\<close>

theorem close_deadlock_witness:
  "\<exists>x. sync_reachable x \<and> k_threads x = [Flush_recv, Look_lock, Ping_select, Close_wait] \<and>
     {y. sync_step\<^sup>*\<^sup>* x y \<and> \<not> at_point y 3 Close_wait} = {}"
proof -
  let ?x = "sync_of True False True True True True Look_lock [Close_wait]"
  have x: "at_point ?x 3 Close_wait" "at_point ?x 1 Look_lock" "k_threads ?x = [Flush_recv, Look_lock, Ping_select, Close_wait]"
    by (simp_all add: sync_of_def at_point_def)
  have "at_point y 3 Close_wait" if "sync_step\<^sup>*\<^sup>* ?x y" for y
    using close_deadlock [OF run_to_wait [OF look_reachable] x(1,2) _ that] by simp
  then show ?thesis
    using run_to_wait [OF look_reachable] x(3) by blast
qed



end
