(* ===== verification/Connect.thy ===== *)
theory Connect
  imports Dialer Sync_Conn Async_Read_Props
begin

text \<open>
  \<open>ConnectSync\<close> and \<open>ConnectAsync\<close>: dial with retries and wrap the connection. The outcomes of the
  dial attempts are arguments. The results of the keep-alive settings are discarded by the code
  and have no effect on the model. \<^const>\<open>None\<close> is a panic: the type assertion on a nil connection.
\<close>

definition dial_conn ::
    "(nat \<Rightarrow> netconn attempt) \<Rightarrow> ('t \<Rightarrow> nat \<Rightarrow> netconn attempt) \<Rightarrow> 't option \<Rightarrow> (goerror + netconn) option" where
  "dial_conn dial tlsDial TLSConfig =
     (let (c, err) = (case TLSConfig of
            Some cfg \<Rightarrow> fst (DialTLS tlsDial NewRetry cfg)
          | None \<Rightarrow> fst (Dial dial NewRetry)) in
      case err of
        Some e \<Rightarrow> Some (Inl e)
      | None \<Rightarrow> (case c of Some nc \<Rightarrow> Some (Inr nc) | None \<Rightarrow> None))"

definition ConnectSync ::
    "(nat \<Rightarrow> netconn attempt) \<Rightarrow> ('t \<Rightarrow> nat \<Rightarrow> netconn attempt) \<Rightarrow> 't option
      \<Rightarrow> (goerror + 'ctx sync_conn) option" where
  "ConnectSync dial tlsDial TLSConfig = map_option (map_sum id NewSync) (dial_conn dial tlsDial TLSConfig)"

definition ConnectAsync ::
    "('c, 'q, 'pl, 'bl) deps \<Rightarrow> (nat \<Rightarrow> netconn attempt) \<Rightarrow> ('t \<Rightarrow> nat \<Rightarrow> netconn attempt) \<Rightarrow> 't option
      \<Rightarrow> 'h option list \<Rightarrow> 'pl \<Rightarrow> 'bl \<Rightarrow> (goerror + ('c, 'q, 'pl, 'bl, 'h) async) option" where
  "ConnectAsync D dial tlsDial TLSConfig streamHandler pl bl =
     map_option (map_sum id (\<lambda>nc. NewAsync D nc streamHandler pl bl)) (dial_conn dial tlsDial TLSConfig)"

text \<open>
  A dialer of the standard library returns a connection or an error, never neither.
\<close>

definition dialer_ok :: "(nat \<Rightarrow> netconn attempt) \<Rightarrow> bool" where
  "dialer_ok dial \<longleftrightarrow> (\<forall>i. (fst (dial i) = None) = (snd (dial i) \<noteq> None))"

lemma dial_conn_eq:
  "dial_conn dial tlsDial cfg =
     (case fst (Dial (case cfg of None \<Rightarrow> dial | Some t \<Rightarrow> tlsDial t) NewRetry) of
        (_, Some e) \<Rightarrow> Some (Inl e) | (Some nc, None) \<Rightarrow> Some (Inr nc) | (None, None) \<Rightarrow> None)"
  by (auto simp: dial_conn_def DialTLS_def Dial_def split: option.splits prod.splits)

section \<open>Properties\<close>

text \<open>
  C33: connecting, with or without TLS, returns a fresh connection on top of the first dial that
  succeeds, or the error of the tenth when all ten fail. No more than ten attempts are made and
  none after a success, and it does not panic when the dialer returns a connection or an error.
\<close>

theorem connect_outcome:
  assumes "d = (case cfg of None \<Rightarrow> dial | Some t \<Rightarrow> tlsDial t)" and "dialer_ok d"
  shows "(\<exists>j<10. \<exists>nc. d j = (Some nc, None) \<and> (\<forall>i<j. snd (d i) \<noteq> None) \<and> snd (Dial d NewRetry) = j + 1 \<and>
      ConnectAsync D dial tlsDial cfg hs pl bl = Some (Inr (NewAsync D nc hs pl bl)) \<and>
      ConnectSync dial tlsDial cfg = Some (Inr (NewSync nc :: 'ctx sync_conn))) \<or>
    (\<exists>e. (\<forall>i<10. snd (d i) \<noteq> None) \<and> snd (d 9) = Some e \<and> snd (Dial d NewRetry) = 10 \<and>
      ConnectAsync D dial tlsDial cfg hs pl bl = Some (Inl e) \<and>
      ConnectSync dial tlsDial cfg = Some (Inl e :: goerror + 'ctx sync_conn))"
proof (cases "\<exists>j<10. snd (d j) = None")
  case True
  then obtain j where j: "j < 10" "snd (d j) = None" "\<forall>i<j. \<not> (i < 10 \<and> snd (d i) = None)"
    using exists_least_iff [of "\<lambda>j. j < 10 \<and> snd (d j) = None"] by blast
  then have first: "\<forall>i<j. snd (d i) \<noteq> None"
    by (meson order.strict_trans)
  obtain nc where nc: "d j = (Some nc, None)"
    using assms(2) j(2) unfolding dialer_ok_def by (cases "d j") (metis fst_conv snd_conv option.exhaust)
  have "Dial d NewRetry = ((Some nc, None), j + 1)"
    by (rule dial_first_success [OF j(1) nc first])
  then show ?thesis
    using j(1) nc first assms(1) by (intro disjI1 exI [of _ j]) (simp add: ConnectAsync_def ConnectSync_def dial_conn_eq)
next
  case False
  then have all: "\<forall>i<10. snd (d i) \<noteq> None"
    by auto
  then have "Dial d NewRetry = (d 9, 10)"
    using plain.all_fail [of d] by simp
  moreover obtain c e where "d 9 = (c, Some e)"
    using all [rule_format, of 9] by (cases "d 9") auto
  ultimately show ?thesis
    using all assms(1) by (intro disjI2) (cases c; simp add: ConnectAsync_def ConnectSync_def dial_conn_eq)
qed

text \<open>Witness: the third dial succeeds.\<close>

theorem connect_outcome_witness:
  "\<exists>a. ConnectAsync (list_deps 0)
      (\<lambda>i. if i < 2 then (None, Some (NetError 7)) else (Some (quiet_conn []), None)) (\<lambda>t :: unit. undefined) None
      ([] :: nat option list) (Packet_New list_polyglot, []) (NewBuffer, []) = Some (Inr a)"
proof -
  let ?d = "\<lambda>i :: nat. if i < 2 then (None, Some (NetError 7)) else (Some (quiet_conn []), None)"
  have ok: "dialer_ok ?d" and s: "snd (?d 2) = None" "(2 :: nat) < 10"
    by (simp_all add: dialer_ok_def)
  show ?thesis
    using connect_outcome [where d = ?d and dial = ?d and cfg = None and tlsDial = "\<lambda>t :: unit. undefined" and
        D = "list_deps 0" and hs = "[] :: nat option list" and pl = "(Packet_New list_polyglot, [])" and
        bl = "(NewBuffer, [])", OF _ ok] s
    by (auto simp del: not_None_eq)
qed

end
