(* ===== verification/Server.thy ===== *)
theory Server
  imports Options Async_Read_Props
begin

text \<open>
  The server (\<^verbatim>\<open>server.go\<close>): its configuration, the accept loop with its backoff, what is done
  with one packet, and the loop that serves a connection one packet at a time. Handlers and
  callbacks are the user's code: a handler is a function, and calls of the callbacks are
  recorded as events in the order in which they happen. The goroutines that serve a connection
  concurrently and the shutdown are modelled in theories of their own.
\<close>

section \<open>Configuration\<close>

text \<open>
  What the server or the client installs as the connection's handler for new streams: the default
  of the server, a function that was given as it is, or a closure around the function given to
  \<open>SetStreamHandler\<close>, which may have been nil.
\<close>

datatype 'f stream_fn = DefaultStreamHandler | Plain 'f | CallsHandler "'f option"

text \<open>
  The callbacks \<open>onClosed\<close>, \<open>preWrite\<close> and the stream functions are opaque; the limiter is
  its capacity; connections are numbered.
\<close>

record ('ctx, 'c, 'l, 't, 'f, 'oc, 'pw) server =
  listener :: "nat option"
  handlerTable :: "('ctx, 'c) HandlerTable"
  shutdown :: bool
  sv_options :: "('l, 't) Options"
  sv_wg :: nat
  connections :: "nat list"
  startedCh_closed :: bool
  concurrency :: "64 word"
  limiter :: "nat option"
  baseContext :: "'ctx"
  cancelled :: bool
  onClosed :: 'oc
  preWrite :: 'pw
  streamHandler :: "'f stream_fn"
  ConnContext :: "('ctx \<Rightarrow> nat \<Rightarrow> 'ctx) option"
  PacketContext :: "('ctx \<Rightarrow> 'c packet \<Rightarrow> 'ctx) option"

text \<open>The loop \<^verbatim>\<open>for i := uint16(0); i < RESERVED9; i++\<close> over the handler table.\<close>

function reserved_used :: "('ctx, 'c) HandlerTable \<Rightarrow> uint16 \<Rightarrow> bool" where
  "reserved_used ht i = (if i < RESERVED9 then (if ht i \<noteq> None then True else reserved_used ht (i + 1)) else False)"
  by pat_completeness auto
termination
proof (relation "measure (\<lambda>(ht, i). 9 - unat i)")
  fix ht :: "('ctx, 'c) HandlerTable" and i :: uint16
  assume "i < RESERVED9"
  then have "unat i < 9" "unat (i + 1) = unat i + 1"
    by (simp_all add: guard_simps word_less_nat_alt unat_word_ariths)
  then show "((ht, i + 1), ht, i) \<in> measure (\<lambda>(ht, i). 9 - unat i)"
    by simp
qed simp

declare reserved_used.simps [simp del]

definition SetHandlerTable ::
    "('ctx, 'c) HandlerTable \<Rightarrow> ('ctx, 'c, 'l, 't, 'f, 'oc, 'pw) server
      \<Rightarrow> goerror option \<times> ('ctx, 'c, 'l, 't, 'f, 'oc, 'pw) server" where
  "SetHandlerTable ht s =
     (if reserved_used ht 0 then (Some InvalidHandlerTable, s) else (None, s\<lparr>handlerTable := ht\<rparr>))"

definition NewServer ::
    "'oc \<Rightarrow> 'pw \<Rightarrow> 'l \<Rightarrow> ('ctx, 'c) HandlerTable \<Rightarrow> 'ctx \<Rightarrow> ('l, 't) Option list
      \<Rightarrow> goerror option \<times> ('ctx, 'c, 'l, 't, 'f, 'oc, 'pw) server" where
  "NewServer defaultOnClosed defaultPreWrite noop ht ctx opts =
     SetHandlerTable ht
       \<lparr>listener = None, handlerTable = Map.empty, shutdown = False, sv_options = loadOptions noop opts,
        sv_wg = 0, connections = [], startedCh_closed = False, concurrency = 0, limiter = None,
        baseContext = ctx, cancelled = False, onClosed = defaultOnClosed, preWrite = defaultPreWrite,
        streamHandler = DefaultStreamHandler, ConnContext = None, PacketContext = None\<rparr>"

definition SetOnClosed ::
    "'oc option \<Rightarrow> ('ctx, 'c, 'l, 't, 'f, 'oc, 'pw) server
      \<Rightarrow> goerror option \<times> ('ctx, 'c, 'l, 't, 'f, 'oc, 'pw) server" where
  "SetOnClosed f s = (case f of None \<Rightarrow> (Some OnClosedNil, s) | Some g \<Rightarrow> (None, s\<lparr>onClosed := g\<rparr>))"

definition SetPreWrite ::
    "'pw option \<Rightarrow> ('ctx, 'c, 'l, 't, 'f, 'oc, 'pw) server
      \<Rightarrow> goerror option \<times> ('ctx, 'c, 'l, 't, 'f, 'oc, 'pw) server" where
  "SetPreWrite f s = (case f of None \<Rightarrow> (Some PreWriteNil, s) | Some g \<Rightarrow> (None, s\<lparr>preWrite := g\<rparr>))"

definition SetStreamHandler ::
    "'f option \<Rightarrow> ('ctx, 'c, 'l, 't, 'f, 'oc, 'pw) server
      \<Rightarrow> goerror option \<times> ('ctx, 'c, 'l, 't, 'f, 'oc, 'pw) server" where
  "SetStreamHandler f s = (None, s\<lparr>streamHandler := CallsHandler f\<rparr>)"

definition GetHandlerTable ::
    "('ctx, 'c, 'l, 't, 'f, 'oc, 'pw) server \<Rightarrow> ('ctx, 'c) HandlerTable" where
  "GetHandlerTable s = handlerTable s"

text \<open>\<^verbatim>\<open>make(chan struct{}, n)\<close> panics when the size is not a non-negative \<^verbatim>\<open>int\<close>.\<close>

definition SetConcurrency ::
    "64 word \<Rightarrow> ('ctx, 'c, 'l, 't, 'f, 'oc, 'pw) server \<Rightarrow> ('ctx, 'c, 'l, 't, 'f, 'oc, 'pw) server option" where
  "SetConcurrency n s =
     (let s = s\<lparr>concurrency := n\<rparr> in
      if 1 < concurrency s
      then (if 0 \<le> sint (concurrency s) then Some (s\<lparr>limiter := Some (unat (concurrency s))\<rparr>) else None)
      else Some s)"

section \<open>The accept loop\<close>

text \<open>
  What \<^verbatim>\<open>Accept\<close> returns: a connection, or an error that is temporary or not. \<open>sleeps\<close> says what
  happens to the server while the loop sleeps.
\<close>

datatype accepted = Accepted nat | Failed goerror bool

datatype listening = Stops "goerror option" | Retries int | Serves nat

definition next_backoff :: "int \<Rightarrow> int" where
  "next_backoff b =
     (let b = (if b = 0 then minBackoff else b * 2) in if maxBackoff < b then maxBackoff else b)"

definition sv_Done ::
    "('ctx, 'c, 'l, 't, 'f, 'oc, 'pw) server \<Rightarrow> ('ctx, 'c, 'l, 't, 'f, 'oc, 'pw) server option" where
  "sv_Done s = (if sv_wg s = 0 then None else Some (s\<lparr>sv_wg := sv_wg s - 1\<rparr>))"

definition ServeConn ::
    "('ctx, 'c, 'l, 't, 'f, 'oc, 'pw) server \<Rightarrow> ('ctx, 'c, 'l, 't, 'f, 'oc, 'pw) server" where
  "ServeConn s = s\<lparr>sv_wg := sv_wg s + 1\<rparr>"

definition listener_step ::
    "(('ctx, 'c, 'l, 't, 'f, 'oc, 'pw) server \<Rightarrow> ('ctx, 'c, 'l, 't, 'f, 'oc, 'pw) server) \<Rightarrow> accepted \<Rightarrow> int
      \<Rightarrow> ('ctx, 'c, 'l, 't, 'f, 'oc, 'pw) server
      \<Rightarrow> (listening \<times> ('ctx, 'c, 'l, 't, 'f, 'oc, 'pw) server) option" where
  "listener_step sleeps r backoff s =
     (case r of
        Failed err temporary \<Rightarrow>
          if shutdown s then do { s \<leftarrow> sv_Done s; Some (Stops None, s) }
          else if temporary
          then (let b = next_backoff backoff; s = sleeps s in
                if shutdown s then do { s \<leftarrow> sv_Done s; Some (Stops None, s) }
                else Some (Retries b, s))
          else do { s \<leftarrow> sv_Done s; Some (Stops (Some err), s) }
      | Accepted c \<Rightarrow> Some (Serves c, ServeConn s))"

text \<open>
  The loop over the outcomes of \<^verbatim>\<open>Accept\<close>: the connections that were served, the times slept, and
  the result when it returned.
\<close>

fun handleListener ::
    "(('ctx, 'c, 'l, 't, 'f, 'oc, 'pw) server \<Rightarrow> ('ctx, 'c, 'l, 't, 'f, 'oc, 'pw) server) \<Rightarrow> accepted list \<Rightarrow> int
      \<Rightarrow> ('ctx, 'c, 'l, 't, 'f, 'oc, 'pw) server
      \<Rightarrow> (nat list \<times> int list \<times> goerror option option \<times> ('ctx, 'c, 'l, 't, 'f, 'oc, 'pw) server) option" where
  "handleListener sleeps [] backoff s = Some ([], [], None, s)"
| "handleListener sleeps (r # rs) backoff s = do {
     (l, s) \<leftarrow> listener_step sleeps r backoff s;
     (case l of
        Stops e \<Rightarrow> Some ([], [], Some e, s)
      | Retries b \<Rightarrow> do { (cs, bs, e, s) \<leftarrow> handleListener sleeps rs b s; Some (cs, b # bs, e, s) }
      | Serves c \<Rightarrow> do { (cs, bs, e, s) \<leftarrow> handleListener sleeps rs 0 s; Some (c # cs, bs, e, s) })
   }"

definition StartWithListener ::
    "(('ctx, 'c, 'l, 't, 'f, 'oc, 'pw) server \<Rightarrow> ('ctx, 'c, 'l, 't, 'f, 'oc, 'pw) server) \<Rightarrow> accepted list
      \<Rightarrow> nat option \<Rightarrow> ('ctx, 'c, 'l, 't, 'f, 'oc, 'pw) server
      \<Rightarrow> (nat list \<times> int list \<times> goerror option option \<times> ('ctx, 'c, 'l, 't, 'f, 'oc, 'pw) server) option" where
  "StartWithListener sleeps rs lis s =
     (case lis of
        None \<Rightarrow> Some ([], [], Some (Some ListenerNil), s)
      | Some l \<Rightarrow>
          if startedCh_closed s then None
          else handleListener sleeps rs 0
                 (s\<lparr>listener := Some l, sv_wg := sv_wg s + 1, startedCh_closed := True\<rparr>))"

text \<open>\<^verbatim>\<open>Start\<close>: \<open>listen\<close> makes the listener, with TLS when it is configured.\<close>

definition Start ::
    "(bool \<Rightarrow> nat + goerror) \<Rightarrow> (('ctx, 'c, 'l, 't, 'f, 'oc, 'pw) server \<Rightarrow> ('ctx, 'c, 'l, 't, 'f, 'oc, 'pw) server)
      \<Rightarrow> accepted list \<Rightarrow> ('ctx, 'c, 'l, 't, 'f, 'oc, 'pw) server
      \<Rightarrow> (nat list \<times> int list \<times> goerror option option \<times> ('ctx, 'c, 'l, 't, 'f, 'oc, 'pw) server) option" where
  "Start listen sleeps rs s =
     (case listen (TLSConfig (sv_options s) \<noteq> None) of
        Inr err \<Rightarrow> Some ([], [], Some (Some err), s)
      | Inl l \<Rightarrow> StartWithListener sleeps rs (Some l) s)"

section \<open>Handling one packet\<close>

text \<open>Calls of user code, in order.\<close>

datatype 'c event = Called "'c packet" | PreWrite | OnClosed "goerror option" | Cancel

datatype handled = Unhandled | WriteErr goerror | Acts Action

text \<open>
  The part that \<open>handleSinglePacket\<close>, the closure of \<open>createHandler\<close> and the client's
  \<open>handleConn\<close> share: look up the handler, call it, write what it returns, and put the packets
  back into the pool. \<open>pre\<close> lists the callbacks that are run before the write. The comparison with
  \<^verbatim>\<open>uint32(outgoing.Content.Len())\<close> wraps. When the handler returns the incoming packet, it is put
  back once.
\<close>

definition handle_packet ::
    "('c, 'q, 'pl, 'bl) deps \<Rightarrow> (('c, 'q, 'pl, 'bl, 'h) async \<Rightarrow> ('c, 'q, 'pl, 'bl, 'h) async)
      \<Rightarrow> 'c event list \<Rightarrow> ('ctx, 'c) HandlerTable \<Rightarrow> ('ctx \<Rightarrow> 'c packet \<Rightarrow> 'ctx) option \<Rightarrow> 'ctx \<Rightarrow> 'c packet
      \<Rightarrow> ('c, 'q, 'pl, 'bl, 'h) async \<Rightarrow> (handled \<times> 'c event list \<times> ('c, 'q, 'pl, 'bl, 'h) async) option" where
  "handle_packet D race pre ht pctx ctx p a =
     (let put = (\<lambda>q a. a\<lparr>packets := Put (poly D) (pkt_pool D) q (packets a)\<rparr>) in
      case ht (Operation (Metadata p)) of
        Some (Some handlerFunc) \<Rightarrow>
          (let packetCtx = (case pctx of None \<Rightarrow> ctx | Some f \<Rightarrow> f ctx p);
               (outgoing, action) = handlerFunc packetCtx p;
               fits = (\<lambda>q. ContentLength (Metadata q) = word_of_nat (pg_len (poly D) (Content q)));
               result = (\<lambda>err. case err of Some e \<Rightarrow> WriteErr e | None \<Rightarrow> Acts action) in
           case outgoing of
             NoPacket \<Rightarrow> Some (Acts action, [Called p], put p a)
           | Same q \<Rightarrow>
               if fits q
               then do { (err, a) \<leftarrow> Async_WritePacket D race q a; Some (result err, Called p # pre, put q a) }
               else Some (Acts action, [Called p], put q a)
           | Other q \<Rightarrow>
               if fits q
               then do { (err, a) \<leftarrow> Async_WritePacket D race q a; Some (result err, Called p # pre, put p (put q a)) }
               else Some (Acts action, [Called p], put p a))
      | _ \<Rightarrow> Some (Unhandled, [], put p a))"

section \<open>Serving one packet at a time\<close>

text \<open>\<^verbatim>\<open>_ = conn.Close()\<close> and the callback, then return.\<close>

definition close_and_report ::
    "('c, 'q, 'pl, 'bl) deps \<Rightarrow> goerror option \<Rightarrow> 'c event list \<Rightarrow> ('c, 'q, 'pl, 'bl, 'h) async
      \<Rightarrow> ('c event list \<times> bool \<times> ('c, 'q, 'pl, 'bl, 'h) async) option" where
  "close_and_report D err evs a = do { (_, a) \<leftarrow> Async_Close D a; Some (evs @ [OnClosed err], True, a) }"

text \<open>One round of \<open>handleSinglePacket\<close>: read a packet and handle it. The flag says that it returned.\<close>

definition single_step ::
    "('c, 'q, 'pl, 'bl) deps \<Rightarrow> (('c, 'q, 'pl, 'bl, 'h) async \<Rightarrow> ('c, 'q, 'pl, 'bl, 'h) async)
      \<Rightarrow> ('ctx, 'c, 'l, 't, 'f, 'oc, 'pw) server \<Rightarrow> 'ctx \<Rightarrow> ('c, 'q, 'pl, 'bl, 'h) async
      \<Rightarrow> ('c event list \<times> bool \<times> ('c, 'q, 'pl, 'bl, 'h) async) option blocking" where
  "single_step D race s connCtx a =
     (case Async_ReadPacket D race a of
        Blocks \<Rightarrow> Blocks
      | Returns (Inl err, a) \<Rightarrow> Returns (close_and_report D (Some err) [] a)
      | Returns (Inr p, a) \<Rightarrow> Returns (do {
          (r, evs, a) \<leftarrow> handle_packet D race [PreWrite] (handlerTable s) (PacketContext s) connCtx p a;
          (case r of
             WriteErr e \<Rightarrow> close_and_report D (Some e) evs a
           | Acts CLOSE \<Rightarrow> close_and_report D None evs a
           | _ \<Rightarrow> Some (evs, False, a))
        }))"

text \<open>The loop runs until it returns or has to wait for a packet.\<close>

partial_function (option) handleSinglePacket ::
    "('c, 'q, 'pl, 'bl) deps \<Rightarrow> (('c, 'q, 'pl, 'bl, 'h) async \<Rightarrow> ('c, 'q, 'pl, 'bl, 'h) async)
      \<Rightarrow> ('ctx, 'c, 'l, 't, 'f, 'oc, 'pw) server \<Rightarrow> 'ctx \<Rightarrow> ('c, 'q, 'pl, 'bl, 'h) async
      \<Rightarrow> ('c event list \<times> bool \<times> ('c, 'q, 'pl, 'bl, 'h) async) option" where
  "handleSinglePacket D race s connCtx a =
     (case single_step D race s connCtx a of
        Blocks \<Rightarrow> Some ([], False, a)
      | Returns r \<Rightarrow> do {
          (evs, returned, a) \<leftarrow> r;
          (if returned then Some (evs, True, a)
           else do {
             (evs', returned, a) \<leftarrow> handleSinglePacket D race s connCtx a;
             Some (evs @ evs', returned, a)
           })
        })"

section \<open>Laws of packet handling\<close>

lemma put_inv:
  assumes "deps_ok D V I J" and "async_inv V I J a"
  shows "async_inv V I J (a\<lparr>packets := Put (poly D) (pkt_pool D) q (packets a)\<rparr>)"
  using inv_packets [OF assms(2)] Put_keeps [OF deps_okD(1,2) [OF assms(1)]] assms(2) by (simp add: inv_defs)

text \<open>The packets that are still to be read: queued, or stale after the close.\<close>

definition undelivered ::
    "('q, 'c packet) queue_view \<Rightarrow> ('c, 'q, 'pl, 'bl, 'h) async \<Rightarrow> 'c packet list" where
  "undelivered V a = (if a_closed a then a_stale a else items V (incoming a))"

lemma undelivered_put [simp]:
  "undelivered V (a\<lparr>packets := pl\<rparr>) = undelivered V a"
  "undelivered V (a\<lparr>buffers := bl\<rparr>) = undelivered V a"
  "undelivered V (a\<lparr>a_conn := c\<rparr>) = undelivered V a"
  "undelivered V (a\<lparr>a_writer := w\<rparr>) = undelivered V a"
  by (simp_all add: undelivered_def)

lemma Async_Close_undelivered:
  assumes "deps_ok D V I J" and "async_inv V I J a"
  obtains a' where "Async_Close D a = Some (None, a')" and "async_inv V I J a'" and "a_closed a'"
    and "undelivered V a' = undelivered V a"
proof (cases "a_closed a")
  case True
  then show ?thesis
    using that [of a] assms(2) by (simp add: Async_Close_def)
next
  case False
  obtain b where "close D a = Some (None, b)" "async_inv V I J b" "a_closed b" "a_stale b = items V (incoming a)"
    by (rule close_open [OF assms(1) async_inv_pre [OF assms(2)] False])
  then show ?thesis
    using that [of "b\<lparr>a_conn := conn_Close (a_conn b)\<rparr>"] False by (simp add: Async_Close_def undelivered_def)
qed

lemma write_failed_undelivered:
  assumes "deps_ok D V I J" and "pre_inv V I J b" and "\<not> a_closed b"
    and "write_failed (closeWithError D) id a_closed closeOnErr err b = Some (e, a')"
  shows "undelivered V a' = undelivered V b"
proof (cases closeOnErr)
  case False
  then show ?thesis
    using assms(3,4) by (simp add: write_failed_def)
next
  case True
  obtain c where "closeWithError D err b = Some (Some err, c)" "a_closed c" "a_stale c = items V (incoming b)"
    by (rule closeWithError_open [OF assms(1-3)])
  then show ?thesis
    using True assms(3,4) by (simp add: write_failed_def undelivered_def)
qed

lemma signal_flush_undelivered: "signal_flush b = Some a' \<Longrightarrow> undelivered V a' = undelivered V b"
  by (auto simp: signal_flush_def undelivered_def split: if_splits)

lemma writePacket_undelivered:
  assumes ok: "deps_ok D V I J" and inv: "async_inv V I J a" and w: "writePacket D id c p a = Some (e, a')"
  shows "undelivered V a' = undelivered V a"
proof -
  have J: "J (buffers a)" using inv by (simp add: inv_defs)
  consider (closed) "a_closed a" | (refused) "\<not> sendable (poly D) (maxLen D) p"
    | (ready) "sendable (poly D) (maxLen D) p" "\<not> a_closed a"
    by blast
  then show ?thesis
  proof cases
    case closed
    show ?thesis
      by (rule writePacket_closed [OF ok J closed, of "closeWithError D" id c p])
        (use w in \<open>auto simp: writePacket_def undelivered_def\<close>)
  next
    case refused
    then show ?thesis
      using w by (simp add: writePacket_def writePacket_refused)
  next
    case ready
    have pre: "pre_inv V I J (a\<lparr>buffers := bl, a_conn := nc\<rparr>)"
        "pre_inv V I J (a\<lparr>buffers := bl, a_writer := w, a_conn := nc\<rparr>)" if "J bl" for bl w nc
      using inv that by (simp_all add: inv_defs)
    have fail: "write_failed (closeWithError D) id a_closed c err (a\<lparr>buffers := bl, a_conn := nc\<rparr>) = Some (e, b) \<Longrightarrow>
          undelivered V b = undelivered V a"
        "write_failed (closeWithError D) id a_closed c err (a\<lparr>buffers := bl, a_writer := w, a_conn := nc\<rparr>) = Some (e, b) \<Longrightarrow>
          undelivered V b = undelivered V a" if "J bl" for bl w nc err e b
      using write_failed_undelivered [OF ok pre(1) [OF that]] write_failed_undelivered [OF ok pre(2) [OF that]] ready(2)
      by (auto simp del: id_apply)
    show ?thesis
    proof (rule writePacket_open [OF ok J ready, of "closeWithError D" id c])
      fix bl bl'
      assume bl: "J bl" "J bl'" and eq: "writePacket_with (closeWithError D) D id c p a =
       (case conn_SetDeadline (a_conn a) of
          (Some err, nc) \<Rightarrow> write_failed (closeWithError D) id a_closed c err (a\<lparr>buffers := bl, a_conn := nc\<rparr>)
        | (None, nc) \<Rightarrow>
            (case bufw_Write (header_bytes (wire_metadata (Metadata p))) (a_writer a, nc) of
               (Some err, w, nc) \<Rightarrow> write_failed (closeWithError D) id a_closed c err (a\<lparr>buffers := bl', a_writer := w, a_conn := nc\<rparr>)
             | (None, w, nc) \<Rightarrow>
                 (case bufw_Write (pg_bytes (poly D) (Content p)) (w, nc) of
                    (Some err, w, nc) \<Rightarrow> write_failed (closeWithError D) id a_closed c err (a\<lparr>buffers := bl', a_writer := w, a_conn := nc\<rparr>)
                  | (None, w, nc) \<Rightarrow>
                      map_option (Pair None) (signal_flush (a\<lparr>buffers := bl', a_writer := w, a_conn := nc\<rparr>)))))"
      show ?thesis
        using w [unfolded writePacket_def eq] ready(2)
        by (auto split: prod.splits option.splits
            dest!: signal_flush_undelivered [where V = V] fail(1) [OF bl(1)] fail(2) [OF bl(2)])
    qed
  qed
qed

lemma Async_WritePacket_undelivered:
  assumes "deps_ok D V I J" and "async_inv V I J a"
  obtains e a' where "Async_WritePacket D id p a = Some (e, a')" and "async_inv V I J a'"
    and "undelivered V a' = undelivered V a" and "e \<noteq> None \<or> \<not> a_closed a'"
proof -
  obtain e a' where w: "Async_WritePacket D id p a = Some (e, a')" "async_inv V I J a'"
      "case e of None \<Rightarrow> RESERVED9 < Operation (Metadata p) \<and> wrote D p a a'
       | Some _ \<Rightarrow> prefix (a_out a) (a_out a') \<and> prefix (a_out a') (a_out a @ frame (poly D) p) \<and>
         ((Operation (Metadata p) \<le> RESERVED9 \<or> \<not> sendable (poly D) (maxLen D) p) \<and> a' = a \<or> a_closed a')"
    using Async_WritePacket_spec [OF assms(1) race_closes_id assms(2), of p] by blast
  have "undelivered V a' = undelivered V a"
    using w(1) writePacket_undelivered [OF assms, of True p e a'] by (auto simp: Async_WritePacket_def split: if_splits)
  moreover have "e \<noteq> None \<or> \<not> a_closed a'"
    using w(3) wrote_frame(1) by (cases e) (auto simp: wrote_def)
  ultimately show thesis
    using that w(1,2) by blast
qed

text \<open>Which handler calls and which reports a list of events has.\<close>

fun calls :: "'c event list \<Rightarrow> 'c packet list" where
  "calls [] = []"
| "calls (Called p # evs) = p # calls evs"
| "calls (_ # evs) = calls evs"

fun reports :: "'c event list \<Rightarrow> goerror option list" where
  "reports [] = []"
| "reports (OnClosed e # evs) = e # reports evs"
| "reports (_ # evs) = reports evs"

lemma calls_append [simp]: "calls (xs @ ys) = calls xs @ calls ys"
  by (induction xs rule: calls.induct) auto

lemma reports_append [simp]: "reports (xs @ ys) = reports xs @ reports ys"
  by (induction xs rule: reports.induct) auto

definition has_handler :: "('ctx, 'c) HandlerTable \<Rightarrow> 'c packet \<Rightarrow> bool" where
  "has_handler ht p \<longleftrightarrow> (case ht (Operation (Metadata p)) of Some (Some h) \<Rightarrow> True | _ \<Rightarrow> False)"

lemma handle_packet_spec:
  assumes ok: "deps_ok D V I J" and inv: "async_inv V I J a" and pre: "calls pre = []" "reports pre = []"
  shows "\<exists>r evs a'. handle_packet D id pre ht pctx ctx p a = Some (r, evs, a') \<and> async_inv V I J a' \<and>
    undelivered V a' = undelivered V a \<and> reports evs = [] \<and> calls evs = filter (has_handler ht) [p]"
proof (cases "has_handler ht p")
  case False
  then show ?thesis
    using put_inv [OF ok inv, of p]
    by (auto simp: handle_packet_def has_handler_def Let_def split: option.splits)
next
  case True
  then obtain h where h: "ht (Operation (Metadata p)) = Some (Some h)"
    by (auto simp: has_handler_def split: option.splits)
  obtain out act where o: "h (case pctx of None \<Rightarrow> ctx | Some f \<Rightarrow> f ctx p) p = (out, act)"
    by (cases "h (case pctx of None \<Rightarrow> ctx | Some f \<Rightarrow> f ctx p) p")
  have eq: "handle_packet D id pre ht pctx ctx p a =
     (let put = (\<lambda>q a. a\<lparr>packets := Put (poly D) (pkt_pool D) q (packets a)\<rparr>);
          fits = (\<lambda>q. ContentLength (Metadata q) = word_of_nat (pg_len (poly D) (Content q)));
          result = (\<lambda>err. case err of Some e \<Rightarrow> WriteErr e | None \<Rightarrow> Acts act) in
      case out of
        NoPacket \<Rightarrow> Some (Acts act, [Called p], put p a)
      | Same q \<Rightarrow> if fits q
          then do { (err, a) \<leftarrow> Async_WritePacket D id q a; Some (result err, Called p # pre, put q a) }
          else Some (Acts act, [Called p], put q a)
      | Other q \<Rightarrow> if fits q
          then do { (err, a) \<leftarrow> Async_WritePacket D id q a; Some (result err, Called p # pre, put p (put q a)) }
          else Some (Acts act, [Called p], put p a))"
    using h o by (simp add: handle_packet_def Let_def)
  show ?thesis
  proof (cases out)
    case NoPacket
    then show ?thesis using True put_inv [OF ok inv, of p] by (simp add: eq Let_def)
  next
    case (Same q)
    obtain e b where b: "Async_WritePacket D id q a = Some (e, b)" "async_inv V I J b" "undelivered V b = undelivered V a"
      by (rule Async_WritePacket_undelivered [OF ok inv, of q])
    show ?thesis
      using True Same b put_inv [OF ok inv, of q] put_inv [OF ok b(2), of q] pre by (simp add: eq Let_def)
  next
    case (Other q)
    obtain e b where b: "Async_WritePacket D id q a = Some (e, b)" "async_inv V I J b" "undelivered V b = undelivered V a"
      by (rule Async_WritePacket_undelivered [OF ok inv, of q])
    show ?thesis
      using True Other b put_inv [OF ok inv, of p] put_inv [OF ok put_inv [OF ok b(2), of q], of p] pre
      by (simp add: eq Let_def)
  qed
qed

text \<open>Reading takes the first undelivered packet; without one, an open connection waits.\<close>

lemma Async_ReadPacket_undelivered:
  assumes ok: "deps_ok D V I J" and inv: "async_inv V I J a"
  obtains (packet) p b where "Async_ReadPacket D id a = Returns (Inr p, b)" and "async_inv V I J b"
      and "undelivered V a = p # undelivered V b"
    | (closed) "Async_ReadPacket D id a = Returns (Inl ConnectionClosed, a)" and "a_closed a" and "undelivered V a = []"
    | (waits) "Async_ReadPacket D id a = Blocks" and "\<not> a_closed a" and "undelivered V a = []"
proof (cases "a_closed a")
  case True
  show ?thesis
  proof (cases "a_stale a")
    case Nil
    then show ?thesis
      using closed True by (simp add: Async_ReadPacket_def undelivered_def)
  next
    case (Cons p ps)
    then show ?thesis
      using packet [of p "a\<lparr>a_stale := ps\<rparr>"] True inv
      by (simp add: Async_ReadPacket_def undelivered_def inv_defs)
  qed
next
  case False
  then have q: "\<not> q_closed V (incoming a)"
    using inv by (simp add: inv_defs)
  show ?thesis
  proof (cases "items V (incoming a)")
    case Nil
    then show ?thesis
      using waits False circular_pop_empty [OF deps_okD(4) [OF ok] q] by (simp add: Async_ReadPacket_def undelivered_def)
  next
    case (Cons p ps)
    obtain q' where "q_pop (circ D) (incoming a) = Returns (Inr p, q')" "items V q' = ps" "\<not> q_closed V q'"
      by (rule circular_pop_cons [OF deps_okD(4) [OF ok] q Cons])
    then show ?thesis
      using packet [of p "a\<lparr>incoming := q'\<rparr>"] Cons False inv_incoming [OF inv q, of q']
      by (simp add: Async_ReadPacket_def undelivered_def)
  qed
qed

definition served ::
    "('q, 'c packet) queue_view \<Rightarrow> ('pl \<Rightarrow> bool) \<Rightarrow> ('bl \<Rightarrow> bool) \<Rightarrow> ('ctx, 'c) HandlerTable
      \<Rightarrow> 'c packet list \<Rightarrow> 'c event list \<Rightarrow> bool \<Rightarrow> ('c, 'q, 'pl, 'bl, 'h) async \<Rightarrow> bool" where
  "served V I J ht ps evs returned b \<longleftrightarrow> async_inv V I J b \<and>
     (\<exists>k\<le>length ps. calls evs = filter (has_handler ht) (take k ps) \<and> undelivered V b = drop k ps) \<and>
     (if returned then a_closed b \<and> (\<exists>err. reports evs = [err]) else \<not> a_closed b \<and> undelivered V b = [] \<and> reports evs = [])"

lemma close_and_report_spec:
  assumes "deps_ok D V I J" and "async_inv V I J a" and "reports evs = []"
  obtains b where "close_and_report D err evs a = Some (evs @ [OnClosed err], True, b)" and "async_inv V I J b"
    and "a_closed b" and "undelivered V b = undelivered V a"
proof -
  obtain b where "Async_Close D a = Some (None, b)" "async_inv V I J b" "a_closed b" "undelivered V b = undelivered V a"
    by (rule Async_Close_undelivered [OF assms(1,2)])
  then show thesis
    using that by (simp add: close_and_report_def)
qed

text \<open>A round either waits, or uses up one packet, or ends with one report.\<close>

lemma single_step_spec:
  assumes ok: "deps_ok D V I J" and inv: "async_inv V I J a"
  obtains (waits) "single_step D id s ctx a = Blocks" and "\<not> a_closed a" and "undelivered V a = []"
    | (ends) evs b err where "single_step D id s ctx a = Returns (Some (evs, True, b))" and "async_inv V I J b"
      and "a_closed b" and "reports evs = [err]"
      and "calls evs = filter (has_handler (handlerTable s)) (take 1 (undelivered V a))"
      and "undelivered V b = drop 1 (undelivered V a)"
    | (continues) evs b p where "single_step D id s ctx a = Returns (Some (evs, False, b))" and "async_inv V I J b"
      and "reports evs = []" and "undelivered V a = p # undelivered V b"
      and "calls evs = filter (has_handler (handlerTable s)) [p]"
proof (cases rule: Async_ReadPacket_undelivered [OF ok inv, case_names packet closed waits'])
  case waits'
  then show ?thesis using waits by (simp add: single_step_def)
next
  case closed
  obtain b where "close_and_report D (Some ConnectionClosed) ([] :: 'a event list) a
      = Some ([] @ [OnClosed (Some ConnectionClosed)], True, b)" "async_inv V I J b"
      "a_closed b" "undelivered V b = undelivered V a"
    by (rule close_and_report_spec [OF ok inv, of "[]"]) simp_all
  then show ?thesis
    using ends [of "[OnClosed (Some ConnectionClosed)]" b "Some ConnectionClosed"] closed by (simp add: single_step_def)
next
  case (packet p b)
  obtain r evs c where h: "handle_packet D id [PreWrite] (handlerTable s) (PacketContext s) ctx p b = Some (r, evs, c)"
      "async_inv V I J c" "undelivered V c = undelivered V b" "reports evs = []"
      "calls evs = filter (has_handler (handlerTable s)) [p]"
    using handle_packet_spec [OF ok packet(2), of "[PreWrite]" "handlerTable s" "PacketContext s" ctx p] by auto
  consider (stop) err where "single_step D id s ctx a = Returns (close_and_report D err evs c)"
    | (go) "single_step D id s ctx a = Returns (Some (evs, False, c))"
    using packet(1) h(1) by (cases r; cases "r = Acts CLOSE") (auto simp: single_step_def split: Action.splits)
  then show ?thesis
  proof cases
    case stop
    obtain d where d: "close_and_report D err evs c = Some (evs @ [OnClosed err], True, d)" "async_inv V I J d"
        "a_closed d" "undelivered V d = undelivered V c"
      by (rule close_and_report_spec [OF ok h(2,4)])
    show ?thesis
      by (rule ends [of "evs @ [OnClosed err]" d err]) (use stop d h packet(3) in simp_all)
  next
    case go
    then show ?thesis
      using continues [of evs c p] h packet(3) by simp
  qed
qed

lemma handleSinglePacket_served:
  assumes ok: "deps_ok D V I J"
  shows "async_inv V I J a \<Longrightarrow> \<exists>evs returned b. handleSinglePacket D id s ctx a = Some (evs, returned, b) \<and>
    served V I J (handlerTable s) (undelivered V a) evs returned b"
proof (induction "length (undelivered V a)" arbitrary: a rule: less_induct)
  case less
  show ?case
  proof (cases rule: single_step_spec [OF ok less.prems, of s ctx, case_names waits ends continues])
    case waits
    have "handleSinglePacket D id s ctx a = Some ([], False, a)"
      using waits by (subst handleSinglePacket.simps) simp
    then show ?thesis
      using waits less.prems by (auto simp: served_def)
  next
    case (ends evs b err)
    have "handleSinglePacket D id s ctx a = Some (evs, True, b)"
      using ends by (subst handleSinglePacket.simps) simp
    moreover have "served V I J (handlerTable s) (undelivered V a) evs True b"
    proof -
      let ?k = "min 1 (length (undelivered V a))"
      have "take ?k (undelivered V a) = take 1 (undelivered V a)" "drop ?k (undelivered V a) = drop 1 (undelivered V a)"
        by (auto simp: min_def)
      then show ?thesis
        using ends by (auto simp: served_def intro!: exI [of _ ?k])
    qed
    ultimately show ?thesis by blast
  next
    case (continues evs b p)
    obtain evs' returned c where c: "handleSinglePacket D id s ctx b = Some (evs', returned, c)"
        "served V I J (handlerTable s) (undelivered V b) evs' returned c"
      using less.hyps [OF _ continues(2)] continues(4) by auto
    have "handleSinglePacket D id s ctx a = Some (evs @ evs', returned, c)"
      using continues c(1) by (subst handleSinglePacket.simps) simp
    moreover have "served V I J (handlerTable s) (undelivered V a) (evs @ evs') returned c"
    proof -
      obtain k where k: "k \<le> length (undelivered V b)" "undelivered V c = drop k (undelivered V b)"
          "calls evs' = filter (has_handler (handlerTable s)) (take k (undelivered V b))"
        using c(2) by (auto simp: served_def)
      then have "Suc k \<le> length (undelivered V a) \<and> undelivered V c = drop (Suc k) (undelivered V a) \<and>
          calls (evs @ evs') = filter (has_handler (handlerTable s)) (take (Suc k) (undelivered V a))"
        using continues(4,5) by simp
      then show ?thesis
        using c(2) continues(3) by (auto simp: served_def split: if_splits)
    qed
    ultimately show ?thesis by blast
  qed
qed

section \<open>What the operations keep of the connection\<close>

lemma Async_WritePacket_keeps_closed:
  assumes "deps_ok D V I J" and "async_inv V I J a" and "a_closed a" and "Async_WritePacket D id p a = Some (e, a')"
  shows "a_closed a'"
  using Async_WritePacket_spec [OF assms(1) race_closes_id assms(2), of p] assms(3,4)
  by (auto simp: wrote_def split: option.splits)

lemma handle_packet_keeps_closed:
  assumes "deps_ok D V I J" and "async_inv V I J a" and "a_closed a"
    and "handle_packet D id pre ht pctx ctx p a = Some (r, evs, a')"
  shows "a_closed a'"
  using assms(3,4) Async_WritePacket_keeps_closed [OF assms(1-3)]
  by (auto simp: handle_packet_def Let_def bind_eq_Some_conv split: option.splits prod.splits outgoing.splits if_splits)

lemma Async_ReadPacket_keeps:
  assumes ok: "deps_ok D V I J" and inv: "async_inv V I J a" and "Async_ReadPacket D id a = Returns (r, b)"
  shows "async_inv V I J b"
  by (cases rule: Async_ReadPacket_undelivered [OF ok inv, case_names packet closed waits]) (use assms(3) inv in auto)

lemma Async_ReadPacket_keeps_closed:
  "Async_ReadPacket D id a = Returns (r, b) \<Longrightarrow> a_closed a \<Longrightarrow> a_closed b"
  by (auto simp: Async_ReadPacket_def split: list.splits)

lemma handle_packet_keeps:
  assumes "deps_ok D V I J" and "async_inv V I J a" and "calls pre = []" and "reports pre = []"
    and "handle_packet D id pre ht pctx ctx p a = Some (r, evs, a')"
  shows "async_inv V I J a'"
  using handle_packet_spec [OF assms(1-4), of ht pctx ctx p] assms(5) by auto

lemma Async_Close_keeps:
  assumes "deps_ok D V I J" and "async_inv V I J a" and "Async_Close D a = Some (e, a')"
  shows "async_inv V I J a'" and "a_closed a'" and "e = None"
  by (rule Async_Close_undelivered [OF assms(1,2)]; use assms(3) in auto)+

section \<open>Handlers that neither answer nor close\<close>

definition quiet_handlers :: "('ctx, 'c) HandlerTable \<Rightarrow> bool" where
  "quiet_handlers ht \<longleftrightarrow> (\<forall>oper h ctx p. ht oper = Some (Some h) \<longrightarrow> h ctx p = (NoPacket, NONE))"

lemma single_step_quiet:
  assumes "quiet_handlers (handlerTable s)" and "Async_ReadPacket D id a = Returns (Inr p, b)"
  shows "single_step D id s ctx a =
    Returns (Some (map Called (filter (has_handler (handlerTable s)) [p]), False,
      b\<lparr>packets := Put (poly D) (pkt_pool D) p (packets b)\<rparr>))"
proof (cases "has_handler (handlerTable s) p")
  case True
  then obtain h where h: "handlerTable s (Operation (Metadata p)) = Some (Some h)"
    by (auto simp: has_handler_def split: option.splits)
  then have "h c q = (NoPacket, NONE)" for c q
    using assms(1) by (simp add: quiet_handlers_def)
  then show ?thesis
    using assms(2) True h by (simp add: single_step_def handle_packet_def Let_def)
next
  case False
  then have "handle_packet D id [PreWrite] (handlerTable s) (PacketContext s) ctx p b =
      Some (Unhandled, [], b\<lparr>packets := Put (poly D) (pkt_pool D) p (packets b)\<rparr>)"
    by (auto simp: handle_packet_def has_handler_def Let_def split: option.splits)
  then show ?thesis
    using assms False by (simp add: single_step_def)
qed

text \<open>They get every packet, and the loop returns only when the connection is closed.\<close>

lemma handleSinglePacket_quiet:
  assumes ok: "deps_ok D V I J" and q: "quiet_handlers (handlerTable s)"
  shows "async_inv V I J a \<Longrightarrow> \<exists>evs b. handleSinglePacket D id s ctx a = Some (evs, a_closed a, b) \<and>
    calls evs = filter (has_handler (handlerTable s)) (undelivered V a)"
proof (induction "length (undelivered V a)" arbitrary: a rule: less_induct)
  case less
  show ?case
  proof (cases rule: Async_ReadPacket_undelivered [OF ok less.prems, case_names packet closed waits])
    case (packet p b)
    let ?c = "b\<lparr>packets := Put (poly D) (pkt_pool D) p (packets b)\<rparr>"
    have st: "single_step D id s ctx a = Returns (Some (map Called (filter (has_handler (handlerTable s)) [p]), False, ?c))"
      by (rule single_step_quiet [OF q packet(1)])
    have cl: "a_closed ?c = a_closed a"
      using packet(1) Async_ReadPacket_keeps_closed [OF packet(1)]
      by (auto simp: Async_ReadPacket_def split: list.splits if_splits blocking.splits sum.splits prod.splits)
    obtain evs d where "handleSinglePacket D id s ctx ?c = Some (evs, a_closed ?c, d)"
        "calls evs = filter (has_handler (handlerTable s)) (undelivered V ?c)"
      using less.hyps [OF _ put_inv [OF ok packet(2), of p]] packet(3) by auto
    then show ?thesis
      using st packet(3) cl by (subst handleSinglePacket.simps) simp
  next
    case closed
    obtain b where "Async_Close D a = Some (None, b)"
      by (rule Async_Close_undelivered [OF ok less.prems])
    then show ?thesis
      using closed by (subst handleSinglePacket.simps) (simp add: single_step_def close_and_report_def)
  next
    case waits
    then show ?thesis
      by (subst handleSinglePacket.simps) (simp add: single_step_def)
  qed
qed

section \<open>The accept loop's backoff\<close>

text \<open>What the loop sleeps on the \<open>n\<close>-th temporary error in a row, counted from zero.\<close>

definition backoff_after :: "nat \<Rightarrow> int" where
  "backoff_after n = min maxBackoff (minBackoff * 2 ^ n)"

lemma next_backoff_Suc: "next_backoff (backoff_after n) = backoff_after (Suc n)"
proof -
  have "0 < minBackoff" "0 < maxBackoff" "minBackoff \<le> minBackoff * 2 ^ n"
    by (simp_all add: minBackoff_def maxBackoff_def second_def millisecond_def)
  then show ?thesis
    by (auto simp: next_backoff_def backoff_after_def Let_def min_def)
qed

lemma next_backoff_0: "next_backoff 0 = backoff_after 0"
  by (simp add: next_backoff_def backoff_after_def minBackoff_def maxBackoff_def second_def millisecond_def)

lemma listener_retries:
  assumes "\<not> shutdown s" and "\<And>s. sleeps s = s"
  shows "handleListener sleeps (map (\<lambda>e. Failed e True) es) (backoff_after n) s =
    Some ([], map (\<lambda>i. backoff_after (Suc n + i)) [0..<length es], None, s)"
proof (induction es arbitrary: n)
  case (Cons e es)
  have "map (\<lambda>i. backoff_after (Suc n + i)) [0..<length (e # es)] =
      backoff_after (Suc n) # map (\<lambda>i. backoff_after (Suc (Suc n) + i)) [0..<length es]"
    by (simp add: upt_conv_Cons map_Suc_upt [symmetric] del: upt_Suc)
  then show ?case
    using Cons.IH [of "Suc n"] assms by (simp add: listener_step_def next_backoff_Suc Let_def)
qed simp

text \<open>The wait group grows by one for each served connection; the loop's own entry goes when it returns.\<close>

lemma handleListener_wg:
  assumes "\<And>s. sv_wg (sleeps s) = sv_wg s"
  shows "0 < sv_wg s \<Longrightarrow> \<exists>cs bs e s'. handleListener sleeps rs b s = Some (cs, bs, e, s') \<and>
    sv_wg s' + (if e = None then 0 else 1) = sv_wg s + length cs"
proof (induction rs arbitrary: b s)
  case (Cons r rs)
  show ?case
  proof (cases r)
    case (Accepted c)
    obtain cs bs e s' where "handleListener sleeps rs 0 (ServeConn s) = Some (cs, bs, e, s')"
        "sv_wg s' + (if e = None then 0 else 1) = sv_wg (ServeConn s) + length cs"
      using Cons.IH [of "ServeConn s" 0] by (auto simp: ServeConn_def)
    then show ?thesis
      using Accepted by (simp add: listener_step_def ServeConn_def)
  next
    case (Failed err temporary)
    obtain cs bs e s' where "handleListener sleeps rs (next_backoff b) (sleeps s) = Some (cs, bs, e, s')"
        "sv_wg s' + (if e = None then 0 else 1) = sv_wg s + length cs"
      using Cons.IH [of "sleeps s" "next_backoff b"] Cons.prems assms by auto
    then show ?thesis
      using Failed Cons.prems assms by (simp add: listener_step_def sv_Done_def Let_def)
  qed
qed simp

section \<open>Properties\<close>



text \<open>
  C36: temporary accept errors are retried with an exponential backoff. On the \<open>n\<close>-th error in a
  row the loop sleeps 5 ms doubled \<open>n\<close> times, but never more than one second, and it goes on.
\<close>

theorem accept_backoff:
  assumes "\<not> shutdown s"
  shows "handleListener id (map (\<lambda>e. Failed e True) es) 0 s =
    Some ([], map (\<lambda>n. min maxBackoff (minBackoff * 2 ^ n)) [0..<length es], None, s)"
proof (cases es)
  case (Cons e es')
  have "map (\<lambda>n. min maxBackoff (minBackoff * 2 ^ n)) [0..<length es] =
      backoff_after 0 # map (\<lambda>i. backoff_after (Suc 0 + i)) [0..<length es']"
    using Cons by (simp add: backoff_after_def upt_conv_Cons map_Suc_upt [symmetric] del: upt_Suc)
  then show ?thesis
    using Cons assms listener_retries [OF assms, of id es' 0]
    by (simp add: listener_step_def next_backoff_0 Let_def)
qed simp

text \<open>Witness: three temporary errors.\<close>

theorem accept_backoff_witness:
  "\<exists>s'. handleListener id [Failed (NetError 1) True, Failed (NetError 2) True, Failed (NetError 3) True] 0
      (snd (NewServer () () () Map.empty () []) :: (unit, byte list, unit, unit, unit, unit, unit) server) =
    Some ([], [5000000, 10000000, 20000000], None, s')"
  using accept_backoff [of "snd (NewServer () () () Map.empty () []) :: (unit, byte list, unit, unit, unit, unit, unit) server"
      "[NetError 1, NetError 2, NetError 3]"]
  by (simp add: NewServer_def SetHandlerTable_def reserved_used.simps guard_simps maxBackoff_def minBackoff_def
      second_def millisecond_def upt_rec numeral_2_eq_2)

text \<open>
  The accept loop keeps the server's wait group right: whatever \<open>Accept\<close> returns, no \<open>Done\<close>
  ever goes below zero, each accepted connection is counted once, and the loop's own entry is
  released exactly when it returns.
\<close>

lemma accept_wait_group:
  assumes "startedCh_closed s = False"
  shows "\<exists>cs bs e s'. StartWithListener id rs (Some l) s = Some (cs, bs, e, s') \<and>
    sv_wg s' + (if e = None then 0 else 1) = sv_wg s + 1 + length cs"
  using assms handleListener_wg [of id "s\<lparr>listener := Some l, sv_wg := sv_wg s + 1, startedCh_closed := True\<rparr>" rs 0]
  by (auto simp: StartWithListener_def)

lemma reserved_used_iff: "i \<le> RESERVED9 \<Longrightarrow> reserved_used ht i \<longleftrightarrow> (\<exists>j. i \<le> j \<and> j < RESERVED9 \<and> ht j \<noteq> None)"
proof (induction ht i rule: reserved_used.induct)
  case (1 ht i)
  show ?case
  proof (cases "i < RESERVED9")
    case True
    then have "i + 1 \<le> RESERVED9" "\<And>j. i \<le> j \<longleftrightarrow> j = i \<or> i + 1 \<le> j"
      by (auto simp: guard_simps word_le_nat_alt word_less_nat_alt unat_word_ariths word_unat_eq_iff)
    then show ?thesis
      using "1.IH" True by (subst reserved_used.simps) auto
  qed (auto simp: reserved_used.simps)
qed

text \<open>
  C37: the handler table check looks at the operations below \<open>RESERVED9\<close> only. A table is refused,
  and the old one kept, exactly when it has a key from 0 to 8; a handler for the reserved
  operation 9 is accepted.
\<close>

theorem SetHandlerTable_accepts:
  "SetHandlerTable ht s =
     (if \<exists>op<9. ht op \<noteq> None then (Some InvalidHandlerTable, s) else (None, s\<lparr>handlerTable := ht\<rparr>)) \<and>
   SetHandlerTable (Map.empty(RESERVED9 \<mapsto> h)) s = (None, s\<lparr>handlerTable := Map.empty(RESERVED9 \<mapsto> h)\<rparr>)"
  using reserved_used_iff [of 0 ht] reserved_used_iff [of 0 "Map.empty(RESERVED9 \<mapsto> h)"]
  by (auto simp: SetHandlerTable_def guard_simps)

end
