(* ===== verification/Server_Conc.thy ===== *)
theory Server_Conc
  imports Server Transitions
begin

text \<open>
  The goroutines that serve one connection concurrently: the reader of \<open>handleUnlimitedPacket\<close> or
  \<open>handleLimitedPacket\<close> and one goroutine of \<open>createHandler\<close> for each packet. Their interleavings
  are a step relation; every shared access (the connection's operations, the compare-and-swap of
  \<open>closed\<close>, the wait group, the limiter channel, the context) is one step.
\<close>

section \<open>Program points and state\<close>

text \<open>
  The reader: the first read with its own error branch, then reading a packet, holding one to hand
  over (for the limited variant at its select), then on an error or a cancelled context closing the
  connection, swapping \<open>closed\<close>, reporting, cancelling and waiting. The flag says whether the branch
  calls \<open>cancel()\<close>.
\<close>

datatype 'c reader =
    First
  | FirstClosing goerror
  | FirstReporting goerror
  | FirstFinished
  | Reading
  | Handing "'c packet"
  | Closing bool "goerror option"
  | Swapping bool "goerror option"
  | Reporting bool "goerror option"
  | Cancelling
  | Waiting
  | Finished

datatype 'c worker =
    Handling "'c packet"
  | WClosing "goerror option"
  | WSwapping "goerror option"
  | WReporting "goerror option"
  | WCancelling
  | Releasing
  | Returning_token
  | Gone

text \<open>
  \<open>c_tokens\<close> are the limiter's tokens held by this connection, \<open>c_others\<close> those of other
  connections; both are in the same channel.
\<close>

record ('c, 'q, 'pl, 'bl, 'h) conc =
  c_conn :: "('c, 'q, 'pl, 'bl, 'h) async"
  c_closed :: bool
  c_done :: bool
  c_reader :: "'c reader"
  c_workers :: "'c worker list"
  c_wg :: nat
  c_tokens :: nat
  c_others :: nat
  c_reports :: "goerror option list"

section \<open>Steps\<close>

text \<open>
  The slots of the limiter, when the connection is served by \<open>handleLimitedPacket\<close>; \<open>None\<close> when it is
  served by \<open>handleUnlimitedPacket\<close>. A concurrency of 1 selects \<open>handleSinglePacket\<close>, which has no
  goroutines of its own.
\<close>

definition slots :: "('ctx, 'c, 'l, 't, 'f, 'oc, 'pw) server \<Rightarrow> nat option" where
  "slots s = (if concurrency s = 0 then None else limiter s)"

text \<open>What a worker does after its handler.\<close>

definition after_handler :: "handled \<Rightarrow> 'c worker" where
  "after_handler r =
     (case r of WriteErr e \<Rightarrow> WClosing (Some e) | Acts CLOSE \<Rightarrow> WClosing None | _ \<Rightarrow> Releasing)"

inductive conc_step ::
    "('c, 'q, 'pl, 'bl) deps \<Rightarrow> ('q, 'c packet) queue_view \<Rightarrow> ('pl \<Rightarrow> bool) \<Rightarrow> ('bl \<Rightarrow> bool)
      \<Rightarrow> ('ctx, 'c, 'l, 't, 'f, 'oc, 'pw) server \<Rightarrow> 'ctx
      \<Rightarrow> ('c, 'q, 'pl, 'bl, 'h) conc \<Rightarrow> ('c, 'q, 'pl, 'bl, 'h) conc \<Rightarrow> bool"
  for D V I J s ctx where
  first_packet: "c_reader x = First \<Longrightarrow> Async_ReadPacket D id (c_conn x) = Returns (Inr p, a) \<Longrightarrow>
    conc_step D V I J s ctx x (x\<lparr>c_conn := a, c_reader := Handing p\<rparr>)"
| first_error: "c_reader x = First \<Longrightarrow> Async_ReadPacket D id (c_conn x) = Returns (Inl e, a) \<Longrightarrow>
    conc_step D V I J s ctx x (x\<lparr>c_conn := a, c_reader := FirstClosing e\<rparr>)"
| first_close: "c_reader x = FirstClosing e \<Longrightarrow> Async_Close D (c_conn x) = Some (err, a) \<Longrightarrow>
    conc_step D V I J s ctx x (x\<lparr>c_conn := a, c_reader := FirstReporting e\<rparr>)"
| first_report: "c_reader x = FirstReporting e \<Longrightarrow>
    conc_step D V I J s ctx x (x\<lparr>c_reader := FirstFinished, c_reports := c_reports x @ [Some e]\<rparr>)"
| read_packet: "c_reader x = Reading \<Longrightarrow> Async_ReadPacket D id (c_conn x) = Returns (Inr p, a) \<Longrightarrow>
    conc_step D V I J s ctx x (x\<lparr>c_conn := a, c_reader := Handing p\<rparr>)"
| read_error: "c_reader x = Reading \<Longrightarrow> Async_ReadPacket D id (c_conn x) = Returns (Inl e, a) \<Longrightarrow>
    conc_step D V I J s ctx x (x\<lparr>c_conn := a, c_reader := Closing True (Some e)\<rparr>)"
| spawn: "c_reader x = Handing p \<Longrightarrow> slots s = None \<Longrightarrow>
    conc_step D V I J s ctx x (x\<lparr>c_reader := Reading, c_workers := c_workers x @ [Handling p],
      c_wg := c_wg x + 1\<rparr>)"
| spawn_limited: "c_reader x = Handing p \<Longrightarrow> slots s = Some cap \<Longrightarrow> c_tokens x + c_others x < cap \<Longrightarrow>
    conc_step D V I J s ctx x (x\<lparr>c_reader := Reading, c_workers := c_workers x @ [Handling p],
      c_wg := c_wg x + 1, c_tokens := c_tokens x + 1\<rparr>)"
| context_done: "c_reader x = Handing p \<Longrightarrow> slots s = Some cap \<Longrightarrow> c_done x \<Longrightarrow>
    conc_step D V I J s ctx x (x\<lparr>c_reader := Closing False None\<rparr>)"
| reader_close: "c_reader x = Closing c e \<Longrightarrow> Async_Close D (c_conn x) = Some (err, a) \<Longrightarrow>
    conc_step D V I J s ctx x (x\<lparr>c_conn := a, c_reader := Swapping c e\<rparr>)"
| reader_swap: "c_reader x = Swapping c e \<Longrightarrow>
    conc_step D V I J s ctx x (if c_closed x then x\<lparr>c_reader := if c then Cancelling else Waiting\<rparr>
      else x\<lparr>c_closed := True, c_reader := Reporting c e\<rparr>)"
| reader_report: "c_reader x = Reporting c e \<Longrightarrow>
    conc_step D V I J s ctx x (x\<lparr>c_reader := if c then Cancelling else Waiting, c_reports := c_reports x @ [e]\<rparr>)"
| reader_cancel: "c_reader x = Cancelling \<Longrightarrow>
    conc_step D V I J s ctx x (x\<lparr>c_done := True, c_reader := Waiting\<rparr>)"
| reader_wait: "c_reader x = Waiting \<Longrightarrow> c_wg x = 0 \<Longrightarrow>
    conc_step D V I J s ctx x (x\<lparr>c_reader := Finished\<rparr>)"
| handle: "i < length (c_workers x) \<Longrightarrow> c_workers x ! i = Handling p \<Longrightarrow>
    handle_packet D id [PreWrite] (handlerTable s) (PacketContext s) ctx p (c_conn x) = Some (r, evs, a) \<Longrightarrow>
    conc_step D V I J s ctx x (x\<lparr>c_conn := a, c_workers := (c_workers x)[i := after_handler r]\<rparr>)"
| worker_close: "i < length (c_workers x) \<Longrightarrow> c_workers x ! i = WClosing e \<Longrightarrow>
    Async_Close D (c_conn x) = Some (err, a) \<Longrightarrow>
    conc_step D V I J s ctx x (x\<lparr>c_conn := a, c_workers := (c_workers x)[i := WSwapping e]\<rparr>)"
| worker_swap: "i < length (c_workers x) \<Longrightarrow> c_workers x ! i = WSwapping e \<Longrightarrow>
    conc_step D V I J s ctx x (if c_closed x then x\<lparr>c_workers := (c_workers x)[i := WCancelling]\<rparr>
      else x\<lparr>c_closed := True, c_workers := (c_workers x)[i := WReporting e]\<rparr>)"
| worker_report: "i < length (c_workers x) \<Longrightarrow> c_workers x ! i = WReporting e \<Longrightarrow>
    conc_step D V I J s ctx x (x\<lparr>c_workers := (c_workers x)[i := WCancelling], c_reports := c_reports x @ [e]\<rparr>)"
| worker_cancel: "i < length (c_workers x) \<Longrightarrow> c_workers x ! i = WCancelling \<Longrightarrow>
    conc_step D V I J s ctx x (x\<lparr>c_done := True, c_workers := (c_workers x)[i := Releasing]\<rparr>)"
| release: "i < length (c_workers x) \<Longrightarrow> c_workers x ! i = Releasing \<Longrightarrow> 0 < c_wg x \<Longrightarrow>
    conc_step D V I J s ctx x (x\<lparr>c_wg := c_wg x - 1,
      c_workers := (c_workers x)[i := if slots s = None then Gone else Returning_token]\<rparr>)"
| return_token: "i < length (c_workers x) \<Longrightarrow> c_workers x ! i = Returning_token \<Longrightarrow>
    0 < c_tokens x + c_others x \<Longrightarrow>
    conc_step D V I J s ctx x (x\<lparr>c_workers := (c_workers x)[i := Gone], c_tokens := c_tokens x - 1\<rparr>)"
| network: "async_inv V I J a \<Longrightarrow> (a_closed (c_conn x) \<Longrightarrow> a_closed a) \<Longrightarrow>
    conc_step D V I J s ctx x (x\<lparr>c_conn := a\<rparr>)"
| others: "slots s = Some cap \<Longrightarrow> c_tokens x + n \<le> cap \<Longrightarrow>
    conc_step D V I J s ctx x (x\<lparr>c_others := n\<rparr>)"
| base_cancelled: "conc_step D V I J s ctx x (x\<lparr>c_done := True\<rparr>)"

definition conc_init ::
    "('q, 'c packet) queue_view \<Rightarrow> ('pl \<Rightarrow> bool) \<Rightarrow> ('bl \<Rightarrow> bool) \<Rightarrow> ('ctx, 'c, 'l, 't, 'f, 'oc, 'pw) server
      \<Rightarrow> ('c, 'q, 'pl, 'bl, 'h) conc \<Rightarrow> bool" where
  "conc_init V I J s x \<longleftrightarrow> async_inv V I J (c_conn x) \<and> \<not> c_closed x \<and> c_reader x = First \<and> c_workers x = [] \<and>
     c_wg x = 0 \<and> c_tokens x = 0 \<and> c_reports x = [] \<and> (\<forall>cap. slots s = Some cap \<longrightarrow> c_others x \<le> cap)"

section \<open>Invariant\<close>

fun counted :: "'c worker \<Rightarrow> bool" where
  "counted Returning_token = False"
| "counted Gone = False"
| "counted _ = True"

fun holds_token :: "'c worker \<Rightarrow> bool" where
  "holds_token Gone = False"
| "holds_token _ = True"

fun is_Returning :: "'c worker \<Rightarrow> bool" where
  "is_Returning Returning_token = True"
| "is_Returning _ = False"

fun is_WReporting :: "'c worker \<Rightarrow> bool" where
  "is_WReporting (WReporting _) = True"
| "is_WReporting _ = False"

fun is_Reporting :: "'c reader \<Rightarrow> bool" where
  "is_Reporting (Reporting _ _) = True"
| "is_Reporting _ = False"

text \<open>The reader is past closing the connection, and past the swap.\<close>

fun past_close :: "'c reader \<Rightarrow> bool" where
  "past_close (FirstReporting _) = True"
| "past_close FirstFinished = True"
| "past_close (Swapping _ _) = True"
| "past_close (Reporting _ _) = True"
| "past_close Cancelling = True"
| "past_close Waiting = True"
| "past_close Finished = True"
| "past_close _ = False"

fun past_swap :: "'c reader \<Rightarrow> bool" where
  "past_swap (Swapping _ _) = False"
| "past_swap (FirstReporting _) = False"
| "past_swap FirstFinished = False"
| "past_swap r = past_close r"

text \<open>The branch of the first read, in which no worker exists yet.\<close>

fun first_branch :: "'c reader \<Rightarrow> bool" where
  "first_branch First = True"
| "first_branch (FirstClosing _) = True"
| "first_branch (FirstReporting _) = True"
| "first_branch FirstFinished = True"
| "first_branch _ = False"

definition conc_inv ::
    "('q, 'c packet) queue_view \<Rightarrow> ('pl \<Rightarrow> bool) \<Rightarrow> ('bl \<Rightarrow> bool) \<Rightarrow> ('ctx, 'c, 'l, 't, 'f, 'oc, 'pw) server
      \<Rightarrow> ('c, 'q, 'pl, 'bl, 'h) conc \<Rightarrow> bool" where
  "conc_inv V I J s x \<longleftrightarrow> async_inv V I J (c_conn x) \<and>
     c_wg x = number counted (c_workers x) \<and>
     c_tokens x = (if slots s = None then 0 else number holds_token (c_workers x)) \<and>
     (\<forall>cap. slots s = Some cap \<longrightarrow> c_tokens x + c_others x \<le> cap) \<and>
     length (c_reports x) + number is_WReporting (c_workers x) + (if is_Reporting (c_reader x) then 1 else 0) =
       (if c_closed x \<or> c_reader x = FirstFinished then 1 else 0) \<and>
     (slots s = None \<longrightarrow> number is_Returning (c_workers x) = 0) \<and>
     (first_branch (c_reader x) \<longrightarrow> c_workers x = [] \<and> \<not> c_closed x) \<and>
     (past_close (c_reader x) \<longrightarrow> a_closed (c_conn x)) \<and>
     (past_swap (c_reader x) \<longrightarrow> c_closed x) \<and>
     (c_reader x = Finished \<longrightarrow> c_wg x = 0)"

lemma conc_invD:
  assumes "conc_inv V I J s x"
  shows "c_wg x = number counted (c_workers x)"
    and "c_tokens x = (if slots s = None then 0 else number holds_token (c_workers x))"
    and "slots s = Some cap \<Longrightarrow> c_tokens x + c_others x \<le> cap"
    and "length (c_reports x) + number is_WReporting (c_workers x) + (if is_Reporting (c_reader x) then 1 else 0) =
       (if c_closed x \<or> c_reader x = FirstFinished then 1 else 0)"
    and "slots s = None \<Longrightarrow> number is_Returning (c_workers x) = 0"
    and "first_branch (c_reader x) \<Longrightarrow> c_workers x = []"
    and "past_close (c_reader x) \<Longrightarrow> a_closed (c_conn x)"
    and "past_swap (c_reader x) \<Longrightarrow> c_closed x"
    and "c_reader x = Finished \<Longrightarrow> c_wg x = 0"
  using assms unfolding conc_inv_def by blast+

text \<open>A worker's move keeps the counters in step.\<close>

lemma move_worker:
  assumes "i < length ws"
  shows "number counted (ws[i := w]) + (if counted (ws ! i) then 1 else 0) = number counted ws + (if counted w then 1 else 0)"
    and "number holds_token (ws[i := w]) + (if holds_token (ws ! i) then 1 else 0) =
      number holds_token ws + (if holds_token w then 1 else 0)"
    and "number is_WReporting (ws[i := w]) + (if is_WReporting (ws ! i) then 1 else 0) =
      number is_WReporting ws + (if is_WReporting w then 1 else 0)"
    and "number is_Returning (ws[i := w]) + (if is_Returning (ws ! i) then 1 else 0) =
      number is_Returning ws + (if is_Returning w then 1 else 0)"
  using number_update [OF assms] by blast+

lemma after_handler_cases:
  obtains e where "after_handler r = WClosing e" | "after_handler r = Releasing"
  by (cases r; cases "r = Acts CLOSE") (auto simp: after_handler_def split: Action.splits)

lemma conc_inv_step:
  assumes ok: "deps_ok D V I J"
  shows "conc_inv V I J s x \<Longrightarrow> conc_step D V I J s ctx x y \<Longrightarrow> conc_inv V I J s y"
proof (rotate_tac, induction rule: conc_step.induct)
  case (first_packet x p a)
  then show ?case
    using Async_ReadPacket_keeps [OF ok _ first_packet(2)] by (cases "slots s") (auto simp: conc_inv_def split: if_splits)
next
  case (first_error x e a)
  then show ?case
    using Async_ReadPacket_keeps [OF ok _ first_error(2)] by (cases "slots s") (auto simp: conc_inv_def split: if_splits)
next
  case (first_close x e err a)
  then show ?case
    using Async_Close_keeps [OF ok _ first_close(2)] by (cases "slots s") (auto simp: conc_inv_def split: if_splits)
next
  case (read_packet x p a)
  then show ?case
    using Async_ReadPacket_keeps [OF ok _ read_packet(2)] by (cases "slots s") (auto simp: conc_inv_def split: if_splits)
next
  case (read_error x e a)
  then show ?case
    using Async_ReadPacket_keeps [OF ok _ read_error(2)] by (cases "slots s") (auto simp: conc_inv_def split: if_splits)
next
  case (reader_close x c e err a)
  then show ?case
    using Async_Close_keeps [OF ok _ reader_close(2)] by (cases "slots s") (auto simp: conc_inv_def split: if_splits)
next
  case (handle i x p r evs a)
  have m: "async_inv V I J a" "a_closed (c_conn x) \<Longrightarrow> a_closed a"
    using handle_packet_keeps [OF ok _ _ _ handle(3)] handle_packet_keeps_closed [OF ok _ _ handle(3)] handle(4)
    by (auto simp: conc_inv_def)
  show ?case
  proof (rule after_handler_cases [of r])
    fix e
    assume eq: "after_handler r = (WClosing e :: 'a worker)"
    show ?case
      using handle(2,4) m move_worker [OF handle(1), of "WClosing e"] unfolding eq
      by (cases "slots s") (auto simp: conc_inv_def split: if_splits)
  next
    assume eq: "after_handler r = (Releasing :: 'a worker)"
    show ?case
      using handle(2,4) m move_worker [OF handle(1), of Releasing] unfolding eq
      by (cases "slots s") (auto simp: conc_inv_def split: if_splits)
  qed
next
  case (worker_close i x e err a)
  then show ?case
    using Async_Close_keeps [OF ok _ worker_close(3)] move_worker [OF worker_close(1), of "WSwapping e"]
    by (cases "slots s") (auto simp: conc_inv_def split: if_splits)
next
  case (worker_swap i x e)
  then show ?case
    using move_worker [OF worker_swap(1), of WCancelling] move_worker [OF worker_swap(1), of "WReporting e"]
    by (cases "slots s") (auto simp: conc_inv_def split: if_splits)
next
  case (worker_report i x e)
  then show ?case
    using move_worker [OF worker_report(1), of WCancelling] by (cases "slots s") (auto simp: conc_inv_def split: if_splits)
next
  case (worker_cancel i x)
  then show ?case
    using move_worker [OF worker_cancel(1), of Releasing] by (cases "slots s") (auto simp: conc_inv_def split: if_splits)
next
  case (release i x)
  then show ?case
    using move_worker [OF release(1), of Gone] move_worker [OF release(1), of Returning_token]
    by (cases "slots s") (auto simp: conc_inv_def split: if_splits)
next
  case (return_token i x)
  then show ?case
    using move_worker [OF return_token(1), of Gone] by (cases "slots s") (auto simp: conc_inv_def split: if_splits)
qed (cases "slots s"; auto simp: conc_inv_def split: if_splits)+

text \<open>The step relation as an invariant system, under the laws of the third-party code.\<close>

interpretation conc: invariant_system
  "\<lambda>x. deps_ok D V I J \<and> conc_init V I J s x" "conc_step D V I J s ctx" "\<lambda>x. deps_ok D V I J \<and> conc_inv V I J s x"
proof (unfold_locales, goal_cases)
  case (1 x)
  then show ?case by (auto simp: conc_init_def conc_inv_def)
next
  case (2 x y)
  then have "deps_ok D V I J" "conc_inv V I J s x" "conc_step D V I J s ctx x y" by simp_all
  then show ?case by (simp add: conc_inv_step)
qed

lemma conc_reachable_inv:
  assumes "deps_ok D V I J" and "reachable (conc_init V I J s) (conc_step D V I J s ctx) x"
  shows "conc_inv V I J s x"
  using conc.always [of D V I J s ctx x] assms by simp

lemma conc_reachable_steps:
  assumes "deps_ok D V I J" and "conc_inv V I J s x" and "(conc_step D V I J s ctx)\<^sup>*\<^sup>* x y"
  shows "conc_inv V I J s y"
  using assms(3,2) by (induction rule: rtranclp_induct) (auto intro: conc_inv_step [OF assms(1)])

section \<open>Progress\<close>

text \<open>How many of its own steps a worker is away from its end, and the reader of a closing branch.\<close>

fun rank :: "'c worker \<Rightarrow> nat" where
  "rank (Handling _) = 7"
| "rank (WClosing _) = 6"
| "rank (WSwapping _) = 5"
| "rank (WReporting _) = 4"
| "rank WCancelling = 3"
| "rank Releasing = 2"
| "rank Returning_token = 1"
| "rank Gone = 0"

lemma rank_0: "rank w = 0 \<longleftrightarrow> w = Gone"
  by (cases w) auto

lemma rank_after_handler: "rank (after_handler r) < 7"
  by (cases r; cases "r = Acts CLOSE") (auto simp: after_handler_def split: Action.splits)

lemma worker_moves:
  assumes ok: "deps_ok D V I J" and inv: "conc_inv V I J s x" and i: "i < length (c_workers x)"
    and busy: "c_workers x ! i \<noteq> Gone"
  obtains y w where "conc_step D V I J s ctx x y" and "c_workers y = (c_workers x)[i := w]"
    and "rank w < rank (c_workers x ! i)" and "c_reader y = c_reader x"
proof (cases "c_workers x ! i")
  case (Handling p)
  have "async_inv V I J (c_conn x)"
    using inv by (simp add: conc_inv_def)
  then obtain r evs a where h: "handle_packet D id [PreWrite] (handlerTable s) (PacketContext s) ctx p (c_conn x) = Some (r, evs, a)"
    using handle_packet_spec [OF ok, of "c_conn x" "[PreWrite]" "handlerTable s" "PacketContext s" ctx p] by auto
  then show ?thesis
    using that [OF conc_step.handle [OF i Handling h]] Handling by (simp add: rank_after_handler)
next
  case (WClosing e)
  have "async_inv V I J (c_conn x)"
    using inv by (simp add: conc_inv_def)
  then obtain err a where "Async_Close D (c_conn x) = Some (err, a)"
    by (rule Async_Close_total [OF ok]) simp
  then show ?thesis
    using that [OF conc_step.worker_close [OF i WClosing]] WClosing by simp
next
  case (WSwapping e)
  then show ?thesis
    using that [OF conc_step.worker_swap [OF i WSwapping]] by (cases "c_closed x") simp_all
next
  case (WReporting e)
  then show ?thesis
    using that [OF conc_step.worker_report [OF i WReporting]] by simp
next
  case WCancelling
  then show ?thesis
    using that [OF conc_step.worker_cancel [OF i WCancelling]] by simp
next
  case Releasing
  then have "0 < c_wg x"
    using inv number_pos [OF i, of counted] by (simp add: conc_inv_def)
  then show ?thesis
    using that [OF conc_step.release [OF i Releasing]] Releasing by simp
next
  case Returning_token
  then have "slots s \<noteq> None \<Longrightarrow> 0 < c_tokens x"
    using inv number_pos [OF i, of holds_token] by (simp add: conc_inv_def)
  moreover have "slots s \<noteq> None"
    using inv number_pos [OF i, of is_Returning] Returning_token by (auto simp: conc_inv_def)
  ultimately show ?thesis
    using that [OF conc_step.return_token [OF i Returning_token]] Returning_token by simp
qed (use busy in simp)

text \<open>All workers can run to their end, whatever the reader does.\<close>

interpretation workers: ranked_progress "conc_step D V I J s ctx"
  "\<lambda>x. deps_ok D V I J \<and> conc_inv V I J s x \<and> c_reader x = r" "\<lambda>x. \<forall>w\<in>set (c_workers x). w = Gone"
  "\<lambda>x. sum_list (map rank (c_workers x))"
proof (unfold_locales, goal_cases)
  case (1 x)
  then have ok: "deps_ok D V I J" and inv: "conc_inv V I J s x" and r: "c_reader x = r"
    by simp_all
  obtain i where i: "i < length (c_workers x)" "c_workers x ! i \<noteq> Gone"
    using 1(2) by (auto simp: in_set_conv_nth)
  obtain y w where y: "conc_step D V I J s ctx x y" "c_workers y = (c_workers x)[i := w]"
      "rank w < rank (c_workers x ! i)" "c_reader y = c_reader x"
    by (rule worker_moves [OF ok inv i])
  then show ?case
    using conc_inv_step [OF ok inv y(1)] rank_update [OF i(1), of rank w] ok r by (intro exI [of _ y]) simp
qed

text \<open>The reader in a branch that returns, and how far it is from the end.\<close>

fun reader_rank :: "'c reader \<Rightarrow> nat" where
  "reader_rank (FirstClosing _) = 3"
| "reader_rank (FirstReporting _) = 2"
| "reader_rank (Closing _ _) = 6"
| "reader_rank (Swapping _ _) = 5"
| "reader_rank (Reporting _ _) = 4"
| "reader_rank Cancelling = 3"
| "reader_rank Waiting = 2"
| "reader_rank _ = 0"

definition returned :: "'c reader \<Rightarrow> bool" where
  "returned r \<longleftrightarrow> r = Finished \<or> r = FirstFinished"

fun returning :: "'c reader \<Rightarrow> bool" where
  "returning First = False"
| "returning Reading = False"
| "returning (Handing _) = False"
| "returning _ = True"

lemma reader_moves:
  assumes ok: "deps_ok D V I J" and inv: "conc_inv V I J s x" and r: "returning (c_reader x)" "\<not> returned (c_reader x)"
    and gone: "\<forall>w\<in>set (c_workers x). w = Gone"
  obtains y where "conc_step D V I J s ctx x y" and "c_workers y = c_workers x" and "returning (c_reader y)"
    and "reader_rank (c_reader y) < reader_rank (c_reader x)"
proof -
  have wg: "c_wg x = 0"
    using inv gone by (auto simp: conc_inv_def number_0)
  have "async_inv V I J (c_conn x)"
    using inv by (simp add: conc_inv_def)
  then obtain err a where cl: "Async_Close D (c_conn x) = Some (err, a)"
    by (rule Async_Close_total [OF ok]) simp
  show ?thesis
  proof (cases "c_reader x")
    case (FirstClosing e)
    then show ?thesis using that [OF conc_step.first_close [OF FirstClosing cl]] by simp
  next
    case (FirstReporting e)
    then show ?thesis using that [OF conc_step.first_report [OF FirstReporting]] by simp
  next
    case (Closing c e)
    then show ?thesis using that [OF conc_step.reader_close [OF Closing cl]] by simp
  next
    case (Swapping c e)
    then show ?thesis using that [OF conc_step.reader_swap [OF Swapping]] by (cases "c_closed x") simp_all
  next
    case (Reporting c e)
    then show ?thesis using that [OF conc_step.reader_report [OF Reporting]] by simp
  next
    case Cancelling
    then show ?thesis using that [OF conc_step.reader_cancel [OF Cancelling]] by simp
  next
    case Waiting
    then show ?thesis using that [OF conc_step.reader_wait [OF Waiting wg]] by simp
  qed (use r in \<open>simp_all add: returned_def\<close>)
qed

interpretation reader: ranked_progress "conc_step D V I J s ctx"
  "\<lambda>x. deps_ok D V I J \<and> conc_inv V I J s x \<and> returning (c_reader x) \<and> (\<forall>w\<in>set (c_workers x). w = Gone)"
  "\<lambda>x. returned (c_reader x)" "\<lambda>x. reader_rank (c_reader x)"
proof (unfold_locales, goal_cases)
  case (1 x)
  then have ok: "deps_ok D V I J" and inv: "conc_inv V I J s x" and r: "returning (c_reader x)"
      and gone: "\<forall>w\<in>set (c_workers x). w = Gone"
    by simp_all
  obtain y where y: "conc_step D V I J s ctx x y" "c_workers y = c_workers x" "returning (c_reader y)"
      "reader_rank (c_reader y) < reader_rank (c_reader x)"
    by (rule reader_moves [OF ok inv r 1(2) gone])
  then show ?case
    using conc_inv_step [OF ok inv y(1)] ok gone by (intro exI [of _ y]) simp
qed

lemma returning_returns:
  assumes "deps_ok D V I J" and "conc_inv V I J s x" and "returning (c_reader x)"
  shows "\<exists>y. (conc_step D V I J s ctx)\<^sup>*\<^sup>* x y \<and> returned (c_reader y) \<and> (\<forall>w\<in>set (c_workers y). w = Gone)"
proof -
  obtain y where y: "(conc_step D V I J s ctx)\<^sup>*\<^sup>* x y" "conc_inv V I J s y"
      "c_reader y = c_reader x" "\<forall>w\<in>set (c_workers y). w = Gone"
    using workers.reaches [of D V I J s x "c_reader x" ctx] assms by blast
  then obtain z where "(conc_step D V I J s ctx)\<^sup>*\<^sup>* y z" "returned (c_reader z)" "\<forall>w\<in>set (c_workers z). w = Gone"
    using reader.reaches [of D V I J s y ctx] assms(1,3) by auto
  then show ?thesis
    using y(1) rtranclp_trans [of "conc_step D V I J s ctx" x y z] by blast
qed

section \<open>A concrete run\<close>

text \<open>
  A server with two slots whose handler closes, one queued packet: the handler goroutine is started,
  then the peer goes away and the reader meets the closed connection.
\<close>

definition example_server :: "(unit, byte list, unit, unit, unit, unit, unit) server" where
  "example_server = the (SetConcurrency 2
     (snd (NewServer () () () (Map.empty(12 \<mapsto> Some (\<lambda>_ _. (NoPacket, CLOSE)))) () [])))"

abbreviation example_conn :: "byte list packet list \<Rightarrow> (byte list, list_queue, packets_pool, buffers_pool, nat) async" where
  "example_conn ps \<equiv> (list_async [] None)\<lparr>incoming := (10, False, ps)\<rparr>"

abbreviation example_step ::
    "(byte list, list_queue, packets_pool, buffers_pool, nat) conc \<Rightarrow> (byte list, list_queue, packets_pool, buffers_pool, nat) conc \<Rightarrow> bool" where
  "example_step \<equiv> conc_step (list_deps 0) list_view good_packets good_buffers example_server ()"

abbreviation example_reachable :: "(byte list, list_queue, packets_pool, buffers_pool, nat) conc \<Rightarrow> bool" where
  "example_reachable \<equiv> reachable (conc_init list_view good_packets good_buffers example_server) example_step"

lemma example_limiter: "slots example_server = Some 2"
  by (simp add: slots_def example_server_def SetConcurrency_def Let_def)

lemma closed_example:
  obtains a :: "(byte list, list_queue, packets_pool, buffers_pool, nat) async" where "async_inv list_view good_packets good_buffers a" and "a_closed a"
    and "Async_ReadPacket (list_deps 0) id a = Returns (Inl ConnectionClosed, a)"
proof -
  obtain a :: "(byte list, list_queue, packets_pool, buffers_pool, nat) async" where a: "async_inv list_view good_packets good_buffers a" "a_closed a"
      "undelivered list_view a = undelivered list_view (list_async [] None)"
    by (rule close_and_report_spec [OF list_deps_ok [of 0] list_async_inv [of "[]" None], of "[]"]) auto
  then have "undelivered list_view a = []"
    by (simp add: undelivered_def list_view_def list_circular_def)
  then show ?thesis
    using that a by (cases rule: Async_ReadPacket_undelivered [OF list_deps_ok [of 0] a(1), case_names packet closed waits]) auto
qed

lemma example_run:
  obtains x y p where "example_reachable x" and "c_workers x = [Handling p]" and "c_reader x = Reading"
    and "example_step x y" and "returning (c_reader y)" and "c_workers y = [Handling p]"
proof -
  let ?p = "hd example_packets"
  let ?x = "\<lparr>c_conn = example_conn [?p], c_closed = False, c_done = False, c_reader = First, c_workers = [], c_wg = 0,
     c_tokens = 0, c_others = 0, c_reports = []\<rparr>"
  let ?y = "?x\<lparr>c_conn := example_conn [], c_reader := Handing ?p\<rparr>"
  let ?z = "?y\<lparr>c_reader := Reading, c_workers := [Handling ?p], c_wg := 1, c_tokens := 1\<rparr>"
  obtain a :: "(byte list, list_queue, packets_pool, buffers_pool, nat) async" where a: "async_inv list_view good_packets good_buffers a" "a_closed a"
      "Async_ReadPacket (list_deps 0) id a = Returns (Inl ConnectionClosed, a)"
    by (rule closed_example)
  have "async_inv list_view good_packets good_buffers (example_conn ps)" if "length ps < 10" for ps
    using list_async_inv [of "[]" None] that by (simp add: inv_defs list_view_def)
  then have "example_reachable ?x"
    by (intro reachable.start) (simp add: conc_init_def)
  moreover have "example_step ?x ?y"
    using conc_step.first_packet [of ?x "list_deps 0" ?p "example_conn []" list_view good_packets good_buffers example_server "()"]
    by (simp add: Async_ReadPacket_def list_deps_def list_circular_def)
  moreover have "example_step ?y ?z"
    using conc_step.spawn_limited [of ?y ?p example_server 2 "list_deps 0" list_view good_packets good_buffers "()"]
    by (simp add: example_limiter)
  moreover have "example_step ?z (?z\<lparr>c_conn := a\<rparr>)"
    by (rule conc_step.network) (use a in simp_all)
  ultimately have z: "example_reachable (?z\<lparr>c_conn := a\<rparr>)"
    by (blast intro: reachable.more)
  have st: "example_step (?z\<lparr>c_conn := a\<rparr>) (?z\<lparr>c_conn := a, c_reader := Closing True (Some ConnectionClosed)\<rparr>)"
    using conc_step.read_error [of "?z\<lparr>c_conn := a\<rparr>" "list_deps 0" ConnectionClosed a] a(3) by simp
  show ?thesis
    by (rule that [OF z _ _ st]) simp_all
qed

section \<open>Properties\<close>

text \<open>
  C7: whatever the interleaving of the reader, the handler goroutines, the network, other
  connections and a cancellation, \<open>onClosed\<close> is called at most once for a connection. When the serving
  function has returned, it was called exactly once, the connection is closed, and no handler
  is running.
\<close>

theorem conc_reports_once:
  assumes "deps_ok D V I J" and "reachable (conc_init V I J s) (conc_step D V I J s ctx) x"
  shows "length (c_reports x) \<le> 1 \<and>
    (returned (c_reader x) \<longrightarrow> length (c_reports x) = 1 \<and> a_closed (c_conn x) \<and>
       (\<forall>w\<in>set (c_workers x). w = Returning_token \<or> w = Gone))"
proof -
  have inv: "conc_inv V I J s x"
    by (rule conc_reachable_inv [OF assms])
  have le: "number is_WReporting (c_workers x) \<le> number counted (c_workers x)"
    by (rule number_mono) (auto elim: is_WReporting.elims)
  have uncounted: "\<not> counted w \<longleftrightarrow> w = Returning_token \<or> w = Gone" for w :: "'a worker"
    by (cases w) auto
  have "length (c_reports x) \<le> 1"
    using conc_invD(4) [OF inv] by (simp split: if_splits)
  moreover have "length (c_reports x) = 1 \<and> a_closed (c_conn x) \<and> number counted (c_workers x) = 0" if "c_reader x = Finished"
    using conc_invD(1,4,7-9) [OF inv] le that by simp
  moreover have "length (c_reports x) = 1 \<and> a_closed (c_conn x) \<and> number counted (c_workers x) = 0" if "c_reader x = FirstFinished"
    using conc_invD(4,6,7) [OF inv] that by simp
  ultimately show ?thesis
    unfolding returned_def number_0 uncounted by blast
qed

text \<open>Witness: the concrete run, continued until the serving function has returned.\<close>

theorem conc_reports_once_witness:
  "\<exists>x. example_reachable x \<and> returned (c_reader x) \<and> length (c_reports x) = 1 \<and> a_closed (c_conn x)"
proof -
  obtain x y p where r: "example_reachable x" "example_step x y" "returning (c_reader y)"
    by (rule example_run)
  have y: "example_reachable y"
    by (rule reachable.more [OF r(1,2)])
  obtain z where z: "example_step\<^sup>*\<^sup>* y z" "returned (c_reader z)"
    using returning_returns [OF list_deps_ok conc_reachable_inv [OF list_deps_ok y] r(3)] by blast
  have "example_reachable z"
    by (rule reachable_steps [OF y z(1)])
  then show ?thesis
    using conc_reports_once [OF list_deps_ok [of 0], of example_server "()" z] z(2) by blast
qed

text \<open>
  C17: the limiter bounds the handler goroutines of all connections together, and the
  synchronisation is balanced: when a handler releases the wait group the counter is positive, and
  when it takes its token back the channel is not empty, so it neither panics nor blocks.
\<close>

theorem conc_limited:
  assumes "deps_ok D V I J" and "reachable (conc_init V I J s) (conc_step D V I J s ctx) x"
  shows "(slots s = Some cap \<longrightarrow> number (\<lambda>w. w \<noteq> Gone) (c_workers x) + c_others x \<le> cap) \<and>
    (Releasing \<in> set (c_workers x) \<longrightarrow> 0 < c_wg x) \<and>
    (Returning_token \<in> set (c_workers x) \<longrightarrow> 0 < c_tokens x)"
proof -
  have inv: "conc_inv V I J s x"
    by (rule conc_reachable_inv [OF assms])
  have eq: "holds_token = (\<lambda>w. w \<noteq> (Gone :: 'a worker))"
    by (rule ext, case_tac w) auto
  have pos: "w \<in> set ws \<Longrightarrow> P w \<Longrightarrow> 0 < number P ws" for w :: "'a worker" and P ws
    by (metis number_0 neq0_conv)
  show ?thesis
    using conc_invD(1-3,5) [OF inv] pos [of Releasing "c_workers x" counted] pos [of Returning_token "c_workers x" holds_token]
      pos [of Returning_token "c_workers x" is_Returning]
    by (cases "slots s") (auto simp: eq)
qed

text \<open>Witness: the concrete run with one handler goroutine, two slots.\<close>

theorem conc_limited_witness:
  "\<exists>x. example_reachable x \<and> c_workers x \<noteq> [] \<and> number (\<lambda>w. w \<noteq> Gone) (c_workers x) + c_others x \<le> 2"
proof -
  obtain x p where "example_reachable x" "c_workers x = [Handling p]"
    by (rule example_run)
  then show ?thesis
    using conc_limited [OF list_deps_ok [of 0], of example_server "()" x 2] example_limiter by auto
qed



end
