(* ===== verification/Server_Life.thy ===== *)
theory Server_Life
  imports Server Transitions
begin

text \<open>
  The life of a server: the accept loop, the goroutines of \<open>serveConn\<close> and the callers of
  \<open>Shutdown\<close>, which share the connection table, its mutex \<open>connectionsMu\<close>, the \<open>shutdown\<close> flag and the
  wait group. Every access to one of these is one step. What a connection does while it is served
  is the subject of \<open>Server\<close> and \<open>Server_Conc\<close>; here it appears as one step at whose end the
  connection is closed, which is what those theories prove of the three serving functions.
\<close>

section \<open>Program points and state\<close>

text \<open>
  \<open>serveConn\<close>: configure the socket, lock, load the flag, register, unlock, serve, lock again, delete
  and unlock, and release the wait group. \<open>Leaked\<close> is the early return, after which the mutex is
  still locked.
\<close>

datatype serving =
    Starting
  | AtLock
  | Checking
  | Leaving
  | Leaked
  | Registering
  | Unlocking
  | Serving
  | AtRelock
  | Deleting
  | Reunlocking
  | Finishing
  | Concluded

text \<open>\<open>Shutdown\<close>: swap, cancel, lock, close the connections, unlock, close the listener, wait.\<close>

datatype stopping =
    Swaps
  | Lost
  | Cancels
  | Locks
  | Closes
  | Unlocks
  | Listens
  | Waits "goerror option"
  | Stopped "goerror option"

text \<open>
  Connections are numbered by their place in \<open>lf_conns\<close>; \<open>lf_closed\<close> are those whose connection was
  closed. \<open>lf_loop\<close> is the backoff of the accept loop while it runs.
\<close>

record ('ctx, 'c, 'l, 't, 'f, 'oc, 'pw) life =
  lf_srv :: "('ctx, 'c, 'l, 't, 'f, 'oc, 'pw) server"
  lf_locked :: bool
  lf_conns :: "serving list"
  lf_closed :: "nat set"
  lf_loop :: "int option"
  lf_stops :: "stopping list"

section \<open>Steps\<close>

text \<open>The TCP settings of a new connection: the error of the first one that fails.\<close>

definition set_keepalive :: "bool \<Rightarrow> goerror option \<Rightarrow> goerror option \<Rightarrow> goerror option" where
  "set_keepalive tcp keepalive period =
     (if tcp then (case keepalive of Some e \<Rightarrow> Some e | None \<Rightarrow> period) else None)"

definition set_conn :: "nat \<Rightarrow> serving \<Rightarrow> ('ctx, 'c, 'l, 't, 'f, 'oc, 'pw) life \<Rightarrow> ('ctx, 'c, 'l, 't, 'f, 'oc, 'pw) life" where
  "set_conn i p x = x\<lparr>lf_conns := (lf_conns x)[i := p]\<rparr>"

definition set_stop :: "nat \<Rightarrow> stopping \<Rightarrow> ('ctx, 'c, 'l, 't, 'f, 'oc, 'pw) life \<Rightarrow> ('ctx, 'c, 'l, 't, 'f, 'oc, 'pw) life" where
  "set_stop j p x = x\<lparr>lf_stops := (lf_stops x)[j := p]\<rparr>"

definition at_conn :: "('ctx, 'c, 'l, 't, 'f, 'oc, 'pw) life \<Rightarrow> nat \<Rightarrow> serving \<Rightarrow> bool" where
  "at_conn x i p \<longleftrightarrow> i < length (lf_conns x) \<and> lf_conns x ! i = p"

definition at_stop :: "('ctx, 'c, 'l, 't, 'f, 'oc, 'pw) life \<Rightarrow> nat \<Rightarrow> stopping \<Rightarrow> bool" where
  "at_stop x j p \<longleftrightarrow> j < length (lf_stops x) \<and> lf_stops x ! j = p"

inductive life_step ::
    "('ctx, 'c, 'l, 't, 'f, 'oc, 'pw) life \<Rightarrow> ('ctx, 'c, 'l, 't, 'f, 'oc, 'pw) life \<Rightarrow> bool" where
  loop_serves: "lf_loop x = Some b \<Longrightarrow> listener_step id r b (lf_srv x) = Some (Serves c, s) \<Longrightarrow>
    c = length (lf_conns x) \<Longrightarrow>
    life_step x (x\<lparr>lf_srv := s, lf_conns := lf_conns x @ [Starting], lf_loop := Some 0\<rparr>)"
| loop_retries: "lf_loop x = Some b \<Longrightarrow> listener_step id r b (lf_srv x) = Some (Retries b', s) \<Longrightarrow>
    life_step x (x\<lparr>lf_srv := s, lf_loop := Some b'\<rparr>)"
| loop_stops: "lf_loop x = Some b \<Longrightarrow> listener_step id r b (lf_srv x) = Some (Stops e, s) \<Longrightarrow>
    life_step x (x\<lparr>lf_srv := s, lf_loop := None\<rparr>)"
| serve: "life_step x (x\<lparr>lf_srv := ServeConn (lf_srv x), lf_conns := lf_conns x @ [Starting]\<rparr>)"
| keepalive_fails: "at_conn x i Starting \<Longrightarrow> set_keepalive tcp r r' = Some e \<Longrightarrow>
    life_step x ((set_conn i Finishing x)\<lparr>lf_closed := insert i (lf_closed x)\<rparr>)"
| starts: "at_conn x i Starting \<Longrightarrow> set_keepalive tcp r r' = None \<Longrightarrow> life_step x (set_conn i AtLock x)"
| locks: "at_conn x i AtLock \<Longrightarrow> \<not> lf_locked x \<Longrightarrow> life_step x ((set_conn i Checking x)\<lparr>lf_locked := True\<rparr>)"
| checks: "at_conn x i Checking \<Longrightarrow>
    life_step x (set_conn i (if shutdown (lf_srv x) then Leaving else Registering) x)"
| leaves: "at_conn x i Leaving \<Longrightarrow> sv_Done (lf_srv x) = Some s \<Longrightarrow>
    life_step x ((set_conn i Leaked x)\<lparr>lf_srv := s\<rparr>)"
| registers: "at_conn x i Registering \<Longrightarrow>
    life_step x ((set_conn i Unlocking x)\<lparr>lf_srv := (lf_srv x)\<lparr>connections := i # connections (lf_srv x)\<rparr>\<rparr>)"
| unlocks: "at_conn x i Unlocking \<Longrightarrow> life_step x ((set_conn i Serving x)\<lparr>lf_locked := False\<rparr>)"
| served: "at_conn x i Serving \<Longrightarrow>
    life_step x ((set_conn i AtRelock x)\<lparr>lf_closed := insert i (lf_closed x)\<rparr>)"
| relocks: "at_conn x i AtRelock \<Longrightarrow> \<not> lf_locked x \<Longrightarrow> life_step x ((set_conn i Deleting x)\<lparr>lf_locked := True\<rparr>)"
| deletes: "at_conn x i Deleting \<Longrightarrow>
    life_step x ((set_conn i Reunlocking x)\<lparr>lf_srv := if shutdown (lf_srv x) then lf_srv x
      else (lf_srv x)\<lparr>connections := removeAll i (connections (lf_srv x))\<rparr>\<rparr>)"
| reunlocks: "at_conn x i Reunlocking \<Longrightarrow> life_step x ((set_conn i Finishing x)\<lparr>lf_locked := False\<rparr>)"
| finishes: "at_conn x i Finishing \<Longrightarrow> sv_Done (lf_srv x) = Some s \<Longrightarrow>
    life_step x ((set_conn i Concluded x)\<lparr>lf_srv := s\<rparr>)"
| call_stop: "life_step x (x\<lparr>lf_stops := lf_stops x @ [Swaps]\<rparr>)"
| stop_swaps: "at_stop x j Swaps \<Longrightarrow>
    life_step x (if shutdown (lf_srv x) then set_stop j Lost x
      else (set_stop j Cancels x)\<lparr>lf_srv := (lf_srv x)\<lparr>shutdown := True\<rparr>\<rparr>)"
| stop_cancels: "at_stop x j Cancels \<Longrightarrow>
    life_step x ((set_stop j Locks x)\<lparr>lf_srv := (lf_srv x)\<lparr>cancelled := True\<rparr>\<rparr>)"
| stop_locks: "at_stop x j Locks \<Longrightarrow> \<not> lf_locked x \<Longrightarrow> life_step x ((set_stop j Closes x)\<lparr>lf_locked := True\<rparr>)"
| stop_closes: "at_stop x j Closes \<Longrightarrow> i \<in> set (connections (lf_srv x)) \<Longrightarrow>
    life_step x (x\<lparr>lf_closed := insert i (lf_closed x),
      lf_srv := (lf_srv x)\<lparr>connections := removeAll i (connections (lf_srv x))\<rparr>\<rparr>)"
| stop_closed: "at_stop x j Closes \<Longrightarrow> connections (lf_srv x) = [] \<Longrightarrow> life_step x (set_stop j Unlocks x)"
| stop_unlocks: "at_stop x j Unlocks \<Longrightarrow> life_step x ((set_stop j Listens x)\<lparr>lf_locked := False\<rparr>)"
| stop_listens: "at_stop x j Listens \<Longrightarrow> (listener (lf_srv x) = None \<Longrightarrow> e = None) \<Longrightarrow> life_step x (set_stop j (Waits e) x)"
| stop_waits: "at_stop x j (Waits e) \<Longrightarrow> sv_wg (lf_srv x) = 0 \<Longrightarrow> life_step x (set_stop j (Stopped e) x)"

definition life_init :: "('ctx, 'c, 'l, 't, 'f, 'oc, 'pw) life \<Rightarrow> bool" where
  "life_init x \<longleftrightarrow> \<not> shutdown (lf_srv x) \<and> connections (lf_srv x) = [] \<and> \<not> lf_locked x \<and> lf_conns x = [] \<and>
     lf_stops x = [] \<and> sv_wg (lf_srv x) = (if lf_loop x = None then 0 else 1)"

section \<open>Invariant\<close>

fun running :: "serving \<Rightarrow> bool" where
  "running Leaked = False"
| "running Concluded = False"
| "running _ = True"

fun holds_mu :: "serving \<Rightarrow> bool" where
  "holds_mu Checking = True"
| "holds_mu Leaving = True"
| "holds_mu Leaked = True"
| "holds_mu Registering = True"
| "holds_mu Unlocking = True"
| "holds_mu Deleting = True"
| "holds_mu Reunlocking = True"
| "holds_mu _ = False"

fun stop_holds :: "stopping \<Rightarrow> bool" where
  "stop_holds Closes = True"
| "stop_holds Unlocks = True"
| "stop_holds _ = False"

fun won :: "stopping \<Rightarrow> bool" where
  "won Swaps = False"
| "won Lost = False"
| "won _ = True"

fun past_closes :: "stopping \<Rightarrow> bool" where
  "past_closes Unlocks = True"
| "past_closes Listens = True"
| "past_closes (Waits _) = True"
| "past_closes (Stopped _) = True"
| "past_closes _ = False"

fun has_stopped :: "stopping \<Rightarrow> bool" where
  "has_stopped (Stopped _) = True"
| "has_stopped _ = False"

text \<open>From the registration to the end of the serving function, and after it.\<close>

fun in_service :: "serving \<Rightarrow> bool" where
  "in_service Unlocking = True"
| "in_service Serving = True"
| "in_service _ = False"

fun after_service :: "serving \<Rightarrow> bool" where
  "after_service AtRelock = True"
| "after_service Deleting = True"
| "after_service Reunlocking = True"
| "after_service Finishing = True"
| "after_service Concluded = True"
| "after_service _ = False"

definition is_registering :: "serving \<Rightarrow> bool" where
  "is_registering p \<longleftrightarrow> p = Registering"

fun working :: "serving \<Rightarrow> bool" where
  "working Registering = True"
| "working Unlocking = True"
| "working Serving = True"
| "working AtRelock = True"
| "working Deleting = True"
| "working Reunlocking = True"
| "working _ = False"

definition table_ok :: "('ctx, 'c, 'l, 't, 'f, 'oc, 'pw) life \<Rightarrow> bool" where
  "table_ok x \<longleftrightarrow> (\<forall>i < length (lf_conns x).
     (in_service (lf_conns x ! i) \<longrightarrow> i \<in> lf_closed x \<union> set (connections (lf_srv x))) \<and>
     (after_service (lf_conns x ! i) \<longrightarrow> i \<in> lf_closed x))"

definition counts_ok :: "('ctx, 'c, 'l, 't, 'f, 'oc, 'pw) life \<Rightarrow> bool" where
  "counts_ok x \<longleftrightarrow>
     sv_wg (lf_srv x) = number running (lf_conns x) + (if lf_loop x = None then 0 else 1) \<and>
     number holds_mu (lf_conns x) + number stop_holds (lf_stops x) = (if lf_locked x then 1 else 0) \<and>
     number won (lf_stops x) = (if shutdown (lf_srv x) then 1 else 0)"

definition closed_ok :: "('ctx, 'c, 'l, 't, 'f, 'oc, 'pw) life \<Rightarrow> bool" where
  "closed_ok x \<longleftrightarrow> (0 < number past_closes (lf_stops x) \<longrightarrow>
     connections (lf_srv x) = [] \<and> number is_registering (lf_conns x) = 0)"

definition stopped_ok :: "('ctx, 'c, 'l, 't, 'f, 'oc, 'pw) life \<Rightarrow> bool" where
  "stopped_ok x \<longleftrightarrow> (0 < number has_stopped (lf_stops x) \<longrightarrow> number working (lf_conns x) = 0)"

definition life_inv :: "('ctx, 'c, 'l, 't, 'f, 'oc, 'pw) life \<Rightarrow> bool" where
  "life_inv x \<longleftrightarrow> counts_ok x \<and> table_ok x \<and> closed_ok x \<and> stopped_ok x"

lemmas at_defs = at_conn_def at_stop_def set_conn_def set_stop_def

text \<open>A goroutine's move keeps the counters in step.\<close>

lemma move_conn:
  assumes "at_conn x i p"
  shows "number P ((lf_conns x)[i := q]) + (if P p then 1 else 0) = number P (lf_conns x) + (if P q then 1 else 0)"
  using number_update [of i "lf_conns x" P q] assms by (simp add: at_conn_def)

lemma move_stop:
  assumes "at_stop x j p"
  shows "number P ((lf_stops x)[j := q]) + (if P p then 1 else 0) = number P (lf_stops x) + (if P q then 1 else 0)"
  using number_update [of j "lf_stops x" P q] assms by (simp add: at_stop_def)

lemma move_conn_same: "at_conn x i p \<Longrightarrow> P p = P q \<Longrightarrow> number P ((lf_conns x)[i := q]) = number P (lf_conns x)"
  and move_conn_more: "at_conn x i p \<Longrightarrow> \<not> P p \<Longrightarrow> P q \<Longrightarrow> number P ((lf_conns x)[i := q]) = Suc (number P (lf_conns x))"
  and move_stop_same: "at_stop x j t \<Longrightarrow> R t = R u \<Longrightarrow> number R ((lf_stops x)[j := u]) = number R (lf_stops x)"
  and move_stop_more: "at_stop x j t \<Longrightarrow> \<not> R t \<Longrightarrow> R u \<Longrightarrow> number R ((lf_stops x)[j := u]) = Suc (number R (lf_stops x))"
  using move_conn [of x i p P q] move_stop [of x j t R u] by (auto split: if_splits)

lemmas moves = move_conn_same move_conn_more move_stop_same move_stop_more

lemma listener_step_keeps:
  assumes "listener_step id r b s = Some (l, s')"
  shows "shutdown s' = shutdown s" and "connections s' = connections s"
    and "sv_wg s' + (case l of Stops _ \<Rightarrow> 1 | _ \<Rightarrow> 0) = sv_wg s + (case l of Serves _ \<Rightarrow> 1 | _ \<Rightarrow> 0)"
  using assms by (auto simp: listener_step_def sv_Done_def ServeConn_def Let_def split: accepted.splits if_splits)

lemma sv_Done_keeps:
  assumes "sv_Done s = Some s'"
  shows "shutdown s' = shutdown s" and "connections s' = connections s" and "sv_wg s = sv_wg s' + 1"
  using assms by (auto simp: sv_Done_def split: if_splits)

lemma counts_step: "life_step x y \<Longrightarrow> counts_ok x \<Longrightarrow> counts_ok y"
proof (induction rule: life_step.induct)
  case (loop_serves x b r c s)
  then show ?case
    using listener_step_keeps [OF loop_serves(2)] by (simp add: counts_ok_def)
next
  case (loop_retries x b r b' s)
  then show ?case
    using listener_step_keeps [OF loop_retries(2)] by (simp add: counts_ok_def)
next
  case (loop_stops x b r e s)
  then show ?case
    using listener_step_keeps [OF loop_stops(2)] by (simp add: counts_ok_def)
next
  case (leaves x i s)
  then show ?case
    using move_conn [OF leaves(1), of running Leaked] sv_Done_keeps [OF leaves(2)]
    by (simp add: counts_ok_def set_conn_def moves)
next
  case (finishes x i s)
  then show ?case
    using move_conn [OF finishes(1), of running Concluded] sv_Done_keeps [OF finishes(2)]
    by (simp add: counts_ok_def set_conn_def moves)
next
  case (unlocks x i)
  then show ?case
    using move_conn [OF unlocks(1), of holds_mu Serving] by (simp add: counts_ok_def set_conn_def moves split: if_splits)
next
  case (reunlocks x i)
  then show ?case
    using move_conn [OF reunlocks(1), of holds_mu Finishing] by (simp add: counts_ok_def set_conn_def moves split: if_splits)
next
  case (stop_unlocks x j)
  then show ?case
    using move_stop [OF stop_unlocks(1), of stop_holds Listens] by (simp add: counts_ok_def set_stop_def moves split: if_splits)
qed (auto simp: counts_ok_def set_conn_def set_stop_def ServeConn_def moves)

text \<open>Registered connections are in the table or closed.\<close>

lemma table_step: "life_step x y \<Longrightarrow> table_ok x \<Longrightarrow> table_ok y"
proof (induction rule: life_step.induct)
  case (loop_serves x b r c s)
  then show ?case
    using listener_step_keeps [OF loop_serves(2)] by (auto simp: table_ok_def nth_append less_Suc_eq)
next
  case (loop_retries x b r b' s)
  then show ?case
    using listener_step_keeps [OF loop_retries(2)] by (auto simp: table_ok_def)
next
  case (loop_stops x b r e s)
  then show ?case
    using listener_step_keeps [OF loop_stops(2)] by (auto simp: table_ok_def)
next
  case (leaves x i s)
  then show ?case
    using sv_Done_keeps [OF leaves(2)] by (auto simp: table_ok_def at_defs nth_list_update)
next
  case (finishes x i s)
  then show ?case
    using sv_Done_keeps [OF finishes(2)] by (auto simp: table_ok_def at_defs nth_list_update)
qed (auto simp: table_ok_def at_defs nth_list_update nth_append less_Suc_eq ServeConn_def)

lemma won_shutdown:
  assumes "counts_ok x" and "0 < number P (lf_stops x)" and "\<And>t. P t \<Longrightarrow> won t"
  shows "shutdown (lf_srv x)"
  using assms(1,2) number_mono [of P won "lf_stops x"] assms(3) by (auto simp: counts_ok_def split: if_splits)

lemma past_closes_won: "past_closes t \<Longrightarrow> won t" and has_stopped_won: "has_stopped t \<Longrightarrow> won t"
  and working_running: "working p \<Longrightarrow> running p" and registering_holds: "is_registering p \<Longrightarrow> holds_mu p"
  by (cases t, auto)+ (cases p; simp add: is_registering_def)+

lemma table_closed_step: "life_step x y \<Longrightarrow> counts_ok x \<Longrightarrow> closed_ok x \<Longrightarrow> closed_ok y"
proof (induction rule: life_step.induct)
  case (loop_serves x b r c s)
  then show ?case
    using listener_step_keeps [OF loop_serves(2)] by (simp add: closed_ok_def is_registering_def)
next
  case (loop_retries x b r b' s)
  then show ?case
    using listener_step_keeps [OF loop_retries(2)] by (simp add: closed_ok_def)
next
  case (loop_stops x b r e s)
  then show ?case
    using listener_step_keeps [OF loop_stops(2)] by (simp add: closed_ok_def)
next
  case (leaves x i s)
  then show ?case
    using sv_Done_keeps [OF leaves(2)] by (simp add: closed_ok_def set_conn_def moves is_registering_def)
next
  case (finishes x i s)
  then show ?case
    using sv_Done_keeps [OF finishes(2)] by (simp add: closed_ok_def set_conn_def moves is_registering_def)
next
  case (checks x i)
  then show ?case
    using won_shutdown [OF checks(2), of past_closes] past_closes_won
    by (cases "shutdown (lf_srv x)") (auto simp: closed_ok_def set_conn_def moves is_registering_def)
next
  case (registers x i)
  then have "0 < number is_registering (lf_conns x)"
    by (auto simp: at_conn_def is_registering_def intro: number_pos)
  then show ?case
    using registers by (simp add: closed_ok_def set_conn_def)
next
  case (stop_closed x j)
  have "0 < number stop_holds (lf_stops x)"
    using stop_closed(1) by (auto simp: at_stop_def intro: number_pos)
  then have "number is_registering (lf_conns x) = 0"
    using stop_closed(3) number_mono [of is_registering holds_mu "lf_conns x"] registering_holds
    by (auto simp: counts_ok_def split: if_splits)
  then show ?case
    using stop_closed by (simp add: closed_ok_def set_stop_def)
qed (auto simp: closed_ok_def set_conn_def set_stop_def ServeConn_def moves is_registering_def)

lemma stopped_step: "life_step x y \<Longrightarrow> counts_ok x \<Longrightarrow> stopped_ok x \<Longrightarrow> stopped_ok y"
proof (induction rule: life_step.induct)
  case (checks x i)
  then show ?case
    using won_shutdown [OF checks(2), of has_stopped] has_stopped_won
    by (cases "shutdown (lf_srv x)") (auto simp: stopped_ok_def set_conn_def moves)
next
  case (reunlocks x i)
  then have "0 < number working (lf_conns x)"
    by (auto simp: at_conn_def intro: number_pos)
  then show ?case
    using reunlocks by (simp add: stopped_ok_def set_conn_def)
next
  case (stop_waits x j e)
  then have "number working (lf_conns x) = 0"
    using number_mono [of working running "lf_conns x"] working_running by (auto simp: counts_ok_def)
  then show ?case
    by (simp add: stopped_ok_def set_stop_def)
qed (auto simp: stopped_ok_def set_conn_def set_stop_def moves)

interpretation life: invariant_system life_init life_step life_inv
proof
  show "life_init x \<Longrightarrow> life_inv x" for x :: "('a, 'b, 'c, 'd, 'e, 'f, 'g) life"
    by (auto simp: life_init_def life_inv_def counts_ok_def table_ok_def closed_ok_def stopped_ok_def)
  show "life_inv x \<Longrightarrow> life_step x y \<Longrightarrow> life_inv y" for x y :: "('a, 'b, 'c, 'd, 'e, 'f, 'g) life"
    using counts_step table_step table_closed_step stopped_step by (auto simp: life_inv_def)
qed

section \<open>The leaked mutex\<close>

text \<open>A caller of \<open>Shutdown\<close> that has not got the mutex while a returned goroutine still holds it.\<close>

definition locked_out :: "nat \<Rightarrow> ('ctx, 'c, 'l, 't, 'f, 'oc, 'pw) life \<Rightarrow> bool" where
  "locked_out j x \<longleftrightarrow> life_inv x \<and> Leaked \<in> set (lf_conns x) \<and> at_stop x j Locks"

lemma leaked_locked: "life_inv x \<Longrightarrow> Leaked \<in> set (lf_conns x) \<Longrightarrow> lf_locked x"
  using number_0 [of holds_mu "lf_conns x"] by (auto simp: life_inv_def counts_ok_def split: if_splits)

lemma leaked_stays: "life_step x y \<Longrightarrow> Leaked \<in> set (lf_conns x) \<Longrightarrow> Leaked \<in> set (lf_conns y)"
  by (induction rule: life_step.induct) (auto simp: at_defs intro!: in_set_update)

interpretation leak: trap life_step "locked_out j"
proof
  fix x y :: "('a, 'b, 'c, 'd, 'e, 'f, 'g) life"
  assume x: "locked_out j x" and st: "life_step x y"
  have l: "lf_locked x" "Leaked \<in> set (lf_conns x)" "at_stop x j Locks"
    using x leaked_locked by (auto simp: locked_out_def)
  have "at_stop y j Locks"
    using st l(1,3) by (induction rule: life_step.induct) (auto simp: at_defs nth_list_update nth_append)
  then show "locked_out j y"
    using x life.inv_step [OF _ st] leaked_stays [OF st] by (simp add: locked_out_def)
qed

section \<open>Shutdown without a leak\<close>

text \<open>Every connection is past its registration.\<close>

definition settled :: "('ctx, 'c, 'l, 't, 'f, 'oc, 'pw) life \<Rightarrow> bool" where
  "settled x \<longleftrightarrow> shutdown (lf_srv x) \<and> (\<forall>p\<in>set (lf_conns x). working p \<or> p = Finishing \<or> p = Concluded)"

fun serving_rank :: "serving \<Rightarrow> nat" where
  "serving_rank Registering = 8"
| "serving_rank Unlocking = 6"
| "serving_rank Serving = 5"
| "serving_rank AtRelock = 4"
| "serving_rank Deleting = 3"
| "serving_rank Reunlocking = 2"
| "serving_rank Finishing = 1"
| "serving_rank _ = 0"

fun stopping_rank :: "stopping \<Rightarrow> nat" where
  "stopping_rank Cancels = 6"
| "stopping_rank Locks = 5"
| "stopping_rank Closes = 4"
| "stopping_rank Unlocks = 3"
| "stopping_rank Listens = 2"
| "stopping_rank (Waits _) = 1"
| "stopping_rank _ = 0"

definition life_rank :: "('ctx, 'c, 'l, 't, 'f, 'oc, 'pw) life \<Rightarrow> nat" where
  "life_rank x = sum_list (map serving_rank (lf_conns x)) + sum_list (map stopping_rank (lf_stops x)) +
     length (connections (lf_srv x)) + (if lf_loop x = None then 0 else 1)"

definition advances :: "nat \<Rightarrow> ('ctx, 'c, 'l, 't, 'f, 'oc, 'pw) life \<Rightarrow> ('ctx, 'c, 'l, 't, 'f, 'oc, 'pw) life \<Rightarrow> bool" where
  "advances j x y \<longleftrightarrow> life_step x y \<and> settled y \<and> life_rank y < life_rank x \<and> j < length (lf_stops y) \<and> won (lf_stops y ! j)"

lemma settled_update: "settled x \<Longrightarrow> working p \<or> p = Finishing \<or> p = Concluded \<Longrightarrow>
    \<forall>q\<in>set ((lf_conns x)[i := p]). working q \<or> q = Finishing \<or> q = Concluded"
  by (auto simp: settled_def dest!: set_update_subset_insert [THEN subsetD])

lemma conn_advances:
  assumes inv: "life_inv x" and set: "settled x" and j: "j < length (lf_stops x)" "won (lf_stops x ! j)"
    and at: "at_conn x i p" "p \<noteq> Concluded" "p = AtRelock \<Longrightarrow> \<not> lf_locked x"
  shows "\<exists>y. advances j x y"
proof -
  have u: "sum_list (map serving_rank ((lf_conns x)[i := q])) + serving_rank p =
      sum_list (map serving_rank (lf_conns x)) + serving_rank q" for q
    using rank_update [of i "lf_conns x" serving_rank q] at(1) by (simp add: at_conn_def)
  have p: "working p \<or> p = Finishing"
    using set at nth_mem [of i "lf_conns x"] by (auto simp: settled_def at_conn_def)
  have sh: "shutdown (lf_srv x)"
    using set by (simp add: settled_def)
  have adv: "life_step x ((set_conn i q x)\<lparr>lf_srv := s, lf_locked := l, lf_closed := c\<rparr>) \<Longrightarrow> \<exists>y. advances j x y"
    if "working q \<or> q = Finishing \<or> q = Concluded" "shutdown s"
      "serving_rank q + length (connections s) < serving_rank p + length (connections (lf_srv x))" for q s l c
    using that j u [of q] settled_update [OF set that(1), of i]
    by (intro exI [of _ "(set_conn i q x)\<lparr>lf_srv := s, lf_locked := l, lf_closed := c\<rparr>"])
      (simp add: advances_def settled_def life_rank_def set_conn_def)
  show ?thesis
  proof (cases p)
    case Registering
    then show ?thesis
      using adv [of Unlocking "(lf_srv x)\<lparr>connections := i # connections (lf_srv x)\<rparr>" "lf_closed x" "lf_locked x"]
        life_step.registers [of x i] at(1) sh by (simp add: set_conn_def)
  next
    case Unlocking
    then show ?thesis
      using adv [of Serving "lf_srv x" "lf_closed x" False] life_step.unlocks [of x i] at(1) sh by (simp add: set_conn_def)
  next
    case Serving
    then show ?thesis
      using adv [of AtRelock "lf_srv x" "insert i (lf_closed x)" "lf_locked x"] life_step.served [of x i] at(1) sh
      by (simp add: set_conn_def)
  next
    case AtRelock
    then show ?thesis
      using adv [of Deleting "lf_srv x" "lf_closed x" True] life_step.relocks [of x i] at sh by (simp add: set_conn_def)
  next
    case Deleting
    then show ?thesis
      using adv [of Reunlocking "lf_srv x" "lf_closed x" "lf_locked x"] life_step.deletes [of x i] at(1) sh
      by (simp add: set_conn_def)
  next
    case Reunlocking
    then show ?thesis
      using adv [of Finishing "lf_srv x" "lf_closed x" False] life_step.reunlocks [of x i] at(1) sh by (simp add: set_conn_def)
  next
    case Finishing
    then have "0 < sv_wg (lf_srv x)"
      using inv at(1) number_pos [of i "lf_conns x" running] by (auto simp: life_inv_def counts_ok_def at_conn_def)
    then have "sv_Done (lf_srv x) = Some ((lf_srv x)\<lparr>sv_wg := sv_wg (lf_srv x) - 1\<rparr>)"
      by (simp add: sv_Done_def)
    then show ?thesis
      using Finishing adv [of Concluded "(lf_srv x)\<lparr>sv_wg := sv_wg (lf_srv x) - 1\<rparr>" "lf_closed x" "lf_locked x"]
        life_step.finishes [of x i] at(1) sh by (simp add: set_conn_def)
  qed (use p in auto)
qed

lemma stop_advances:
  assumes inv: "life_inv x" and set: "settled x" and j: "j < length (lf_stops x)" "won (lf_stops x ! j)"
    and at: "at_stop x k t" "won t" "\<not> has_stopped t" "t = Locks \<Longrightarrow> \<not> lf_locked x"
      "\<And>e. t = Waits e \<Longrightarrow> \<forall>p\<in>set (lf_conns x). p = Concluded"
  shows "\<exists>y. advances j x y"
proof -
  have u: "sum_list (map stopping_rank ((lf_stops x)[k := q])) + stopping_rank t =
      sum_list (map stopping_rank (lf_stops x)) + stopping_rank q" for q
    using rank_update [of k "lf_stops x" stopping_rank q] at(1) by (simp add: at_stop_def)
  have sh: "shutdown (lf_srv x)"
    using set by (simp add: settled_def)
  have adv: "life_step x ((set_stop k q x)\<lparr>lf_srv := s, lf_locked := l\<rparr>) \<Longrightarrow> \<exists>y. advances j x y"
    if "won q" "shutdown s" "connections s = connections (lf_srv x)" "stopping_rank q < stopping_rank t" for q s l
    using that j u [of q] set at(1)
    by (intro exI [of _ "(set_stop k q x)\<lparr>lf_srv := s, lf_locked := l\<rparr>"])
      (simp add: advances_def settled_def life_rank_def set_stop_def at_stop_def nth_list_update)
  show ?thesis
  proof (cases t)
    case Cancels
    then show ?thesis
      using adv [of Locks "(lf_srv x)\<lparr>cancelled := True\<rparr>" "lf_locked x"] life_step.stop_cancels [of x k] at(1) sh
      by (simp add: set_stop_def)
  next
    case Locks
    then show ?thesis
      using adv [of Closes "lf_srv x" True] life_step.stop_locks [of x k] at sh by (simp add: set_stop_def)
  next
    case Closes
    show ?thesis
    proof (cases "connections (lf_srv x)")
      case Nil
      then show ?thesis
        using Closes adv [of Unlocks "lf_srv x" "lf_locked x"] life_step.stop_closed [of x k] at(1) sh by (simp add: set_stop_def)
    next
      case (Cons i cs)
      have l: "length (removeAll i cs) < Suc (length cs)"
        by (simp add: le_imp_less_Suc)
      then show ?thesis
        using life_step.stop_closes [of x k i] Cons Closes at(1) set j
        by (intro exI) (auto simp: advances_def settled_def life_rank_def l)
    qed
  next
    case Unlocks
    then show ?thesis
      using adv [of Listens "lf_srv x" False] life_step.stop_unlocks [of x k] at(1) sh by (simp add: set_stop_def)
  next
    case Listens
    then show ?thesis
      using adv [of "Waits None" "lf_srv x" "lf_locked x"] life_step.stop_listens [of x k None] at(1) sh by (simp add: set_stop_def)
  next
    case (Waits e)
    then have "number running (lf_conns x) = 0"
      using at(5) by (auto simp: number_0)
    then have wg: "sv_wg (lf_srv x) = (if lf_loop x = None then 0 else 1)"
      using inv by (simp add: life_inv_def counts_ok_def)
    show ?thesis
    proof (cases "lf_loop x")
      case None
      then show ?thesis
        using Waits adv [of "Stopped e" "lf_srv x" "lf_locked x"] life_step.stop_waits [of x k e] at(1) sh wg
        by (simp add: set_stop_def)
    next
      case (Some b)
      have "listener_step id (Failed ConnectionClosed False) b (lf_srv x) = Some (Stops None, (lf_srv x)\<lparr>sv_wg := 0\<rparr>)"
        using wg Some sh by (simp add: listener_step_def sv_Done_def)
      then show ?thesis
        using life_step.loop_stops [OF Some] set j Some
        by (intro exI) (auto simp: advances_def settled_def life_rank_def)
    qed
  qed (use at in auto)
qed

text \<open>Whoever holds the mutex can go on; with the mutex free, everybody can.\<close>

lemma shutdown_advances:
  assumes inv: "life_inv x" and set: "settled x" and j: "j < length (lf_stops x)" "won (lf_stops x ! j)"
    "\<not> has_stopped (lf_stops x ! j)"
  shows "\<exists>y. advances j x y"
proof (cases "\<exists>i p. at_conn x i p \<and> p \<noteq> Concluded \<and> (p = AtRelock \<longrightarrow> \<not> lf_locked x)")
  case True
  then show ?thesis
    using conn_advances [OF inv set j(1,2)] by blast
next
  case False
  then have f: "p = Concluded \<or> p = AtRelock \<and> lf_locked x" if "p \<in> set (lf_conns x)" for p
    using that by (auto simp: at_conn_def in_set_conv_nth)
  show ?thesis
  proof (cases "lf_locked x")
    case True
    have "number holds_mu (lf_conns x) = 0"
      unfolding number_0 using f by fastforce
    then have "0 < number stop_holds (lf_stops x)"
      using inv True by (simp add: life_inv_def counts_ok_def)
    then obtain k t where "at_stop x k t" "stop_holds t"
      using number_0 [of stop_holds "lf_stops x"] by (auto simp: at_stop_def in_set_conv_nth)
    then show ?thesis
      by (intro stop_advances [OF inv set j(1,2), of k t]) (cases t; simp)+
  next
    case False
    then show ?thesis
      using f j by (intro stop_advances [OF inv set j(1,2), of j "lf_stops x ! j"]) (auto simp: at_stop_def)
  qed
qed

interpretation stopping: ranked_progress life_step
  "\<lambda>x. life_inv x \<and> settled x \<and> j < length (lf_stops x) \<and> won (lf_stops x ! j)" "\<lambda>x. has_stopped (lf_stops x ! j)" life_rank
proof (unfold_locales, goal_cases)
  case (1 x)
  then obtain y where "advances j x y"
    using shutdown_advances [of x j] by blast
  then show ?case
    using 1 life.inv_step [of x y] by (auto simp: advances_def)
qed

section \<open>Two concrete runs\<close>

definition example_idle :: "(unit, byte list, unit, unit, unit, unit, unit) server" where
  "example_idle = snd (NewServer () () () Map.empty () [])"

lemma example_idle_eq:
  "example_idle =
     \<lparr>listener = None, handlerTable = Map.empty, shutdown = False, sv_options = loadOptions () [], sv_wg = 0,
      connections = [], startedCh_closed = False, concurrency = 0, limiter = None, baseContext = (), cancelled = False,
      onClosed = (), preWrite = (), streamHandler = DefaultStreamHandler, ConnContext = None, PacketContext = None\<rparr>"
  by (simp add: example_idle_def NewServer_def SetHandlerTable_def reserved_used.simps guard_simps)

definition life_of ::
    "nat \<Rightarrow> nat list \<Rightarrow> bool \<Rightarrow> bool \<Rightarrow> bool \<Rightarrow> serving list \<Rightarrow> stopping list
      \<Rightarrow> (unit, byte list, unit, unit, unit, unit, unit) life" where
  "life_of wg cs down canc locked ps ts =
     \<lparr>lf_srv = example_idle\<lparr>shutdown := down, sv_wg := wg, connections := cs, cancelled := canc\<rparr>, lf_locked = locked,
      lf_conns = ps, lf_closed = {}, lf_loop = None, lf_stops = ts\<rparr>"

lemmas life_of_simps = life_of_def example_idle_eq

abbreviation example_life :: "(unit, byte list, unit, unit, unit, unit, unit) life \<Rightarrow> bool" where
  "example_life \<equiv> reachable life_init life_step"

lemma example_starts: "example_life (life_of 1 [] False False False [AtLock] [])"
proof -
  have "example_life (life_of 0 [] False False False [] [])"
    by (intro reachable.start) (simp add: life_init_def life_of_simps)
  moreover have "life_step (life_of 0 [] False False False [] []) (life_of 1 [] False False False [Starting] [])"
    using life_step.serve [of "life_of 0 [] False False False [] []"] by (simp add: life_of_simps ServeConn_def)
  moreover have "life_step (life_of 1 [] False False False [Starting] []) (life_of 1 [] False False False [AtLock] [])"
    using life_step.starts [of "life_of 1 [] False False False [Starting] []" 0 False None None]
    by (simp add: life_of_simps set_conn_def at_conn_def set_keepalive_def)
  ultimately show ?thesis
    by (blast intro: reachable.more)
qed

text \<open>The connection is registered and served, then \<open>Shutdown\<close> is called.\<close>

lemma example_orderly: "example_life (life_of 1 [0] True False False [Serving] [Cancels])"
proof -
  have s1: "life_step (life_of 1 [] False False False [AtLock] []) (life_of 1 [] False False True [Checking] [])"
    using life_step.locks [of "life_of 1 [] False False False [AtLock] []" 0] by (simp add: life_of_simps at_defs)
  have s2: "life_step (life_of 1 [] False False True [Checking] []) (life_of 1 [] False False True [Registering] [])"
    using life_step.checks [of "life_of 1 [] False False True [Checking] []" 0] by (simp add: life_of_simps at_defs)
  have s3: "life_step (life_of 1 [] False False True [Registering] []) (life_of 1 [0] False False True [Unlocking] [])"
    using life_step.registers [of "life_of 1 [] False False True [Registering] []" 0] by (simp add: life_of_simps at_defs)
  have s4: "life_step (life_of 1 [0] False False True [Unlocking] []) (life_of 1 [0] False False False [Serving] [])"
    using life_step.unlocks [of "life_of 1 [0] False False True [Unlocking] []" 0] by (simp add: life_of_simps at_defs)
  have s5: "life_step (life_of 1 [0] False False False [Serving] []) (life_of 1 [0] False False False [Serving] [Swaps])"
    using life_step.call_stop [of "life_of 1 [0] False False False [Serving] []"] by (simp add: life_of_simps)
  have s6: "life_step (life_of 1 [0] False False False [Serving] [Swaps]) (life_of 1 [0] True False False [Serving] [Cancels])"
    using life_step.stop_swaps [of "life_of 1 [0] False False False [Serving] [Swaps]" 0] by (simp add: life_of_simps at_defs)
  note more = reachable.more [where init = life_init and step = life_step]
  show ?thesis
    by (rule more [OF more [OF more [OF more [OF more [OF more [OF example_starts s1] s2] s3] s4] s5] s6])
qed

text \<open>\<open>Shutdown\<close> sets the flag before the connection's goroutine takes the mutex.\<close>

lemma example_leak: "example_life (life_of 0 [] True True True [Leaked] [Locks])"
proof -
  have s1: "life_step (life_of 1 [] False False False [AtLock] []) (life_of 1 [] False False False [AtLock] [Swaps])"
    using life_step.call_stop [of "life_of 1 [] False False False [AtLock] []"] by (simp add: life_of_simps)
  have s2: "life_step (life_of 1 [] False False False [AtLock] [Swaps]) (life_of 1 [] True False False [AtLock] [Cancels])"
    using life_step.stop_swaps [of "life_of 1 [] False False False [AtLock] [Swaps]" 0] by (simp add: life_of_simps at_defs)
  have s3: "life_step (life_of 1 [] True False False [AtLock] [Cancels]) (life_of 1 [] True False True [Checking] [Cancels])"
    using life_step.locks [of "life_of 1 [] True False False [AtLock] [Cancels]" 0] by (simp add: life_of_simps at_defs)
  have s4: "life_step (life_of 1 [] True False True [Checking] [Cancels]) (life_of 1 [] True False True [Leaving] [Cancels])"
    using life_step.checks [of "life_of 1 [] True False True [Checking] [Cancels]" 0] by (simp add: life_of_simps at_defs)
  have s5: "life_step (life_of 1 [] True False True [Leaving] [Cancels]) (life_of 0 [] True False True [Leaked] [Cancels])"
    using life_step.leaves [of "life_of 1 [] True False True [Leaving] [Cancels]" 0] by (simp add: life_of_simps at_defs sv_Done_def)
  have s6: "life_step (life_of 0 [] True False True [Leaked] [Cancels]) (life_of 0 [] True True True [Leaked] [Locks])"
    using life_step.stop_cancels [of "life_of 0 [] True False True [Leaked] [Cancels]" 0] by (simp add: life_of_simps at_defs)
  note more = reachable.more [where init = life_init and step = life_step]
  show ?thesis
    by (rule more [OF more [OF more [OF more [OF more [OF more [OF example_starts s1] s2] s3] s4] s5] s6])
qed

section \<open>Properties\<close>



text \<open>
  C35: the server's wait group and mutex are used correctly: no \<open>Done\<close> takes the counter below
  zero, at most one goroutine is inside a section guarded by \<open>connectionsMu\<close>, and nobody unlocks it
  while it is not locked.
\<close>

theorem server_sync_safe:
  assumes "reachable life_init life_step x"
  shows "(at_conn x i Leaving \<or> at_conn x i Finishing \<longrightarrow> sv_Done (lf_srv x) \<noteq> None) \<and>
    number holds_mu (lf_conns x) + number stop_holds (lf_stops x) \<le> 1 \<and>
    (at_conn x i Unlocking \<or> at_conn x i Reunlocking \<or> at_stop x i Unlocks \<longrightarrow> lf_locked x)"
proof -
  have c: "counts_ok x"
    using life.always [OF assms] by (simp add: life_inv_def)
  have "0 < number running (lf_conns x)" if "at_conn x i p" "running p" for p
    using that number_pos [of i "lf_conns x" running] by (simp add: at_conn_def)
  moreover have "0 < number holds_mu (lf_conns x)" if "at_conn x i p" "holds_mu p" for p
    using that number_pos [of i "lf_conns x" holds_mu] by (simp add: at_conn_def)
  moreover have "0 < number stop_holds (lf_stops x)" if "at_stop x i t" "stop_holds t" for t
    using that number_pos [of i "lf_stops x" stop_holds] by (simp add: at_stop_def)
  ultimately show ?thesis
    using c by (fastforce simp: counts_ok_def sv_Done_def split: if_splits)
qed

text \<open>Witness: the run in which the connection's goroutine leaves with the mutex.\<close>

theorem server_sync_safe_witness:
  "\<exists>x. example_life x \<and> lf_conns x = [Leaked] \<and> number holds_mu (lf_conns x) + number stop_holds (lf_stops x) \<le> 1"
proof -
  have "lf_conns (life_of 0 [] True True True [Leaked] [Locks]) = [Leaked]"
    by (simp add: life_of_def)
  then show ?thesis
    using server_sync_safe [OF example_leak, of 0] example_leak by blast
qed

text \<open>
  C15: a connection that is accepted while the server shuts down can block \<open>Shutdown\<close> for good. When
  the goroutine of \<open>serveConn\<close> finds the flag set it returns without unlocking \<open>connectionsMu\<close>, and a
  caller of \<open>Shutdown\<close> that still has to take the mutex waits for it forever.
\<close>

theorem shutdown_deadlock:
  assumes "reachable life_init life_step x" and "Leaked \<in> set (lf_conns x)" and "at_stop x j Locks" and "life_step\<^sup>*\<^sup>* x y"
  shows "at_stop y j Locks"
  using leak.forever [of j x y] life.always [OF assms(1)] assms(2-4) by (simp add: locked_out_def)

text \<open>Witness: such a state is reachable, and no continuation of it lets the caller go on.\<close>

theorem shutdown_deadlock_witness:
  "\<exists>x. example_life x \<and> lf_stops x = [Locks] \<and> {y. life_step\<^sup>*\<^sup>* x y \<and> \<not> at_stop y 0 Locks} = {}"
proof -
  let ?x = "life_of 0 [] True True True [Leaked] [Locks]"
  have x: "Leaked \<in> set (lf_conns ?x)" "at_stop ?x 0 Locks" "lf_stops ?x = [Locks]"
    by (simp_all add: life_of_def at_stop_def)
  then show ?thesis
    using shutdown_deadlock [OF example_leak x(1,2)] example_leak by blast
qed



end
