(* ===== verification/Client.thy ===== *)
theory Client
  imports Server Connect
begin

text \<open>
  The client (\<^verbatim>\<open>client.go\<close>): a connection with one goroutine, \<open>handleConn\<close>, that reads packets and
  calls their handlers. \<^const>\<open>None\<close> is a panic: the use of a connection that was never made, or a
  negative wait group. The goroutine and the callers of \<open>Close\<close> and \<open>Raw\<close> run concurrently in
  \<open>Client_Conc\<close>; here every operation is a function of the client's state.
\<close>

section \<open>State and configuration\<close>

record ('ctx, 'c, 'l, 't, 'q, 'pl, 'bl, 'f) client =
  cl_conn :: "('c, 'q, 'pl, 'bl, 'f stream_fn) async option"
  cl_handlerTable :: "('ctx, 'c) HandlerTable"
  cl_options :: "('l, 't) Options"
  cl_closed :: bool
  cl_wg :: nat
  cl_baseContext :: 'ctx
  cl_cancelled :: bool
  cl_PacketContext :: "('ctx \<Rightarrow> 'c packet \<Rightarrow> 'ctx) option"

definition NewClient ::
    "'l \<Rightarrow> ('ctx, 'c) HandlerTable \<Rightarrow> 'ctx \<Rightarrow> ('l, 't) Option list
      \<Rightarrow> goerror + ('ctx, 'c, 'l, 't, 'q, 'pl, 'bl, 'f) client" where
  "NewClient noop ht ctx opts =
     (if reserved_used ht 0 then Inl InvalidHandlerTable
      else Inr \<lparr>cl_conn = None, cl_handlerTable = ht, cl_options = loadOptions noop opts, cl_closed = False,
        cl_wg = 0, cl_baseContext = ctx, cl_cancelled = False, cl_PacketContext = None\<rparr>)"

text \<open>Both ways of connecting start the goroutine \<open>handleConn\<close>.\<close>

definition Client_Connect ::
    "('c, 'q, 'pl, 'bl) deps \<Rightarrow> (nat \<Rightarrow> netconn attempt) \<Rightarrow> ('t \<Rightarrow> nat \<Rightarrow> netconn attempt)
      \<Rightarrow> 'f stream_fn option list \<Rightarrow> 'pl \<Rightarrow> 'bl \<Rightarrow> ('ctx, 'c, 'l, 't, 'q, 'pl, 'bl, 'f) client
      \<Rightarrow> (goerror option \<times> ('ctx, 'c, 'l, 't, 'q, 'pl, 'bl, 'f) client) option" where
  "Client_Connect D dial tlsDial hs pl bl c = do {
     r \<leftarrow> ConnectAsync D dial tlsDial (TLSConfig (cl_options c)) hs pl bl;
     (case r of
        Inl err \<Rightarrow> Some (Some err, c)
      | Inr a \<Rightarrow> Some (None, c\<lparr>cl_conn := Some a, cl_wg := cl_wg c + 1\<rparr>))
   }"

definition FromConn ::
    "('c, 'q, 'pl, 'bl) deps \<Rightarrow> netconn \<Rightarrow> 'f stream_fn option list \<Rightarrow> 'pl \<Rightarrow> 'bl
      \<Rightarrow> ('ctx, 'c, 'l, 't, 'q, 'pl, 'bl, 'f) client
      \<Rightarrow> goerror option \<times> ('ctx, 'c, 'l, 't, 'q, 'pl, 'bl, 'f) client" where
  "FromConn D nc hs pl bl c =
     (None, c\<lparr>cl_conn := Some (NewAsync D nc hs pl bl), cl_wg := cl_wg c + 1\<rparr>)"

definition Client_Closed :: "('ctx, 'c, 'l, 't, 'q, 'pl, 'bl, 'f) client \<Rightarrow> bool" where
  "Client_Closed c = cl_closed c"

definition Client_Error :: "('ctx, 'c, 'l, 't, 'q, 'pl, 'bl, 'f) client \<Rightarrow> goerror option option" where
  "Client_Error c = map_option Async_Error (cl_conn c)"

text \<open>The channel is ready to receive from exactly when it is closed.\<close>

definition Async_CloseChannel :: "('c, 'q, 'pl, 'bl, 'h) async \<Rightarrow> bool" where
  "Async_CloseChannel a = closeCh_closed a"

definition Client_CloseChannel :: "('ctx, 'c, 'l, 't, 'q, 'pl, 'bl, 'f) client \<Rightarrow> bool option" where
  "Client_CloseChannel c = map_option Async_CloseChannel (cl_conn c)"

definition Client_WritePacket ::
    "('c, 'q, 'pl, 'bl) deps
      \<Rightarrow> (('c, 'q, 'pl, 'bl, 'f stream_fn) async \<Rightarrow> ('c, 'q, 'pl, 'bl, 'f stream_fn) async) \<Rightarrow> 'c packet
      \<Rightarrow> ('ctx, 'c, 'l, 't, 'q, 'pl, 'bl, 'f) client
      \<Rightarrow> (goerror option \<times> ('ctx, 'c, 'l, 't, 'q, 'pl, 'bl, 'f) client) option" where
  "Client_WritePacket D race p c = do {
     a \<leftarrow> cl_conn c;
     (err, a) \<leftarrow> Async_WritePacket D race p a;
     Some (err, c\<lparr>cl_conn := Some a\<rparr>)
   }"

definition Client_Flush ::
    "('c, 'q, 'pl, 'bl) deps \<Rightarrow> ('ctx, 'c, 'l, 't, 'q, 'pl, 'bl, 'f) client
      \<Rightarrow> (goerror option \<times> ('ctx, 'c, 'l, 't, 'q, 'pl, 'bl, 'f) client) option" where
  "Client_Flush D c = do {
     a \<leftarrow> cl_conn c;
     (err, a) \<leftarrow> Async_Flush D a;
     Some (err, c\<lparr>cl_conn := Some a\<rparr>)
   }"

definition Client_Stream ::
    "('c, 'q, 'pl, 'bl) deps \<Rightarrow> uint16 \<Rightarrow> ('ctx, 'c, 'l, 't, 'q, 'pl, 'bl, 'f) client
      \<Rightarrow> (nat \<times> ('ctx, 'c, 'l, 't, 'q, 'pl, 'bl, 'f) client) option" where
  "Client_Stream D sid c = do {
     a \<leftarrow> cl_conn c;
     let (s, a) = NewStream D sid a;
     Some (s, c\<lparr>cl_conn := Some a\<rparr>)
   }"

text \<open>
  \<open>SetStreamHandler\<close> with nil removes the handler and then, as there is no return, installs the
  closure around nil.
\<close>

definition Client_SetStreamHandler ::
    "'f option \<Rightarrow> ('ctx, 'c, 'l, 't, 'q, 'pl, 'bl, 'f) client
      \<Rightarrow> ('ctx, 'c, 'l, 't, 'q, 'pl, 'bl, 'f) client option" where
  "Client_SetStreamHandler f c = do {
     a \<leftarrow> cl_conn c;
     let a = (if f = None then SetNewStreamHandler None a else a);
     let a = SetNewStreamHandler (Some (CallsHandler f)) a;
     Some (c\<lparr>cl_conn := Some a\<rparr>)
   }"

section \<open>Closing\<close>

text \<open>The last step of \<open>Close\<close> and \<open>Raw\<close> waits for \<open>handleConn\<close>.\<close>

definition wait_for :: "('ctx, 'c, 'l, 't, 'q, 'pl, 'bl, 'f) client \<Rightarrow> 'r \<Rightarrow> 'r blocking" where
  "wait_for c r = (if cl_wg c = 0 then Returns r else Blocks)"

definition Client_Close ::
    "('c, 'q, 'pl, 'bl) deps \<Rightarrow> ('ctx, 'c, 'l, 't, 'q, 'pl, 'bl, 'f) client
      \<Rightarrow> (goerror option \<times> ('ctx, 'c, 'l, 't, 'q, 'pl, 'bl, 'f) client) blocking option" where
  "Client_Close D c = do {
     a \<leftarrow> cl_conn c;
     (if \<not> cl_closed c
      then do {
        let c = c\<lparr>cl_closed := True, cl_cancelled := True\<rparr>;
        (err, a) \<leftarrow> Async_Close D a;
        let c = c\<lparr>cl_conn := Some a\<rparr>;
        (if err \<noteq> None then Some (Returns (err, c)) else Some (wait_for c (None, c)))
      }
      else do {
        (err, a) \<leftarrow> Async_Close D a;
        Some (Returns (err, c\<lparr>cl_conn := Some a\<rparr>))
      })
   }"

definition Client_Raw ::
    "('c, 'q, 'pl, 'bl) deps \<Rightarrow> ('ctx, 'c, 'l, 't, 'q, 'pl, 'bl, 'f) client
      \<Rightarrow> ((goerror + netconn) \<times> ('ctx, 'c, 'l, 't, 'q, 'pl, 'bl, 'f) client) blocking option" where
  "Client_Raw D c =
     (case cl_conn c of
        None \<Rightarrow> Some (Returns (Inl ConnectionNotInitialized, c))
      | Some a \<Rightarrow> do {
          (nc, a) \<leftarrow> Async_Raw D a;
          (if \<not> cl_closed c
           then (let c = c\<lparr>cl_closed := True, cl_conn := Some a\<rparr> in Some (wait_for c (Inr nc, c)))
           else Some (Returns (Inr nc, c\<lparr>cl_conn := Some a\<rparr>)))
        })"

section \<open>The goroutine\<close>

definition cl_Done ::
    "('ctx, 'c, 'l, 't, 'q, 'pl, 'bl, 'f) client \<Rightarrow> ('ctx, 'c, 'l, 't, 'q, 'pl, 'bl, 'f) client option" where
  "cl_Done c = (if cl_wg c = 0 then None else Some (c\<lparr>cl_wg := cl_wg c - 1\<rparr>))"

text \<open>\<^verbatim>\<open>c.wg.Done(); _ = c.Close(); return\<close>.\<close>

definition leave ::
    "('c, 'q, 'pl, 'bl) deps \<Rightarrow> 'c event list \<Rightarrow> ('ctx, 'c, 'l, 't, 'q, 'pl, 'bl, 'f) client
      \<Rightarrow> ('c event list \<times> bool \<times> ('ctx, 'c, 'l, 't, 'q, 'pl, 'bl, 'f) client) option blocking" where
  "leave D evs c =
     (case do { c \<leftarrow> cl_Done c; Client_Close D c } of
        None \<Rightarrow> Returns None
      | Some Blocks \<Rightarrow> Blocks
      | Some (Returns (_, c)) \<Rightarrow> Returns (Some (evs, True, c)))"

text \<open>One round of the loop. The flag says that the goroutine returned.\<close>

definition handleConn_step ::
    "('c, 'q, 'pl, 'bl) deps
      \<Rightarrow> (('c, 'q, 'pl, 'bl, 'f stream_fn) async \<Rightarrow> ('c, 'q, 'pl, 'bl, 'f stream_fn) async)
      \<Rightarrow> ('ctx, 'c, 'l, 't, 'q, 'pl, 'bl, 'f) client
      \<Rightarrow> ('c event list \<times> bool \<times> ('ctx, 'c, 'l, 't, 'q, 'pl, 'bl, 'f) client) option blocking" where
  "handleConn_step D race c =
     (if cl_closed c then Returns (do { c \<leftarrow> cl_Done c; Some ([], True, c) })
      else case cl_conn c of
        None \<Rightarrow> Returns None
      | Some a \<Rightarrow>
          (case Async_ReadPacket D race a of
             Blocks \<Rightarrow> Blocks
           | Returns (Inl err, a) \<Rightarrow> leave D [] (c\<lparr>cl_conn := Some a\<rparr>)
           | Returns (Inr p, a) \<Rightarrow>
               (case handle_packet D race [] (cl_handlerTable c) (cl_PacketContext c) (cl_baseContext c) p a of
                  None \<Rightarrow> Returns None
                | Some (r, evs, a) \<Rightarrow>
                    (let c = c\<lparr>cl_conn := Some a\<rparr> in
                     case r of
                       WriteErr e \<Rightarrow> leave D evs c
                     | Acts CLOSE \<Rightarrow> leave D evs c
                     | _ \<Rightarrow> Returns (Some (evs, False, c))))))"

partial_function (option) handleConn ::
    "('c, 'q, 'pl, 'bl) deps
      \<Rightarrow> (('c, 'q, 'pl, 'bl, 'f stream_fn) async \<Rightarrow> ('c, 'q, 'pl, 'bl, 'f stream_fn) async)
      \<Rightarrow> ('ctx, 'c, 'l, 't, 'q, 'pl, 'bl, 'f) client
      \<Rightarrow> ('c event list \<times> bool \<times> ('ctx, 'c, 'l, 't, 'q, 'pl, 'bl, 'f) client) option" where
  "handleConn D race c =
     (case handleConn_step D race c of
        Blocks \<Rightarrow> Some ([], False, c)
      | Returns r \<Rightarrow> do {
          (evs, returned, c) \<leftarrow> r;
          (if returned then Some (evs, True, c)
           else do {
             (evs', returned, c) \<leftarrow> handleConn D race c;
             Some (evs @ evs', returned, c)
           })
        })"

section \<open>The goroutine does what the server does one packet at a time\<close>

lemma handle_packet_pre:
  "handle_packet D race [] ht pctx ctx p a =
     map_option (\<lambda>(r, evs, a). (r, map Called (calls evs), a)) (handle_packet D race [PreWrite] ht pctx ctx p a)"
  by (auto simp: handle_packet_def Let_def bind_map_option map_option_bind comp_def
      split: option.splits outgoing.splits prod.splits intro!: Option.bind_cong)

text \<open>The client after its goroutine has worked on the connection, and after it has returned.\<close>

definition client_after ::
    "('ctx, 'c, 'l, 't, 'q, 'pl, 'bl, 'f) client \<Rightarrow> bool \<Rightarrow> ('c, 'q, 'pl, 'bl, 'f stream_fn) async
      \<Rightarrow> ('ctx, 'c, 'l, 't, 'q, 'pl, 'bl, 'f) client" where
  "client_after c returned b =
     (if returned then c\<lparr>cl_conn := Some b, cl_closed := True, cl_wg := 0, cl_cancelled := True\<rparr>
      else c\<lparr>cl_conn := Some b\<rparr>)"

lemma leave_closes:
  assumes "cl_wg c = 1" and "\<not> cl_closed c" and "Async_Close D a = Some (None, b)"
  shows "leave D evs (c\<lparr>cl_conn := Some a\<rparr>) = Returns (Some (evs, True, client_after c True b))"
  using assms by (cases c) (simp add: leave_def cl_Done_def Client_Close_def wait_for_def client_after_def)

text \<open>A running client and a server with the same handlers.\<close>

definition same_handlers ::
    "('ctx, 'c, 'l, 't, 'f, 'oc, 'pw) server \<Rightarrow> ('ctx, 'c, 'l, 't, 'q, 'pl, 'bl, 'f) client \<Rightarrow> bool" where
  "same_handlers s c \<longleftrightarrow> handlerTable s = cl_handlerTable c \<and> PacketContext s = cl_PacketContext c \<and>
     \<not> cl_closed c \<and> cl_wg c = 1"

lemma steps_alike:
  assumes same: "same_handlers s c" and ok: "deps_ok D V I J" and inv: "async_inv V I J a"
  shows "handleConn_step D id (c\<lparr>cl_conn := Some a\<rparr>) =
    (case single_step D id s (cl_baseContext c) a of
       Blocks \<Rightarrow> Blocks
     | Returns None \<Rightarrow> Returns None
     | Returns (Some (evs, returned, b)) \<Rightarrow> Returns (Some (map Called (calls evs), returned, client_after c returned b)))"
proof -
  note same [unfolded same_handlers_def]
  then have table: "handlerTable s = cl_handlerTable c" "PacketContext s = cl_PacketContext c"
      and running: "\<not> cl_closed c" "cl_wg c = 1"
    by auto
  show ?thesis
  proof (cases rule: Async_ReadPacket_undelivered [OF ok inv, case_names packet closed waits])
    case waits
    then show ?thesis
      using running by (simp add: handleConn_step_def single_step_def)
  next
    case closed
    obtain b where "Async_Close D a = Some (None, b)"
      by (rule Async_Close_undelivered [OF ok inv])
    then show ?thesis
      using closed running leave_closes [OF running(2,1), of D a b "[]"]
      by (simp add: handleConn_step_def single_step_def close_and_report_def)
  next
    case (packet p b)
    obtain r evs d where h: "handle_packet D id [PreWrite] (handlerTable s) (PacketContext s) (cl_baseContext c) p b = Some (r, evs, d)"
        "async_inv V I J d"
      using handle_packet_spec [OF ok packet(2), of "[PreWrite]" "handlerTable s" "PacketContext s" "cl_baseContext c" p] by auto
    obtain e where e: "Async_Close D d = Some (None, e)"
      by (rule Async_Close_undelivered [OF ok h(2)])
    have l: "leave D evs' (c\<lparr>cl_conn := Some d\<rparr>) = Returns (Some (evs', True, client_after c True e))" for evs'
      by (rule leave_closes [OF running(2,1) e])
    have h': "handle_packet D id [] (cl_handlerTable c) (cl_PacketContext c) (cl_baseContext c) p b =
        Some (r, map Called (calls evs), d)"
      using h(1) table by (simp add: handle_packet_pre)
    show ?thesis
      using packet(1) h(1) h' e l running
      by (cases r; cases "r = Acts CLOSE")
        (auto simp: handleConn_step_def single_step_def close_and_report_def client_after_def split: Action.splits)
qed
qed

lemma client_after_same: "same_handlers s c \<Longrightarrow> same_handlers s (c\<lparr>cl_conn := b\<rparr>)"
  by (simp add: same_handlers_def)

lemma handleConn_alike:
  assumes ok: "deps_ok D V I J" and same: "same_handlers s c"
  shows "async_inv V I J a \<Longrightarrow> \<exists>evs returned b. handleSinglePacket D id s (cl_baseContext c) a = Some (evs, returned, b) \<and>
    handleConn D id (c\<lparr>cl_conn := Some a\<rparr>) = Some (map Called (calls evs), returned, client_after c returned b)"
proof (induction "length (undelivered V a)" arbitrary: a rule: less_induct)
  case less
  note alike = steps_alike [OF same ok less.prems]
  show ?case
  proof (cases rule: single_step_spec [OF ok less.prems, of s "cl_baseContext c", case_names waits ends continues])
    case waits
    then show ?thesis
      using alike by (subst handleSinglePacket.simps, subst handleConn.simps)
        (auto simp: client_after_def intro!: exI [of _ False])
  next
    case (ends evs b err)
    then show ?thesis
      using alike by (subst handleSinglePacket.simps, subst handleConn.simps) (auto intro!: exI [of _ True])
  next
    case (continues evs b p)
    obtain evs' returned d where d: "handleSinglePacket D id s (cl_baseContext c) b = Some (evs', returned, d)"
        "handleConn D id (c\<lparr>cl_conn := Some b\<rparr>) = Some (map Called (calls evs'), returned, client_after c returned d)"
      using less.hyps [OF _ continues(2)] continues(4) by auto
    show ?thesis
      using alike continues(1) d
      by (subst handleSinglePacket.simps, subst handleConn.simps) (simp add: client_after_def)
  qed
qed

section \<open>Properties\<close>

text \<open>
  C12: the client's goroutine treats the packets of its connection exactly as the server's loop for one
  packet at a time treats those of its own: with the same handlers and the same connection it calls
  them for the same packets in the same order, leaves the connection in the same state, and returns
  in the same cases. When it has returned, the client is closed and nothing is left to wait for.
\<close>

theorem client_serves_like_server:
  assumes "deps_ok D V I J" and "same_handlers s c" and "cl_conn c = Some a" and "async_inv V I J a"
  shows "\<exists>evs returned b c'. handleSinglePacket D id s (cl_baseContext c) a = Some (evs, returned, b) \<and>
    handleConn D id c = Some (map Called (calls evs), returned, c') \<and> cl_conn c' = Some b \<and>
    cl_closed c' = returned \<and> cl_wg c' = (if returned then 0 else 1)"
proof -
  have "c\<lparr>cl_conn := Some a\<rparr> = c"
    using assms(3) by simp
  then obtain evs returned b where r: "handleSinglePacket D id s (cl_baseContext c) a = Some (evs, returned, b)"
      "handleConn D id c = Some (map Called (calls evs), returned, client_after c returned b)"
    using handleConn_alike [OF assms(1,2,4)] by auto
  have "cl_conn (client_after c returned b) = Some b" "cl_closed (client_after c returned b) = returned"
      "cl_wg (client_after c returned b) = (if returned then 0 else 1)"
    using assms(2) by (simp_all add: client_after_def same_handlers_def)
  then show ?thesis
    using r by blast
qed

text \<open>A client and a server with the same handler, and a connection with one queued packet.\<close>

definition example_table :: "(unit, byte list) HandlerTable" where
  "example_table = Map.empty(12 \<mapsto> Some (\<lambda>_ _. (NoPacket, CLOSE)))"

definition example_client ::
    "(unit, byte list, unit, unit, list_queue, packets_pool, buffers_pool, unit) client" where
  "example_client = snd (FromConn (list_deps 0) (quiet_conn []) [] (Packet_New list_polyglot, []) (NewBuffer, [])
     (projr (NewClient () example_table () [])))"

lemma example_client_eq:
  "example_client =
     \<lparr>cl_conn = Some (NewAsync (list_deps 0) (quiet_conn []) [] (Packet_New list_polyglot, []) (NewBuffer, [])),
      cl_handlerTable = example_table, cl_options = loadOptions () [], cl_closed = False, cl_wg = 1, cl_baseContext = (),
      cl_cancelled = False, cl_PacketContext = None\<rparr>"
  by (simp add: example_client_def FromConn_def NewClient_def reserved_used.simps guard_simps example_table_def)

lemma example_client_inv:
  "async_inv list_view good_packets good_buffers (the (cl_conn example_client))"
  unfolding example_client_eq
  by (simp, rule inv_NewAsync [OF list_deps_ok])
    (simp_all add: good_packets_def good_buffers_def list_polyglot_ok is_buffer_def NewBuffer_def)

lemma example_client_open: "\<not> a_closed (the (cl_conn example_client))"
  by (simp add: example_client_eq NewAsync_def)

text \<open>Witness: a packet whose handler closes is queued; both loops call it and return.\<close>

theorem client_serves_like_server_witness:
  "\<exists>evs returned b c'. handleSinglePacket (list_deps 0) id
      (snd (NewServer () () () example_table () []) :: (unit, byte list, unit, unit, unit, unit, unit) server) ()
      ((the (cl_conn example_client))\<lparr>incoming := (10, False, take 1 example_packets)\<rparr>) = Some (evs, returned, b) \<and>
    handleConn (list_deps 0) id
      (example_client\<lparr>cl_conn := Some ((the (cl_conn example_client))\<lparr>incoming := (10, False, take 1 example_packets)\<rparr>)\<rparr>) =
      Some (map Called (calls evs), returned, c') \<and> cl_closed c' = returned"
proof -
  let ?s = "snd (NewServer () () () example_table () []) :: (unit, byte list, unit, unit, unit, unit, unit) server"
  let ?a = "(the (cl_conn example_client))\<lparr>incoming := (10, False, take 1 example_packets)\<rparr>"
  have "same_handlers ?s (example_client\<lparr>cl_conn := Some ?a\<rparr>)"
    by (simp add: same_handlers_def example_client_eq NewServer_def SetHandlerTable_def reserved_used.simps guard_simps
        example_table_def)
  moreover have "async_inv list_view good_packets good_buffers ?a"
    using example_client_inv example_client_open by (simp add: inv_defs list_view_def)
  moreover have "cl_baseContext (example_client\<lparr>cl_conn := Some ?a\<rparr>) = ()"
    by simp
  ultimately show ?thesis
    using client_serves_like_server [OF list_deps_ok [of 0], of ?s "example_client\<lparr>cl_conn := Some ?a\<rparr>" ?a] by fastforce
qed

text \<open>
  C38: \<open>SetStreamHandler\<close> with nil does not switch streams off: it removes the handler and then installs a
  closure around nil. The first packet of a new stream makes the read loop start that closure,
  which calls nil.
\<close>

theorem nil_stream_handler_runs:
  assumes "deps_ok D V I J" and "cl_conn c = Some a" and "Operation (Metadata p) = STREAM"
    and "ContentLength (Metadata p) \<noteq> 0" and "map_of (streams a) (PacketId (Metadata p)) = None"
  shows "\<exists>c' a' b. Client_SetStreamHandler None c = Some c' \<and> cl_conn c' = Some a' \<and>
    deliver D (destination (Metadata p) a') p a' = Some (Next b) \<and>
    spawned b = spawned a @ [(CallsHandler None, length (stream_objs a))]"
proof -
  let ?q = "q_new (circ D) DefaultStreamBufferSize"
  have "\<not> q_closed V ?q" "0 < room V ?q"
    using circular_new(2,3) [OF deps_okD(4) [OF assms(1)]] by (auto simp: DefaultStreamBufferSize_def)
  then obtain q where "q_push (circ D) p ?q = Returns (None, q)"
    by (rule circular_push_room [OF deps_okD(4) [OF assms(1)]])
  then show ?thesis
    using assms by (simp add: Client_SetStreamHandler_def SetNewStreamHandler_def destination_def deliver_def newStream_def
        stream_at_def set_stream_def Let_def)
qed

text \<open>Witness: a stream packet on a fresh client.\<close>

theorem nil_stream_handler_runs_witness:
  "\<exists>c' a' b. Client_SetStreamHandler None example_client = Some c' \<and> cl_conn c' = Some a' \<and>
    deliver (list_deps 0) (destination \<lparr>Magic = 0, PacketId = 3, Operation = 2, ContentLength = 1\<rparr> a')
      \<lparr>Metadata = \<lparr>Magic = 0, PacketId = 3, Operation = 2, ContentLength = 1\<rparr>, Content = [7]\<rparr> a' = Some (Next b) \<and>
    spawned b = [(CallsHandler None, 0)]"
  using nil_stream_handler_runs [OF list_deps_ok [of 0], of example_client "the (cl_conn example_client)"
      "\<lparr>Metadata = \<lparr>Magic = 0, PacketId = 3, Operation = 2, ContentLength = 1\<rparr>, Content = [7]\<rparr>"]
  by (simp add: example_client_eq NewAsync_def STREAM_def)

end
