(* ===== verification/Client_Conc.thy ===== *)
theory Client_Conc
  imports Client Transitions
begin

text \<open>
  The client's goroutine \<open>handleConn\<close> and the callers of \<open>Close\<close> and \<open>Raw\<close>, interleaved. Every access
  to the \<open>closed\<close> flag, the wait group and the connection is one step; what the user and the
  connection's own goroutines do to the connection in between is a step that keeps its invariant.
\<close>

section \<open>Program points and state\<close>

text \<open>\<open>handleConn\<close>: load the flag, read, handle, release the wait group and, except after the flag, close.\<close>

datatype 'c looping =
    Loads
  | Reads
  | Handles "'c packet"
  | Done_closing
  | Done_leaving
  | Returned

text \<open>
  A caller of \<open>Close\<close>: swap, cancel, close the connection and wait; a caller that loses the swap only
  closes the connection. A caller of \<open>Raw\<close> is the same without the cancellation. The goroutine
  itself becomes such a caller after it has released the wait group.
\<close>

datatype closing =
    Close_swaps
  | Close_cancels
  | Close_conn
  | Close_again
  | Raw_swaps
  | Raw_conn
  | Raw_again
  | Joins
  | Has_joined
  | Closed_again

record ('ctx, 'c, 'l, 't, 'q, 'pl, 'bl, 'f) party =
  pa_client :: "('ctx, 'c, 'l, 't, 'q, 'pl, 'bl, 'f) client"
  pa_loop :: "'c looping"
  pa_closers :: "closing list"

section \<open>Steps\<close>

definition set_conn_of ::
    "('c, 'q, 'pl, 'bl, 'f stream_fn) async \<Rightarrow> ('ctx, 'c, 'l, 't, 'q, 'pl, 'bl, 'f) party
      \<Rightarrow> ('ctx, 'c, 'l, 't, 'q, 'pl, 'bl, 'f) party" where
  "set_conn_of a x = x\<lparr>pa_client := (pa_client x)\<lparr>cl_conn := Some a\<rparr>\<rparr>"

definition set_closer ::
    "nat \<Rightarrow> closing \<Rightarrow> ('ctx, 'c, 'l, 't, 'q, 'pl, 'bl, 'f) party \<Rightarrow> ('ctx, 'c, 'l, 't, 'q, 'pl, 'bl, 'f) party" where
  "set_closer i k x = x\<lparr>pa_closers := (pa_closers x)[i := k]\<rparr>"

definition at_closer :: "('ctx, 'c, 'l, 't, 'q, 'pl, 'bl, 'f) party \<Rightarrow> nat \<Rightarrow> closing \<Rightarrow> bool" where
  "at_closer x i k \<longleftrightarrow> i < length (pa_closers x) \<and> pa_closers x ! i = k"

definition conn_of ::
    "('ctx, 'c, 'l, 't, 'q, 'pl, 'bl, 'f) party \<Rightarrow> ('c, 'q, 'pl, 'bl, 'f stream_fn) async option" where
  "conn_of x = cl_conn (pa_client x)"

definition after_packet :: "handled \<Rightarrow> 'c looping" where
  "after_packet r = (case r of WriteErr e \<Rightarrow> Done_closing | Acts CLOSE \<Rightarrow> Done_closing | _ \<Rightarrow> Loads)"

inductive party_step ::
    "('c, 'q, 'pl, 'bl) deps \<Rightarrow> ('q, 'c packet) queue_view \<Rightarrow> ('pl \<Rightarrow> bool) \<Rightarrow> ('bl \<Rightarrow> bool)
      \<Rightarrow> ('ctx, 'c, 'l, 't, 'q, 'pl, 'bl, 'f) party \<Rightarrow> ('ctx, 'c, 'l, 't, 'q, 'pl, 'bl, 'f) party \<Rightarrow> bool"
  for D V I J where
  loop_loads: "pa_loop x = Loads \<Longrightarrow>
    party_step D V I J x (x\<lparr>pa_loop := if cl_closed (pa_client x) then Done_leaving else Reads\<rparr>)"
| loop_reads: "pa_loop x = Reads \<Longrightarrow> conn_of x = Some a \<Longrightarrow> Async_ReadPacket D id a = Returns (Inr p, b) \<Longrightarrow>
    party_step D V I J x ((set_conn_of b x)\<lparr>pa_loop := Handles p\<rparr>)"
| loop_fails: "pa_loop x = Reads \<Longrightarrow> conn_of x = Some a \<Longrightarrow> Async_ReadPacket D id a = Returns (Inl e, b) \<Longrightarrow>
    party_step D V I J x ((set_conn_of b x)\<lparr>pa_loop := Done_closing\<rparr>)"
| loop_handles: "pa_loop x = Handles p \<Longrightarrow> conn_of x = Some a \<Longrightarrow>
    handle_packet D id [] (cl_handlerTable (pa_client x)) (cl_PacketContext (pa_client x))
      (cl_baseContext (pa_client x)) p a = Some (r, evs, b) \<Longrightarrow>
    party_step D V I J x ((set_conn_of b x)\<lparr>pa_loop := after_packet r\<rparr>)"
| loop_leaves: "pa_loop x = Done_leaving \<Longrightarrow> cl_Done (pa_client x) = Some c \<Longrightarrow>
    party_step D V I J x (x\<lparr>pa_client := c, pa_loop := Returned\<rparr>)"
| loop_closes: "pa_loop x = Done_closing \<Longrightarrow> cl_Done (pa_client x) = Some c \<Longrightarrow>
    party_step D V I J x (x\<lparr>pa_client := c, pa_loop := Returned, pa_closers := pa_closers x @ [Close_swaps]\<rparr>)"
| calls_Close: "party_step D V I J x (x\<lparr>pa_closers := pa_closers x @ [Close_swaps]\<rparr>)"
| calls_Raw: "party_step D V I J x (x\<lparr>pa_closers := pa_closers x @ [Raw_swaps]\<rparr>)"
| close_swaps: "at_closer x i Close_swaps \<Longrightarrow>
    party_step D V I J x (if cl_closed (pa_client x) then set_closer i Close_again x
      else (set_closer i Close_cancels x)\<lparr>pa_client := (pa_client x)\<lparr>cl_closed := True\<rparr>\<rparr>)"
| close_cancels: "at_closer x i Close_cancels \<Longrightarrow>
    party_step D V I J x ((set_closer i Close_conn x)\<lparr>pa_client := (pa_client x)\<lparr>cl_cancelled := True\<rparr>\<rparr>)"
| close_conn: "at_closer x i Close_conn \<Longrightarrow> conn_of x = Some a \<Longrightarrow> Async_Close D a = Some (e, b) \<Longrightarrow>
    party_step D V I J x (set_closer i (if e \<noteq> None then Has_joined else Joins) (set_conn_of b x))"
| close_again: "at_closer x i Close_again \<Longrightarrow> conn_of x = Some a \<Longrightarrow> Async_Close D a = Some (e, b) \<Longrightarrow>
    party_step D V I J x (set_closer i Closed_again (set_conn_of b x))"
| raw_swaps: "at_closer x i Raw_swaps \<Longrightarrow>
    party_step D V I J x (if cl_closed (pa_client x) then set_closer i Raw_again x
      else (set_closer i Raw_conn x)\<lparr>pa_client := (pa_client x)\<lparr>cl_closed := True\<rparr>\<rparr>)"
| raw_conn: "at_closer x i Raw_conn \<Longrightarrow> conn_of x = Some a \<Longrightarrow> Async_Raw D a = Some (nc, b) \<Longrightarrow>
    party_step D V I J x (set_closer i Joins (set_conn_of b x))"
| raw_again: "at_closer x i Raw_again \<Longrightarrow> conn_of x = Some a \<Longrightarrow> Async_Raw D a = Some (nc, b) \<Longrightarrow>
    party_step D V I J x (set_closer i Closed_again (set_conn_of b x))"
| joins: "at_closer x i Joins \<Longrightarrow> cl_wg (pa_client x) = 0 \<Longrightarrow> party_step D V I J x (set_closer i Has_joined x)"
| others: "conn_of x = Some a \<Longrightarrow> async_inv V I J b \<Longrightarrow> (a_closed a \<Longrightarrow> a_closed b) \<Longrightarrow>
    party_step D V I J x (set_conn_of b x)"

definition party_init ::
    "('q, 'c packet) queue_view \<Rightarrow> ('pl \<Rightarrow> bool) \<Rightarrow> ('bl \<Rightarrow> bool)
      \<Rightarrow> ('ctx, 'c, 'l, 't, 'q, 'pl, 'bl, 'f) party \<Rightarrow> bool" where
  "party_init V I J x \<longleftrightarrow> (\<exists>a. conn_of x = Some a \<and> async_inv V I J a) \<and> pa_loop x = Loads \<and> pa_closers x = [] \<and>
     \<not> cl_closed (pa_client x) \<and> cl_wg (pa_client x) = 1"

section \<open>Invariant\<close>

text \<open>A caller that won the swap, and one that is past closing the connection.\<close>

fun won_close :: "closing \<Rightarrow> bool" where
  "won_close Close_cancels = True"
| "won_close Close_conn = True"
| "won_close Raw_conn = True"
| "won_close Joins = True"
| "won_close Has_joined = True"
| "won_close _ = False"

fun past_conn :: "closing \<Rightarrow> bool" where
  "past_conn Joins = True"
| "past_conn Has_joined = True"
| "past_conn Closed_again = True"
| "past_conn _ = False"

fun past_swap :: "closing \<Rightarrow> bool" where
  "past_swap Close_swaps = False"
| "past_swap Raw_swaps = False"
| "past_swap _ = True"

definition conn_ok ::
    "('q, 'c packet) queue_view \<Rightarrow> ('pl \<Rightarrow> bool) \<Rightarrow> ('bl \<Rightarrow> bool)
      \<Rightarrow> ('ctx, 'c, 'l, 't, 'q, 'pl, 'bl, 'f) party \<Rightarrow> bool" where
  "conn_ok V I J x \<longleftrightarrow> (\<exists>a. conn_of x = Some a \<and> async_inv V I J a \<and>
     (0 < number past_conn (pa_closers x) \<longrightarrow> a_closed a))"

definition party_inv ::
    "('q, 'c packet) queue_view \<Rightarrow> ('pl \<Rightarrow> bool) \<Rightarrow> ('bl \<Rightarrow> bool)
      \<Rightarrow> ('ctx, 'c, 'l, 't, 'q, 'pl, 'bl, 'f) party \<Rightarrow> bool" where
  "party_inv V I J x \<longleftrightarrow> conn_ok V I J x \<and>
     cl_wg (pa_client x) = (if pa_loop x = Returned then 0 else 1) \<and>
     number won_close (pa_closers x) = (if cl_closed (pa_client x) then 1 else 0) \<and>
     (0 < number past_swap (pa_closers x) \<longrightarrow> cl_closed (pa_client x)) \<and>
     (0 < number (\<lambda>k. k = Has_joined) (pa_closers x) \<longrightarrow> pa_loop x = Returned)"

lemmas party_defs = set_conn_of_def set_closer_def conn_of_def

lemma move_closer:
  assumes "at_closer x i k"
  shows "number P ((pa_closers x)[i := l]) + (if P k then 1 else 0) = number P (pa_closers x) + (if P l then 1 else 0)"
  using number_update [of i "pa_closers x" P l] assms by (simp add: at_closer_def)

lemma move_closer_same: "at_closer x i k \<Longrightarrow> P k = P l \<Longrightarrow> number P ((pa_closers x)[i := l]) = number P (pa_closers x)"
  and move_closer_more: "at_closer x i k \<Longrightarrow> \<not> P k \<Longrightarrow> P l \<Longrightarrow> number P ((pa_closers x)[i := l]) = Suc (number P (pa_closers x))"
  using move_closer [of x i k P l] by (auto split: if_splits)

lemmas closer_moves = move_closer_same move_closer_more

text \<open>What the operations on the connection keep.\<close>

lemma Async_Raw_closes:
  assumes ok: "deps_ok D V I J" and inv: "async_inv V I J a"
  obtains b where "Async_Raw D a = Some (a_conn b, b)" and "async_inv V I J b" and "a_closed b"
proof (cases "a_closed a")
  case True
  then show ?thesis
    using that [of a] inv by (simp add: Async_Raw_def)
next
  case False
  obtain b where "close D a = Some (None, b)" "async_inv V I J b" "a_closed b"
    by (rule close_open [OF ok async_inv_pre [OF inv] False])
  then show ?thesis
    using that [of b] by (simp add: Async_Raw_def)
qed

lemma Async_Raw_keeps:
  assumes "deps_ok D V I J" and "async_inv V I J a" and "Async_Raw D a = Some (nc, b)"
  shows "async_inv V I J b" and "a_closed b"
  by (rule Async_Raw_closes [OF assms(1,2)]; use assms(3) in auto)+

lemma conn_okI: "conn_of x = Some a \<Longrightarrow> async_inv V I J a \<Longrightarrow> a_closed a \<or> number past_conn (pa_closers x) = 0 \<Longrightarrow> conn_ok V I J x"
  by (auto simp: conn_ok_def)

lemma conn_okE:
  assumes "conn_ok V I J x" and "conn_of x = Some a"
  shows "async_inv V I J a" and "a_closed a \<or> number past_conn (pa_closers x) = 0"
  using assms by (auto simp: conn_ok_def)

lemma conn_ok_step:
  assumes ok: "deps_ok D V I J"
  shows "party_step D V I J x y \<Longrightarrow> conn_ok V I J x \<Longrightarrow> conn_ok V I J y"
proof (induction rule: party_step.induct)
  case (loop_reads x a p b)
  note i = conn_okE [OF loop_reads(4,2)]
  show ?case
    by (rule conn_okI [of _ b]) (use i Async_ReadPacket_keeps [OF ok i(1) loop_reads(3)]
        Async_ReadPacket_keeps_closed [OF loop_reads(3)] in \<open>auto simp: party_defs\<close>)
next
  case (loop_fails x a e b)
  note i = conn_okE [OF loop_fails(4,2)]
  show ?case
    by (rule conn_okI [of _ b]) (use i Async_ReadPacket_keeps [OF ok i(1) loop_fails(3)]
        Async_ReadPacket_keeps_closed [OF loop_fails(3)] in \<open>auto simp: party_defs\<close>)
next
  case (loop_handles x p a r evs b)
  note i = conn_okE [OF loop_handles(4,2)]
  show ?case
    by (rule conn_okI [of _ b]) (use i handle_packet_keeps [OF ok i(1) _ _ loop_handles(3)]
        handle_packet_keeps_closed [OF ok i(1) _ loop_handles(3)] in \<open>auto simp: party_defs\<close>)
next
  case (close_conn x i a e b)
  note i = conn_okE [OF close_conn(4,2)]
  show ?case
    by (rule conn_okI [of _ b]) (use Async_Close_keeps [OF ok i(1) close_conn(3)] in \<open>auto simp: party_defs\<close>)
next
  case (close_again x i a e b)
  note i = conn_okE [OF close_again(4,2)]
  show ?case
    by (rule conn_okI [of _ b]) (use Async_Close_keeps [OF ok i(1) close_again(3)] in \<open>auto simp: party_defs\<close>)
next
  case (raw_conn x i a nc b)
  note i = conn_okE [OF raw_conn(4,2)]
  show ?case
    by (rule conn_okI [of _ b]) (use Async_Raw_keeps [OF ok i(1) raw_conn(3)] in \<open>auto simp: party_defs\<close>)
next
  case (raw_again x i a nc b)
  note i = conn_okE [OF raw_again(4,2)]
  show ?case
    by (rule conn_okI [of _ b]) (use Async_Raw_keeps [OF ok i(1) raw_again(3)] in \<open>auto simp: party_defs\<close>)
next
  case (others x a b)
  note i = conn_okE [OF others(4,1)]
  show ?case
    by (rule conn_okI [of _ b]) (use others i in \<open>auto simp: party_defs\<close>)
qed (auto simp: conn_ok_def party_defs cl_Done_def closer_moves split: if_splits)

lemma after_packet_goes_on [simp]: "after_packet r \<noteq> Returned"
  by (cases r; cases "r = Acts CLOSE") (auto simp: after_packet_def split: Action.splits)

lemma won_past_swap: "number won_close ks \<le> number past_swap ks"
  by (rule number_mono) (auto elim: won_close.elims)

lemma party_inv_step:
  assumes ok: "deps_ok D V I J"
  shows "party_step D V I J x y \<Longrightarrow> party_inv V I J x \<Longrightarrow> party_inv V I J y"
proof -
  assume st: "party_step D V I J x y" and inv: "party_inv V I J x"
  have c: "conn_ok V I J y"
    using conn_ok_step [OF ok st] inv by (simp add: party_inv_def)
  show ?thesis
    using st inv c
  proof (induction rule: party_step.induct)
    case (loop_handles x p a r evs b)
    then show ?case
      by (simp add: party_inv_def party_defs)
  next
    case (close_conn x i a e b)
    have "e = None"
      using close_conn(2,3,4) Async_Close_keeps(3) [OF ok _ close_conn(3)] by (auto simp: party_inv_def conn_ok_def)
    then show ?case
      using close_conn by (simp add: party_inv_def party_defs closer_moves)
  next
    case (close_swaps x i)
    then show ?case
      by (cases "cl_closed (pa_client x)") (simp_all add: party_inv_def party_defs closer_moves)
  next
    case (raw_swaps x i)
    then show ?case
      by (cases "cl_closed (pa_client x)") (simp_all add: party_inv_def party_defs closer_moves)
  next
    case (joins x i)
    then show ?case
      by (simp add: party_inv_def party_defs closer_moves split: if_splits)
  qed (auto simp: party_inv_def party_defs closer_moves cl_Done_def split: if_splits)
qed

interpretation party: invariant_system
  "\<lambda>x. deps_ok D V I J \<and> party_init V I J x" "party_step D V I J" "\<lambda>x. deps_ok D V I J \<and> party_inv V I J x"
proof (unfold_locales, goal_cases)
  case (1 x)
  then show ?case by (auto simp: party_init_def party_inv_def conn_ok_def)
next
  case (2 x y)
  then have "deps_ok D V I J" "party_inv V I J x" "party_step D V I J x y" by simp_all
  then show ?case by (simp add: party_inv_step)
qed

lemma party_reachable_inv:
  assumes "deps_ok D V I J" and "reachable (party_init V I J) (party_step D V I J) x"
  shows "party_inv V I J x"
  using party.always [of D V I J x] assms by simp

section \<open>Progress\<close>

fun looping_rank :: "'c looping \<Rightarrow> nat" where
  "looping_rank Reads = 8"
| "looping_rank (Handles _) = 7"
| "looping_rank Done_closing = 6"
| "looping_rank Loads = 2"
| "looping_rank Done_leaving = 1"
| "looping_rank Returned = 0"

fun closing_rank :: "closing \<Rightarrow> nat" where
  "closing_rank Close_swaps = 4"
| "closing_rank Close_cancels = 3"
| "closing_rank Close_conn = 2"
| "closing_rank Close_again = 1"
| "closing_rank Raw_swaps = 4"
| "closing_rank Raw_conn = 2"
| "closing_rank Raw_again = 1"
| "closing_rank Joins = 1"
| "closing_rank _ = 0"

definition party_rank :: "('ctx, 'c, 'l, 't, 'q, 'pl, 'bl, 'f) party \<Rightarrow> nat" where
  "party_rank x = looping_rank (pa_loop x) + sum_list (map closing_rank (pa_closers x))"

lemma closer_rank:
  assumes "at_closer x i k" and "closing_rank l < closing_rank k"
  shows "party_rank (set_closer i l x) < party_rank x"
  using assms rank_update [of i "pa_closers x" closing_rank l] by (simp add: party_rank_def at_closer_def set_closer_def)

lemma party_rank_simps [simp]:
  "party_rank (x\<lparr>pa_client := c\<rparr>) = party_rank x"
  "party_rank (set_conn_of a x) = party_rank x"
  by (simp_all add: party_rank_def set_conn_of_def)

text \<open>A caller that does not wait for the goroutine can always go on.\<close>

lemma closer_advances:
  assumes ok: "deps_ok D V I J" and inv: "party_inv V I J x" and at: "at_closer x i k"
    and busy: "k \<noteq> Joins" "k \<noteq> Has_joined" "k \<noteq> Closed_again"
  shows "\<exists>y. party_step D V I J x y \<and> party_rank y < party_rank x \<and> pa_closers y \<noteq> []"
proof -
  obtain a where a: "conn_of x = Some a" "async_inv V I J a"
    using inv by (auto simp: party_inv_def conn_ok_def)
  obtain b where b: "Async_Close D a = Some (None, b)"
    by (rule Async_Close_undelivered [OF ok a(2)])
  obtain d where d: "Async_Raw D a = Some (a_conn d, d)"
    by (rule Async_Raw_closes [OF ok a(2)])
  have ne: "pa_closers x \<noteq> []"
    using at by (auto simp: at_closer_def)
  have at': "at_closer (set_conn_of e x) i k" for e
    using at by (simp add: at_closer_def set_conn_of_def)
  note cr = closer_rank [OF at] closer_rank [OF at']
  have ne': "pa_closers (set_closer i l x) \<noteq> []" "pa_closers (set_closer i l (set_conn_of e x)) \<noteq> []" for l e
    using ne by (simp_all add: set_closer_def set_conn_of_def)
  show ?thesis
  proof (cases k)
    case Close_swaps
    then show ?thesis
      using party_step.close_swaps [of x i D V I J] at cr(1) [of Close_again] cr(1) [of Close_cancels] ne'
      by (cases "cl_closed (pa_client x)") auto
  next
    case Close_cancels
    then show ?thesis
      using party_step.close_cancels [of x i D V I J] at cr(1) [of Close_conn] ne' by auto
  next
    case Close_conn
    then show ?thesis
      using party_step.close_conn [of x i a D None b V I J] at a(1) b cr(2) [of Joins b] ne' by auto
  next
    case Close_again
    then show ?thesis
      using party_step.close_again [of x i a D None b V I J] at a(1) b cr(2) [of Closed_again b] ne' by auto
  next
    case Raw_swaps
    then show ?thesis
      using party_step.raw_swaps [of x i D V I J] at cr(1) [of Raw_again] cr(1) [of Raw_conn] ne'
      by (cases "cl_closed (pa_client x)") auto
  next
    case Raw_conn
    then show ?thesis
      using party_step.raw_conn [of x i a D "a_conn d" d V I J] at a(1) d cr(2) [of Joins d] ne' by auto
  next
    case Raw_again
    then show ?thesis
      using party_step.raw_again [of x i a D "a_conn d" d V I J] at a(1) d cr(2) [of Closed_again d] ne' by auto
  qed (use busy in auto)
qed

lemma rank_after_packet: "looping_rank (after_packet r) < 7"
  by (cases r; cases "r = Acts CLOSE") (auto simp: after_packet_def split: Action.splits)

text \<open>Once the client is marked closed and its connection is closed, the goroutine can go on.\<close>

lemma loop_advances:
  assumes ok: "deps_ok D V I J" and inv: "party_inv V I J x" and ne: "pa_closers x \<noteq> []"
    and closed: "cl_closed (pa_client x)" "conn_of x = Some a" "a_closed a" and busy: "pa_loop x \<noteq> Returned"
  shows "\<exists>y. party_step D V I J x y \<and> party_rank y < party_rank x \<and> pa_closers y \<noteq> []"
proof -
  have a: "async_inv V I J a"
    using inv closed(2) by (auto simp: party_inv_def conn_ok_def)
  have wg: "cl_Done (pa_client x) = Some ((pa_client x)\<lparr>cl_wg := 0\<rparr>)"
    using inv busy by (simp add: party_inv_def cl_Done_def)
  have adv: ?thesis if "party_step D V I J x y" "party_rank y < party_rank x" "pa_closers y \<noteq> []" for y
    using that by blast
  show ?thesis
  proof (cases "pa_loop x")
    case Loads
    then show ?thesis
      using party_step.loop_loads [OF Loads, of D V I J] ne closed(1) by (auto simp: party_rank_def)
  next
    case Reads
    show ?thesis
    proof (cases rule: Async_ReadPacket_undelivered [OF ok a, case_names packet closed' waits])
      case (packet p b)
      show ?thesis
        by (rule adv [OF party_step.loop_reads [OF Reads closed(2) packet(1)]]) (use Reads ne in \<open>simp_all add: party_rank_def set_conn_of_def\<close>)
    next
      case closed'
      show ?thesis
        by (rule adv [OF party_step.loop_fails [OF Reads closed(2) closed'(1)]]) (use Reads ne in \<open>simp_all add: party_rank_def set_conn_of_def\<close>)
    qed (use closed in auto)
  next
    case (Handles p)
    obtain r evs b where h: "handle_packet D id [] (cl_handlerTable (pa_client x)) (cl_PacketContext (pa_client x))
        (cl_baseContext (pa_client x)) p a = Some (r, evs, b)"
      using handle_packet_spec [OF ok a, of "[]" "cl_handlerTable (pa_client x)" "cl_PacketContext (pa_client x)"
          "cl_baseContext (pa_client x)" p] by auto
    show ?thesis
      by (rule adv [OF party_step.loop_handles [OF Handles closed(2) h]])
        (use Handles ne rank_after_packet [of r] in \<open>simp_all add: party_rank_def set_conn_of_def\<close>)
  next
    case Done_closing
    show ?thesis
      by (rule adv [OF party_step.loop_closes [OF Done_closing wg]]) (use Done_closing in \<open>simp_all add: party_rank_def\<close>)
  next
    case Done_leaving
    show ?thesis
      by (rule adv [OF party_step.loop_leaves [OF Done_leaving wg]]) (use Done_leaving ne in \<open>simp_all add: party_rank_def\<close>)
  qed (use busy in simp)
qed

definition all_returned :: "('ctx, 'c, 'l, 't, 'q, 'pl, 'bl, 'f) party \<Rightarrow> bool" where
  "all_returned x \<longleftrightarrow> pa_loop x = Returned \<and> (\<forall>k\<in>set (pa_closers x). k = Has_joined \<or> k = Closed_again)"

lemma party_advances:
  assumes ok: "deps_ok D V I J" and inv: "party_inv V I J x" and ne: "pa_closers x \<noteq> []" and busy: "\<not> all_returned x"
  shows "\<exists>y. party_step D V I J x y \<and> party_rank y < party_rank x \<and> pa_closers y \<noteq> []"
proof (cases "\<exists>i k. at_closer x i k \<and> k \<noteq> Joins \<and> k \<noteq> Has_joined \<and> k \<noteq> Closed_again")
  case True
  then show ?thesis
    using closer_advances [OF ok inv] by blast
next
  case False
  then have f: "k = Joins \<or> k = Has_joined \<or> k = Closed_again" if "k \<in> set (pa_closers x)" for k
    using that by (auto simp: at_closer_def in_set_conv_nth)
  show ?thesis
  proof (cases "pa_loop x = Returned")
    case True
    then have "Joins \<in> set (pa_closers x)"
      using busy f by (auto simp: all_returned_def)
    then obtain i where i: "at_closer x i Joins"
      by (auto simp: at_closer_def in_set_conv_nth)
    have "cl_wg (pa_client x) = 0"
      using inv True by (simp add: party_inv_def)
    then show ?thesis
      using party_step.joins [OF i] closer_rank [OF i, of Has_joined] ne
      by (intro exI [of _ "set_closer i Has_joined x"]) (auto simp: set_closer_def)
  next
    case False
    have "0 < number past_conn (pa_closers x)" "0 < number past_swap (pa_closers x)"
      using f [OF hd_in_set [OF ne]] hd_in_set [OF ne] number_0 [of past_conn "pa_closers x"]
        number_0 [of past_swap "pa_closers x"] by (metis gr0I past_conn.simps(1-3) past_swap.simps(8-10))+
    then obtain a where "cl_closed (pa_client x)" "conn_of x = Some a" "a_closed a"
      using inv by (auto simp: party_inv_def conn_ok_def)
    then show ?thesis
      using loop_advances [OF ok inv ne] False by blast
  qed
qed

interpretation closing: ranked_progress "party_step D V I J"
  "\<lambda>x. deps_ok D V I J \<and> party_inv V I J x \<and> pa_closers x \<noteq> []" all_returned party_rank
proof (unfold_locales, goal_cases)
  case (1 x)
  then obtain y where "party_step D V I J x y" "party_rank y < party_rank x" "pa_closers y \<noteq> []"
    using party_advances [of D V I J x] by blast
  then show ?case
    using 1 party_inv_step [of D V I J x y] by blast
qed

section \<open>A concrete run\<close>

abbreviation example_party_step where
  "example_party_step \<equiv> party_step (list_deps 0) list_view good_packets good_buffers
     :: (unit, byte list, unit, unit, list_queue, packets_pool, buffers_pool, unit) party \<Rightarrow> _"

abbreviation example_party where
  "example_party \<equiv> reachable (party_init list_view good_packets good_buffers) example_party_step"

definition example_closing :: "(unit, byte list, unit, unit, list_queue, packets_pool, buffers_pool, unit) party" where
  "example_closing = \<lparr>pa_client = example_client, pa_loop = Reads, pa_closers = [Close_swaps]\<rparr>"

text \<open>The goroutine of a fresh client waits for a packet when \<open>Close\<close> is called.\<close>

lemma example_closing_reachable: "example_party example_closing"
proof -
  let ?x = "\<lparr>pa_client = example_client, pa_loop = Loads, pa_closers = []\<rparr>"
  have i: "example_party ?x"
    using example_client_inv by (intro reachable.start) (simp add: party_init_def conn_of_def example_client_eq)
  have s: "example_party_step ?x (?x\<lparr>pa_loop := Reads\<rparr>)"
    using party_step.loop_loads [of ?x "list_deps 0" list_view good_packets good_buffers] by (simp add: example_client_eq)
  have t: "example_party_step (?x\<lparr>pa_loop := Reads\<rparr>) example_closing"
    using party_step.calls_Close [of "list_deps 0" list_view good_packets good_buffers "?x\<lparr>pa_loop := Reads\<rparr>"]
    by (simp add: example_closing_def)
  show ?thesis
    by (rule reachable.more [OF reachable.more [OF i s] t])
qed

section \<open>Properties\<close>



text \<open>
  C14: \<open>Close\<close> and \<open>Raw\<close> do not deadlock with the goroutine or with each other: from every reachable
  state in which one of them was called, all callers and \<open>handleConn\<close> can return.
\<close>

theorem client_close_returns:
  assumes "deps_ok D V I J" and "reachable (party_init V I J) (party_step D V I J) x" and "pa_closers x \<noteq> []"
  shows "\<exists>y. (party_step D V I J)\<^sup>*\<^sup>* x y \<and> pa_loop y = Returned \<and>
    (\<forall>k\<in>set (pa_closers y). k = Has_joined \<or> k = Closed_again)"
  using closing.reaches [of D V I J x] party_reachable_inv [OF assms(1,2)] assms(1,3) by (auto simp: all_returned_def)

text \<open>Witness: the goroutine waits for a packet when \<open>Close\<close> is called.\<close>

theorem client_close_returns_witness:
  "\<exists>y. example_party_step\<^sup>*\<^sup>* example_closing y \<and> pa_loop y = Returned"
  using client_close_returns [OF list_deps_ok example_closing_reachable] by (auto simp: example_closing_def)

end
